(* ===== verification/Prelude.thy ===== *)
theory Prelude
  imports Main "HOL-Library.Sublist" "HOL-Library.Char_ord" "HOL-Library.List_Lexorder"
    "HOL-Library.Monad_Syntax" "HOL-Library.Code_Target_Numeral"
begin

text \<open>
  Shared vocabulary of the development: the types that stand for Go's byte strings, the
  bytes the gateway's parsers look at, and the generic facts on lists, options and prefixes
  that the component theories use.
\<close>

subsection \<open>Types and lemma collections\<close>

text \<open>
  A Go \<^verbatim>\<open>string\<close> and a Go \<^verbatim>\<open>[]byte\<close> are both sequences of bytes, and a HOL \<open>char\<close> is a
  byte, so both are \<open>string\<close>.  The order on \<open>string\<close> is the lexicographic order on byte
  values, the order of Go's \<^verbatim>\<open><\<close> on strings.
\<close>

type_synonym bytes = string

named_theorems byte_classes \<open>the classes of bytes the parsers distinguish\<close>
named_theorems parse_simps \<open>one step of the JSON parser\<close>

subsection \<open>Bytes by name\<close>

abbreviation QUOTE :: char where "QUOTE \<equiv> CHR 0x22"
abbreviation BSLASH :: char where "BSLASH \<equiv> CHR 0x5C"
abbreviation LF :: char where "LF \<equiv> CHR 0x0A"
abbreviation CR :: char where "CR \<equiv> CHR 0x0D"
abbreviation TAB :: char where "TAB \<equiv> CHR 0x09"
abbreviation BS :: char where "BS \<equiv> CHR 0x08"
abbreviation FF :: char where "FF \<equiv> CHR 0x0C"

abbreviation byte :: "char \<Rightarrow> nat" where "byte c \<equiv> of_char c"

lemma char_of_iff: "r < 256 \<Longrightarrow> char_of r = c \<longleftrightarrow> r = byte c" "r < 256 \<Longrightarrow> c = char_of r \<longleftrightarrow> byte c = r"
  by (auto simp: of_char_of)

subsection \<open>Lists\<close>

lemma dropWhile_length_le [simp]: "length (dropWhile P xs) \<le> length xs"
  by (induction xs) auto

lemma takeWhile_append_stop:
  "\<forall>x \<in> set xs. P x \<Longrightarrow> ys = [] \<or> \<not> P (hd ys) \<Longrightarrow> takeWhile P (xs @ ys) = xs"
  by (induction xs) (cases ys; auto)+

lemma dropWhile_append_stop:
  "\<forall>x \<in> set xs. P x \<Longrightarrow> ys = [] \<or> \<not> P (hd ys) \<Longrightarrow> dropWhile P (xs @ ys) = ys"
  by (induction xs) (cases ys; auto)+

lemma hd_append_neq: "xs \<noteq> [] \<Longrightarrow> hd (xs @ ys) = hd xs"
  by simp

text \<open>The separator-joined concatenation of Go's \<^verbatim>\<open>strings.Join\<close> and \<^verbatim>\<open>bytes.Join\<close>.\<close>

fun join :: "'a list \<Rightarrow> 'a list list \<Rightarrow> 'a list" where
  "join sep [] = []"
| "join sep [x] = x"
| "join sep (x # y # xs) = x @ sep @ join sep (y # xs)"

lemma join_Cons: "xs \<noteq> [] \<Longrightarrow> join sep (x # xs) = x @ sep @ join sep xs"
  by (cases xs) auto

lemma set_join: "set (join sep xs) \<subseteq> set sep \<union> \<Union>(set ` set xs)"
  by (induction sep xs rule: join.induct) auto

subsection \<open>Options\<close>

lemma bind_eq_Some_iff [simp]:
  "Option.bind x f = Some y \<longleftrightarrow> (\<exists>a. x = Some a \<and> f a = Some y)"
  by (cases x) auto

lemma those_eq_Some_iff:
  "those xs = Some ys \<longleftrightarrow> xs = map Some ys"
proof (induction xs arbitrary: ys)
  case Nil
  then show ?case by auto
next
  case (Cons x xs)
  then show ?case by (cases ys) (auto split: option.splits)
qed

lemma those_map_Some [simp]: "those (map Some xs) = Some xs"
  by (simp add: those_eq_Some_iff)

lemma those_map_cong: "\<forall>x \<in> set xs. f x = Some (g x) \<Longrightarrow> those (map f xs) = Some (map g xs)"
  by (simp add: those_eq_Some_iff)

lemma those_map_eq_SomeD:
  "those (map f xs) = Some ys \<Longrightarrow> length ys = length xs \<and> (\<forall>i < length xs. f (xs ! i) = Some (ys ! i))"
  by (metis length_map nth_map those_eq_Some_iff)

end
