(* ===== verification/Go_Bytes.thy ===== *)
theory Go_Bytes
  imports Prelude
begin

text \<open>
  What the gateway uses of Go's \<^verbatim>\<open>strings\<close>, \<^verbatim>\<open>bytes\<close>, \<^verbatim>\<open>strconv\<close> and \<^verbatim>\<open>unicode/utf8\<close>
  packages: prefixes and suffixes, \<^verbatim>\<open>Cut\<close>, \<^verbatim>\<open>TrimSpace\<close>, \<^verbatim>\<open>Itoa\<close>, \<^verbatim>\<open>ToLower\<close> on
  ASCII, and the UTF-8 decoder and encoder with Go's treatment of invalid sequences.  The
  lemmas at the end show that encoding and decoding are inverse on Unicode scalar values.
\<close>

subsection \<open>strings and bytes\<close>

definition HasPrefix :: "bytes \<Rightarrow> bytes \<Rightarrow> bool" where
  "HasPrefix s p = prefix p s"

definition TrimPrefix :: "bytes \<Rightarrow> bytes \<Rightarrow> bytes" where
  "TrimPrefix s p = (if prefix p s then drop (length p) s else s)"

definition TrimSuffix :: "bytes \<Rightarrow> bytes \<Rightarrow> bytes" where
  "TrimSuffix s p = (if suffix p s then take (length s - length p) s else s)"

text \<open>\<^verbatim>\<open>strings.Cut\<close> at a one-byte separator: the text before it, the text after it, whether it was found.\<close>

definition Cut :: "bytes \<Rightarrow> char \<Rightarrow> bytes \<times> bytes \<times> bool" where
  "Cut s c = (case dropWhile (\<lambda>x. x \<noteq> c) s of
     [] \<Rightarrow> (s, [], False)
   | _ # r \<Rightarrow> (takeWhile (\<lambda>x. x \<noteq> c) s, r, True))"

text \<open>
  \<^verbatim>\<open>TrimSpace\<close> removes the UTF-8 encodings of the \<^verbatim>\<open>unicode.IsSpace\<close> code points at both
  ends; the list below holds exactly those encodings.
\<close>

definition space_encodings :: "bytes list" where
  "space_encodings =
    [[CHR 0x20], [LF], [CR], [TAB], [CHR 0x0B], [FF],
     [CHR 0xC2, CHR 0x85], [CHR 0xC2, CHR 0xA0], [CHR 0xE1, CHR 0x9A, CHR 0x80],
     [CHR 0xE2, CHR 0x80, CHR 0x80], [CHR 0xE2, CHR 0x80, CHR 0x81],
     [CHR 0xE2, CHR 0x80, CHR 0x82], [CHR 0xE2, CHR 0x80, CHR 0x83],
     [CHR 0xE2, CHR 0x80, CHR 0x84], [CHR 0xE2, CHR 0x80, CHR 0x85],
     [CHR 0xE2, CHR 0x80, CHR 0x86], [CHR 0xE2, CHR 0x80, CHR 0x87],
     [CHR 0xE2, CHR 0x80, CHR 0x88], [CHR 0xE2, CHR 0x80, CHR 0x89],
     [CHR 0xE2, CHR 0x80, CHR 0x8A], [CHR 0xE2, CHR 0x80, CHR 0xA8],
     [CHR 0xE2, CHR 0x80, CHR 0xA9], [CHR 0xE2, CHR 0x80, CHR 0xAF],
     [CHR 0xE2, CHR 0x81, CHR 0x9F], [CHR 0xE3, CHR 0x80, CHR 0x80]]"

function strip_front :: "bytes list \<Rightarrow> bytes \<Rightarrow> bytes" where
  "strip_front es s =
     (case find (\<lambda>e. prefix e s) es of
        None \<Rightarrow> s
      | Some e \<Rightarrow> if e = [] then s else strip_front es (drop (length e) s))"
  by pat_completeness auto
termination
proof (relation "measure (\<lambda>(es, s). length s)", goal_cases)
  case (2 es s e)
  then have "prefix e s" "e \<noteq> []"
    by (auto simp: find_Some_iff)
  then show ?case
    by (auto simp: prefix_def)
qed simp

declare strip_front.simps [simp del]

definition TrimSpace :: "bytes \<Rightarrow> bytes" where
  "TrimSpace s = rev (strip_front (map rev space_encodings) (rev (strip_front space_encodings s)))"

lemma strip_front_suffix: "suffix (strip_front es s) s"
proof (induction es s rule: strip_front.induct)
  case (1 es s)
  then show ?case
    by (subst strip_front.simps)
      (auto split: option.splits intro: suffix_order.trans suffix_drop)
qed

lemma strip_front_id: "find (\<lambda>e. prefix e s) es = None \<Longrightarrow> strip_front es s = s"
  by (subst strip_front.simps) simp

lemma strip_front_Nil [simp]: "strip_front es [] = []"
  by (subst strip_front.simps) (auto split: option.splits simp: find_Some_iff)

lemma TrimSpace_Nil [simp]: "TrimSpace [] = []"
  by (simp add: TrimSpace_def)

text \<open>\<^verbatim>\<open>strconv.Itoa\<close>.\<close>

fun nat_digits :: "nat \<Rightarrow> bytes" where
  "nat_digits n =
     (if n < 10 then [char_of (48 + n)] else nat_digits (n div 10) @ [char_of (48 + n mod 10)])"

declare nat_digits.simps [simp del]

definition Itoa :: "int \<Rightarrow> bytes" where
  "Itoa i = (if i < 0 then CHR ''-'' # nat_digits (nat (- i)) else nat_digits (nat i))"

text \<open>\<^verbatim>\<open>strings.ToLower\<close> on the ASCII range (the names it is applied to match \<^verbatim>\<open>nameRE\<close>).\<close>

definition lower_char :: "char \<Rightarrow> char" where
  "lower_char c = (if 65 \<le> byte c \<and> byte c \<le> 90 then char_of (byte c + 32) else c)"

definition ToLower :: "bytes \<Rightarrow> bytes" where
  "ToLower s = map lower_char s"

subsection \<open>unicode/utf8 and unicode/utf16\<close>

definition RuneError :: nat where "RuneError = 0xFFFD"

definition is_scalar :: "nat \<Rightarrow> bool" where
  "is_scalar r \<longleftrightarrow> r < 0xD800 \<or> (0xE000 \<le> r \<and> r \<le> 0x10FFFF)"

definition cont_byte :: "char \<Rightarrow> bool" where
  "cont_byte c \<longleftrightarrow> 0x80 \<le> byte c \<and> byte c \<le> 0xBF"

text \<open>The range the second byte of a three- or four-byte sequence must lie in.\<close>

definition second_ok :: "nat \<Rightarrow> char \<Rightarrow> bool" where
  "second_ok b0 c \<longleftrightarrow>
     (if b0 = 0xE0 then 0xA0 \<le> byte c \<and> byte c \<le> 0xBF
      else if b0 = 0xED then 0x80 \<le> byte c \<and> byte c \<le> 0x9F
      else if b0 = 0xF0 then 0x90 \<le> byte c \<and> byte c \<le> 0xBF
      else if b0 = 0xF4 then 0x80 \<le> byte c \<and> byte c \<le> 0x8F
      else cont_byte c)"

text \<open>\<^verbatim>\<open>utf8.DecodeRune\<close>: the rune and its width; an invalid sequence is \<^verbatim>\<open>(RuneError, 1)\<close>.\<close>

definition DecodeRune :: "bytes \<Rightarrow> nat \<times> nat" where
  "DecodeRune s = (case s of
     [] \<Rightarrow> (RuneError, 0)
   | c0 # s1 \<Rightarrow>
       (let b0 = byte c0 in
        if b0 < 0x80 then (b0, 1)
        else if 0xC2 \<le> b0 \<and> b0 \<le> 0xDF then
          (case s1 of
             c1 # _ \<Rightarrow> if cont_byte c1 then ((b0 - 0xC0) * 64 + (byte c1 - 0x80), 2) else (RuneError, 1)
           | [] \<Rightarrow> (RuneError, 1))
        else if 0xE0 \<le> b0 \<and> b0 \<le> 0xEF then
          (case s1 of
             c1 # c2 # _ \<Rightarrow>
               if second_ok b0 c1 \<and> cont_byte c2
               then ((b0 - 0xE0) * 4096 + (byte c1 - 0x80) * 64 + (byte c2 - 0x80), 3)
               else (RuneError, 1)
           | _ \<Rightarrow> (RuneError, 1))
        else if 0xF0 \<le> b0 \<and> b0 \<le> 0xF4 then
          (case s1 of
             c1 # c2 # c3 # _ \<Rightarrow>
               if second_ok b0 c1 \<and> cont_byte c2 \<and> cont_byte c3
               then ((b0 - 0xF0) * 262144 + (byte c1 - 0x80) * 4096 + (byte c2 - 0x80) * 64
                     + (byte c3 - 0x80), 4)
               else (RuneError, 1)
           | _ \<Rightarrow> (RuneError, 1))
        else (RuneError, 1)))"

text \<open>\<^verbatim>\<open>utf8.EncodeRune\<close>: surrogates and out-of-range values are encoded as \<^verbatim>\<open>RuneError\<close>.\<close>

definition EncodeRune :: "nat \<Rightarrow> bytes" where
  "EncodeRune r0 =
     (let r = (if is_scalar r0 then r0 else RuneError) in
      if r < 0x80 then [char_of r]
      else if r < 0x800 then [char_of (0xC0 + r div 64), char_of (0x80 + r mod 64)]
      else if r < 0x10000 then
        [char_of (0xE0 + r div 4096), char_of (0x80 + r div 64 mod 64), char_of (0x80 + r mod 64)]
      else
        [char_of (0xF0 + r div 262144), char_of (0x80 + r div 4096 mod 64),
         char_of (0x80 + r div 64 mod 64), char_of (0x80 + r mod 64)])"

text \<open>The runes a \<^verbatim>\<open>for _, r := range s\<close> loop visits.\<close>

fun runes :: "bytes \<Rightarrow> nat list" where
  "runes [] = []"
| "runes (c # cs) =
     (let (r, n) = DecodeRune (c # cs) in r # runes (drop (n - 1) cs))"

declare runes.simps(2) [simp del]

definition utf8 :: "nat list \<Rightarrow> bytes" where
  "utf8 rs = concat (map EncodeRune rs)"

definition valid_utf8 :: "bytes \<Rightarrow> bool" where
  "valid_utf8 s \<longleftrightarrow> utf8 (runes s) = s"

text \<open>\<^verbatim>\<open>utf16.IsSurrogate\<close>, \<^verbatim>\<open>utf16.DecodeRune\<close> (on a proper pair) and \<^verbatim>\<open>utf16.EncodeRune\<close>.\<close>

definition is_surrogate :: "nat \<Rightarrow> bool" where
  "is_surrogate r \<longleftrightarrow> 0xD800 \<le> r \<and> r < 0xE000"

definition surrogate_pair :: "nat \<Rightarrow> nat \<Rightarrow> bool" where
  "surrogate_pair hi lo \<longleftrightarrow> 0xD800 \<le> hi \<and> hi < 0xDC00 \<and> 0xDC00 \<le> lo \<and> lo < 0xE000"

definition utf16_decode :: "nat \<Rightarrow> nat \<Rightarrow> nat" where
  "utf16_decode hi lo = (hi - 0xD800) * 1024 + (lo - 0xDC00) + 0x10000"

definition utf16_encode :: "nat \<Rightarrow> nat \<times> nat" where
  "utf16_encode r = (0xD800 + (r - 0x10000) div 1024, 0xDC00 + (r - 0x10000) mod 1024)"

subsection \<open>Encoding and decoding are inverse\<close>

lemma RuneError_scalar [simp]: "is_scalar RuneError"
  by (simp add: is_scalar_def RuneError_def)

lemma EncodeRune_neq_Nil [simp]: "EncodeRune r \<noteq> []"
  by (simp add: EncodeRune_def Let_def)

lemma length_EncodeRune: "0 < length (EncodeRune r)" "length (EncodeRune r) \<le> 4"
  by (simp_all add: EncodeRune_def Let_def)

lemma DecodeRune_size: "s \<noteq> [] \<Longrightarrow> 0 < snd (DecodeRune s)"
  by (auto simp: DecodeRune_def Let_def split: list.splits)

lemma second_ok_cont: "second_ok b c \<Longrightarrow> cont_byte c"
  by (auto simp: second_ok_def cont_byte_def split: if_splits)

lemma DecodeRune_scalar: "is_scalar (fst (DecodeRune s))"
proof (cases s)
  case Nil
  then show ?thesis by (simp add: DecodeRune_def)
next
  case (Cons c cs)
  have 1: "is_scalar (byte c)" if "byte c < 0x80"
    using that by (simp add: is_scalar_def)
  have 2: "is_scalar ((byte c - 0xC0) * 64 + (byte c1 - 0x80))"
    if "cont_byte c1" "0xC2 \<le> byte c" "byte c \<le> 0xDF" for c1
    using that unfolding is_scalar_def cont_byte_def by auto
  have 3: "is_scalar ((byte c - 0xE0) * 4096 + (byte c1 - 0x80) * 64 + (byte c2 - 0x80))"
    if "second_ok (byte c) c1" "cont_byte c2" "0xE0 \<le> byte c" "byte c \<le> 0xEF" for c1 c2
    using that unfolding is_scalar_def second_ok_def cont_byte_def by (auto split: if_splits)
  have 4: "is_scalar ((byte c - 0xF0) * 262144 + (byte c1 - 0x80) * 4096
      + (byte c2 - 0x80) * 64 + (byte c3 - 0x80))"
    if "second_ok (byte c) c1" "cont_byte c2" "cont_byte c3" "0xF0 \<le> byte c" "byte c \<le> 0xF4"
    for c1 c2 c3
    using that unfolding is_scalar_def second_ok_def cont_byte_def by (auto split: if_splits)
  from 1 2 3 4 show ?thesis
    by (simp add: Cons DecodeRune_def Let_def split: list.split)
qed

text \<open>Only the continuation bytes that follow a lead byte matter to the decoder.\<close>

lemma DecodeRune_takeWhile_cont:
  "DecodeRune (c # takeWhile cont_byte cs) = DecodeRune (c # cs)"
proof -
  have *: "\<not> second_ok b x" if "\<not> cont_byte x" for b x
    using that second_ok_cont by blast
  show ?thesis
    by (cases cs rule: list.exhaust; cases "tl cs" rule: list.exhaust;
        cases "tl (tl cs)" rule: list.exhaust)
      (auto simp: DecodeRune_def Let_def * split: list.split)
qed

lemma DecodeRune_width_cont:
  "snd (DecodeRune (c # cs)) \<le> Suc (length (takeWhile cont_byte cs))"
  by (auto simp: DecodeRune_def Let_def dest: second_ok_cont split: list.split)

text \<open>The base-64 digits of a code point, the shape both directions share.\<close>

lemma digits64_3:
  fixes r :: nat
  shows "r = r div 4096 * 4096 + r div 64 mod 64 * 64 + r mod 64"
proof -
  have "r div 4096 = r div 64 div 64" by (simp flip: div_mult2_eq)
  then have "r div 64 = r div 4096 * 64 + r div 64 mod 64" by (simp only: div_mult_mod_eq)
  moreover have "r = r div 64 * 64 + r mod 64" by (simp only: div_mult_mod_eq)
  ultimately show ?thesis by linarith
qed

lemma digits64_4:
  fixes r :: nat
  shows "r = r div 262144 * 262144 + r div 4096 mod 64 * 4096 + r div 64 mod 64 * 64 + r mod 64"
proof -
  have "r div 262144 = r div 4096 div 64" by (simp flip: div_mult2_eq)
  then have "r div 4096 = r div 262144 * 64 + r div 4096 mod 64" by (simp only: div_mult_mod_eq)
  then show ?thesis using digits64_3 [of r] by linarith
qed

lemma DecodeRune_2:
  assumes "2 \<le> a" "a < 32" "b < 64"
  shows "DecodeRune (char_of (0xC0 + a) # char_of (0x80 + b) # s) = (a * 64 + b, 2)"
  using assms by (simp add: DecodeRune_def of_char_of cont_byte_def Let_def)

lemma DecodeRune_3:
  assumes "a < 16" "b < 64" "c < 64" "a = 0 \<Longrightarrow> 32 \<le> b" "a = 13 \<Longrightarrow> b \<le> 31"
  shows "DecodeRune (char_of (0xE0 + a) # char_of (0x80 + b) # char_of (0x80 + c) # s)
    = (a * 4096 + b * 64 + c, 3)"
  using assms by (simp add: DecodeRune_def of_char_of cont_byte_def second_ok_def Let_def)

lemma DecodeRune_4:
  assumes "a \<le> 4" "b < 64" "c < 64" "d < 64" "a = 0 \<Longrightarrow> 16 \<le> b" "a = 4 \<Longrightarrow> b \<le> 15"
  shows "DecodeRune (char_of (0xF0 + a) # char_of (0x80 + b) # char_of (0x80 + c) # char_of (0x80 + d) # s)
    = (a * 262144 + b * 4096 + c * 64 + d, 4)"
  using assms by (simp add: DecodeRune_def of_char_of cont_byte_def second_ok_def Let_def)

lemma DecodeRune_EncodeRune:
  assumes "is_scalar r"
  shows "DecodeRune (EncodeRune r @ s) = (r, length (EncodeRune r))"
proof -
  have m: "r mod 64 < 64" "r div 64 mod 64 < 64" "r div 4096 mod 64 < 64" by simp_all
  consider "r < 0x80" | "0x80 \<le> r" "r < 0x800" | "0x800 \<le> r" "r < 0x10000" | "0x10000 \<le> r"
    by linarith
  then show ?thesis
  proof cases
    case 1
    then show ?thesis using assms
      by (simp add: EncodeRune_def DecodeRune_def of_char_of)
  next
    case 2
    then have "2 \<le> r div 64" "r div 64 < 32" by linarith+
    from DecodeRune_2 [OF this m(1)] 2 assms show ?thesis
      by (simp add: EncodeRune_def)
  next
    case 3
    have "r div 4096 < 16" using 3 by linarith
    moreover have "r div 4096 = 0 \<Longrightarrow> 32 \<le> r div 64 mod 64"
      using 3 digits64_3 [of r] m by linarith
    moreover have "r div 4096 = 13 \<Longrightarrow> r div 64 mod 64 \<le> 31"
      using assms digits64_3 [of r] m unfolding is_scalar_def by linarith
    ultimately show ?thesis
      using 3 assms m by (simp add: EncodeRune_def DecodeRune_3 flip: digits64_3)
  next
    case 4
    have "r div 262144 \<le> 4" using assms unfolding is_scalar_def by linarith
    moreover have "r div 262144 = 0 \<Longrightarrow> 16 \<le> r div 4096 mod 64"
      using 4 digits64_4 [of r] m by linarith
    moreover have "r div 262144 = 4 \<Longrightarrow> r div 4096 mod 64 \<le> 15"
      using assms digits64_4 [of r] m unfolding is_scalar_def by linarith
    ultimately show ?thesis
      using 4 assms m by (simp add: EncodeRune_def DecodeRune_4 flip: digits64_4)
  qed
qed

lemma runes_append:
  "is_scalar r \<Longrightarrow> runes (EncodeRune r @ s) = r # runes s"
proof -
  assume r: "is_scalar r"
  obtain c cs where c: "EncodeRune r = c # cs"
    by (cases "EncodeRune r") auto
  with DecodeRune_EncodeRune [OF r, of s] show ?thesis
    by (simp add: runes.simps(2))
qed

lemma runes_utf8: "\<forall>r \<in> set rs. is_scalar r \<Longrightarrow> runes (utf8 rs) = rs"
  by (induction rs) (simp_all add: utf8_def runes_append)

lemma runes_scalar: "r \<in> set (runes s) \<Longrightarrow> is_scalar r"
proof (induction s rule: runes.induct)
  case 1
  then show ?case by simp
next
  case (2 c cs)
  then show ?case
    using DecodeRune_scalar [of "c # cs"]
    by (cases "DecodeRune (c # cs)") (auto simp: runes.simps(2))
qed

lemma valid_utf8_utf8: "\<forall>r \<in> set rs. is_scalar r \<Longrightarrow> valid_utf8 (utf8 rs)"
  by (simp add: valid_utf8_def runes_utf8)

lemma utf8_Nil [simp]: "utf8 [] = []" and
  utf8_Cons [simp]: "utf8 (r # rs) = EncodeRune r @ utf8 rs" and
  utf8_append [simp]: "utf8 (rs @ rs') = utf8 rs @ utf8 rs'"
  by (simp_all add: utf8_def)

lemma valid_utf8E:
  assumes "valid_utf8 s"
  obtains rs where "s = utf8 rs" "\<forall>r \<in> set rs. is_scalar r" "rs = runes s"
  using assms runes_scalar by (metis valid_utf8_def)

lemma EncodeRune_ascii: "r < 0x80 \<Longrightarrow> EncodeRune r = [char_of r]"
  by (simp add: EncodeRune_def is_scalar_def)

lemma utf16_decode_encode:
  assumes "0x10000 \<le> r" "r \<le> 0x10FFFF" "utf16_encode r = (hi, lo)"
  shows "surrogate_pair hi lo \<and> utf16_decode hi lo = r"
proof -
  define q where "q = r - 0x10000"
  have "r = q + 0x10000" "q < 0x100000"
    using assms(1,2) by (auto simp: q_def)
  moreover from this have "q div 1024 < 1024" by linarith
  moreover have "q mod 1024 < 1024" "q div 1024 * 1024 + q mod 1024 = q" by simp_all
  moreover have "hi = 0xD800 + q div 1024" "lo = 0xDC00 + q mod 1024"
    using assms(3) by (auto simp: utf16_encode_def q_def)
  ultimately show ?thesis
    unfolding surrogate_pair_def utf16_decode_def by simp
qed

end
