(* ===== verification/Config.thy ===== *)
theory Config
  imports Complex_Main Go_Bytes
begin

text \<open>
  \<^verbatim>\<open>gateway/config.go\<close>: the configuration records, \<open>Validate\<close> with every check in the
  order of the source and the defaults it fills in, \<open>validateHTTPURL\<close> and
  \<open>ParseUpstreamFlag\<close>.  The result of \<^verbatim>\<open>net/url\<close>'s \<^verbatim>\<open>Parse\<close> is a parameter
  \<open>url_parse\<close>; every theorem holds for any parser.  Errors are values of \<open>cfg_error\<close>, one
  constructor per error return.
\<close>

subsection \<open>Records\<close>

record RateLimitConfig =
  RequestsPerSecond :: rat
  Burst :: int
  PerSession :: bool

record LockConfig =
  lcFile :: bytes
  lcServer :: bytes
  lcMode :: bytes

record PromptProofConfig =
  ppEnabled :: bool
  ppBinary :: bytes
  ppThreshold :: bytes
  ppAction :: bytes
  ppSuspiciousAt :: int
  ppDangerousAt :: int
  ppPool :: int

record Upstream =
  Name :: bytes
  URL :: bytes
  HeaderTimeoutSeconds :: int
  RateLimit :: "RateLimitConfig option"
  ToolsAllow :: "bytes list"
  ToolsDeny :: "bytes list"
  ToolsLock :: "LockConfig option"
  PromptProof :: "PromptProofConfig option"
  AuthorizationServers :: "bytes list"
  ResourceName :: bytes

record Config =
  Listen :: bytes
  PublicBaseURL :: bytes
  AuditPath :: bytes
  Upstreams :: "Upstream list"

text \<open>The parts of a parsed URL the gateway reads.\<close>

record parsed_url =
  urlScheme :: bytes
  urlHost :: bytes
  urlPath :: bytes
  urlRawQuery :: bytes
  urlFragment :: bytes

type_synonym url_parser = "bytes \<Rightarrow> parsed_url option"

datatype url_error = InvalidURL | BadScheme bytes | NoHost | QueryOrFragment

datatype cfg_error =
    PublicBaseURLError url_error
  | NoUpstreams
  | BadName nat bytes
  | DuplicateName bytes
  | URLError bytes url_error
  | HeaderTimeoutError bytes
  | RateError bytes
  | BurstError bytes
  | AllowDenyExclusive bytes
  | EmptyAllowEntry bytes
  | EmptyDenyEntry bytes
  | LockFileRequired bytes
  | LockModeError bytes bytes
  | ThresholdError bytes bytes
  | ActionError bytes bytes
  | ScoreError bytes
  | PoolError bytes
  | AuthServerError bytes bytes url_error

definition DefaultListen :: bytes where "DefaultListen = ''127.0.0.1:8385''"

subsection \<open>Validation\<close>

text \<open>\<^verbatim>\<open>nameRE\<close>: \<^verbatim>\<open>^[A-Za-z0-9][A-Za-z0-9._-]*$\<close>.\<close>

definition alnum :: "char \<Rightarrow> bool" where
  "alnum c \<longleftrightarrow> (65 \<le> byte c \<and> byte c \<le> 90) \<or> (97 \<le> byte c \<and> byte c \<le> 122) \<or> (48 \<le> byte c \<and> byte c \<le> 57)"

definition name_char :: "char \<Rightarrow> bool" where
  "name_char c \<longleftrightarrow> alnum c \<or> c = CHR ''.'' \<or> c = CHR ''_'' \<or> c = CHR ''-''"

definition nameRE :: "bytes \<Rightarrow> bool" where
  "nameRE s = (case s of [] \<Rightarrow> False | c # cs \<Rightarrow> alnum c \<and> list_all name_char cs)"

definition validateHTTPURL :: "url_parser \<Rightarrow> bytes \<Rightarrow> url_error option" where
  "validateHTTPURL url_parse raw =
     (case url_parse raw of
        None \<Rightarrow> Some InvalidURL
      | Some u \<Rightarrow>
          if urlScheme u \<noteq> ''http'' \<and> urlScheme u \<noteq> ''https'' then Some (BadScheme (urlScheme u))
          else if urlHost u = [] then Some NoHost
          else if urlRawQuery u \<noteq> [] \<or> urlFragment u \<noteq> [] then Some QueryOrFragment
          else None)"

definition blank :: "bytes \<Rightarrow> bool" where
  "blank s \<longleftrightarrow> TrimSpace s = []"

definition validate_rate :: "bytes \<Rightarrow> RateLimitConfig option \<Rightarrow> cfg_error option" where
  "validate_rate n rl = (case rl of
     None \<Rightarrow> None
   | Some r \<Rightarrow>
       if RequestsPerSecond r \<le> 0 then Some (RateError n)
       else if Burst r < 1 then Some (BurstError n) else None)"

definition validate_lock :: "bytes \<Rightarrow> LockConfig option \<Rightarrow> cfg_error option" where
  "validate_lock n lc = (case lc of
     None \<Rightarrow> None
   | Some l \<Rightarrow>
       if blank (lcFile l) then Some (LockFileRequired n)
       else if lcMode l \<notin> set [[], ''enforce'', ''warn''] then Some (LockModeError n (lcMode l))
       else None)"

definition validate_promptproof :: "bytes \<Rightarrow> PromptProofConfig option \<Rightarrow> cfg_error option" where
  "validate_promptproof n pc = (case pc of
     None \<Rightarrow> None
   | Some p \<Rightarrow>
       if ppThreshold p \<notin> set [[], ''suspicious'', ''dangerous''] then Some (ThresholdError n (ppThreshold p))
       else if ppAction p \<notin> set [[], ''block'', ''flag''] then Some (ActionError n (ppAction p))
       else if ppSuspiciousAt p < 0 \<or> ppDangerousAt p < 0 then Some (ScoreError n)
       else if ppPool p < 0 then Some (PoolError n)
       else None)"

fun validate_auth :: "url_parser \<Rightarrow> bytes \<Rightarrow> bytes list \<Rightarrow> cfg_error option" where
  "validate_auth up n [] = None"
| "validate_auth up n (a # as) =
     (case validateHTTPURL up a of
        Some e \<Rightarrow> Some (AuthServerError n a e)
      | None \<Rightarrow> validate_auth up n as)"

text \<open>The checks of one upstream that come after the name and duplicate checks, in source order.\<close>

definition validate_upstream :: "url_parser \<Rightarrow> Upstream \<Rightarrow> cfg_error option" where
  "validate_upstream up u =
     (let n = Name u in
      case validateHTTPURL up (URL u) of
        Some e \<Rightarrow> Some (URLError n e)
      | None \<Rightarrow>
          if HeaderTimeoutSeconds u < 0 then Some (HeaderTimeoutError n)
          else case validate_rate n (RateLimit u) of Some e \<Rightarrow> Some e | None \<Rightarrow>
          if ToolsAllow u \<noteq> [] \<and> ToolsDeny u \<noteq> [] then Some (AllowDenyExclusive n)
          else if list_ex blank (ToolsAllow u) then Some (EmptyAllowEntry n)
          else if list_ex blank (ToolsDeny u) then Some (EmptyDenyEntry n)
          else case validate_lock n (ToolsLock u) of Some e \<Rightarrow> Some e | None \<Rightarrow>
               case validate_promptproof n (PromptProof u) of Some e \<Rightarrow> Some e | None \<Rightarrow>
               validate_auth up n (AuthorizationServers u))"

fun validate_upstreams :: "url_parser \<Rightarrow> nat \<Rightarrow> bytes list \<Rightarrow> Upstream list \<Rightarrow> cfg_error option" where
  "validate_upstreams up i seen [] = None"
| "validate_upstreams up i seen (u # us) =
     (if \<not> nameRE (Name u) then Some (BadName i (Name u))
      else if ToLower (Name u) \<in> set seen then Some (DuplicateName (Name u))
      else case validate_upstream up u of
             Some e \<Rightarrow> Some e
           | None \<Rightarrow> validate_upstreams up (Suc i) (ToLower (Name u) # seen) us)"

definition Validate :: "url_parser \<Rightarrow> Config \<Rightarrow> cfg_error + Config" where
  "Validate up c0 =
     (let c = (if Listen c0 = [] then c0\<lparr>Listen := DefaultListen\<rparr> else c0) in
      case (if PublicBaseURL c \<noteq> [] then validateHTTPURL up (PublicBaseURL c) else None) of
        Some e \<Rightarrow> Inl (PublicBaseURLError e)
      | None \<Rightarrow>
          if Upstreams c = [] then Inl NoUpstreams
          else case validate_upstreams up 0 [] (Upstreams c) of
                 Some e \<Rightarrow> Inl e
               | None \<Rightarrow> Inr c)"

definition zero_upstream :: Upstream where
  "zero_upstream = \<lparr>Name = [], URL = [], HeaderTimeoutSeconds = 0, RateLimit = None, ToolsAllow = [],
     ToolsDeny = [], ToolsLock = None, PromptProof = None, AuthorizationServers = [], ResourceName = []\<rparr>"

text \<open>\<^verbatim>\<open>ParseUpstreamFlag\<close>: \<open>None\<close> is the error return.\<close>

definition ParseUpstreamFlag :: "bytes \<Rightarrow> Upstream option" where
  "ParseUpstreamFlag v =
     (let (name, rawURL, ok) = Cut v (CHR ''='') in
      if \<not> ok \<or> name = [] \<or> rawURL = [] then None
      else Some (zero_upstream\<lparr>Name := name, URL := rawURL\<rparr>))"

subsection \<open>What a validated configuration guarantees\<close>

definition upstream_ok :: "url_parser \<Rightarrow> Upstream \<Rightarrow> bool" where
  "upstream_ok up u \<longleftrightarrow>
     nameRE (Name u) \<and> validateHTTPURL up (URL u) = None \<and> 0 \<le> HeaderTimeoutSeconds u \<and>
     (\<forall>r. RateLimit u = Some r \<longrightarrow> 0 < RequestsPerSecond r \<and> 1 \<le> Burst r) \<and>
     (ToolsAllow u = [] \<or> ToolsDeny u = []) \<and>
     (\<forall>t \<in> set (ToolsAllow u) \<union> set (ToolsDeny u). \<not> blank t) \<and>
     (\<forall>l. ToolsLock u = Some l \<longrightarrow> \<not> blank (lcFile l) \<and> lcMode l \<in> {[], ''enforce'', ''warn''}) \<and>
     (\<forall>p. PromptProof u = Some p \<longrightarrow>
        ppThreshold p \<in> {[], ''suspicious'', ''dangerous''} \<and> ppAction p \<in> {[], ''block'', ''flag''} \<and>
        0 \<le> ppSuspiciousAt p \<and> 0 \<le> ppDangerousAt p \<and> 0 \<le> ppPool p) \<and>
     (\<forall>a \<in> set (AuthorizationServers u). validateHTTPURL up a = None)"

lemma validate_auth_None: "validate_auth up n as = None \<longleftrightarrow> (\<forall>a \<in> set as. validateHTTPURL up a = None)"
  by (induction as) (auto split: option.splits)

lemma validate_rate_None:
  "validate_rate n rl = None \<longleftrightarrow> (\<forall>r. rl = Some r \<longrightarrow> 0 < RequestsPerSecond r \<and> 1 \<le> Burst r)"
  by (cases rl) (auto simp: validate_rate_def)

lemma validate_lock_None:
  "validate_lock n lc = None \<longleftrightarrow>
     (\<forall>l. lc = Some l \<longrightarrow> \<not> blank (lcFile l) \<and> lcMode l \<in> {[], ''enforce'', ''warn''})"
  by (cases lc) (simp_all add: validate_lock_def)

lemma validate_promptproof_None:
  "validate_promptproof n pc = None \<longleftrightarrow>
     (\<forall>p. pc = Some p \<longrightarrow>
        ppThreshold p \<in> {[], ''suspicious'', ''dangerous''} \<and> ppAction p \<in> {[], ''block'', ''flag''} \<and>
        0 \<le> ppSuspiciousAt p \<and> 0 \<le> ppDangerousAt p \<and> 0 \<le> ppPool p)"
  by (cases pc) (simp_all add: validate_promptproof_def not_less)

lemma validate_upstream_None:
  "nameRE (Name u) \<Longrightarrow> validate_upstream up u = None \<longleftrightarrow> upstream_ok up u"
  unfolding upstream_ok_def validate_rate_None [of "Name u", symmetric] validate_lock_None [of "Name u", symmetric]
    validate_promptproof_None [of "Name u", symmetric] validate_auth_None [of up "Name u", symmetric]
  by (auto simp: validate_upstream_def Let_def list_ex_iff not_less split: option.splits)

lemma validate_upstreams_None:
  "validate_upstreams up i seen us = None \<longleftrightarrow>
     (\<forall>u \<in> set us. upstream_ok up u) \<and> distinct (map (ToLower \<circ> Name) us) \<and>
     (\<forall>u \<in> set us. ToLower (Name u) \<notin> set seen)"
proof (induction us arbitrary: i seen)
  case (Cons u us)
  have "upstream_ok up u \<Longrightarrow> nameRE (Name u)" by (simp add: upstream_ok_def)
  with Cons validate_upstream_None [of u up] show ?case
    by (auto simp: image_iff split: option.splits)
qed simp

lemma Validate_Inr:
  "Validate up c = Inr c' \<longleftrightarrow>
     c' = (if Listen c = [] then c\<lparr>Listen := DefaultListen\<rparr> else c) \<and>
     (PublicBaseURL c = [] \<or> validateHTTPURL up (PublicBaseURL c) = None) \<and> Upstreams c \<noteq> [] \<and>
     (\<forall>u \<in> set (Upstreams c). upstream_ok up u) \<and> distinct (map (ToLower \<circ> Name) (Upstreams c))"
proof -
  have eq: "Upstreams (if Listen c = [] then c\<lparr>Listen := DefaultListen\<rparr> else c) = Upstreams c"
    "PublicBaseURL (if Listen c = [] then c\<lparr>Listen := DefaultListen\<rparr> else c) = PublicBaseURL c" by simp_all
  have v: "validate_upstreams up 0 [] (Upstreams c) = None \<longleftrightarrow>
     (\<forall>u \<in> set (Upstreams c). upstream_ok up u) \<and> distinct (map (ToLower \<circ> Name) (Upstreams c))"
    using validate_upstreams_None [of up 0 "[]" "Upstreams c"] by simp
  show ?thesis
    unfolding Validate_def Let_def eq v [symmetric]
    by (cases "validateHTTPURL up (PublicBaseURL c)"; cases "validate_upstreams up 0 [] (Upstreams c)")
      (auto split: if_splits)
qed

lemma DefaultListen_ne [simp]: "DefaultListen \<noteq> []"
  by (simp add: DefaultListen_def)

text \<open>
  \<open>Validate\<close> accepts a configuration exactly when the base URL (if any) and every upstream
  pass all checks and the upstream names are distinct up to case; it changes nothing but an
  empty listen address.
\<close>

theorem Validate_accepts_exactly:
  "(\<exists>c'. Validate up c = Inr c') \<longleftrightarrow>
     (PublicBaseURL c = [] \<or> validateHTTPURL up (PublicBaseURL c) = None) \<and> Upstreams c \<noteq> [] \<and>
     list_all (upstream_ok up) (Upstreams c) \<and> distinct (map (ToLower \<circ> Name) (Upstreams c))"
  unfolding list_all_iff Validate_Inr by simp

text \<open>
  \<open>Validate\<close> is idempotent: what it accepts, with the default filled in, it accepts again
  unchanged (\<^verbatim>\<open>LoadConfig\<close> and \<^verbatim>\<open>New\<close> both call it).
\<close>

theorem Validate_idempotent:
  assumes "Validate up c = Inr c'"
  shows "Validate up c' = Inr c' \<and> Listen c' \<noteq> [] \<and> Upstreams c' = Upstreams c"
proof -
  from assms have c': "c' = (if Listen c = [] then c\<lparr>Listen := DefaultListen\<rparr> else c)"
    by (simp only: Validate_Inr)
  then have eq: "Upstreams c' = Upstreams c" "PublicBaseURL c' = PublicBaseURL c" "Listen c' \<noteq> []" by simp_all
  moreover have "Validate up c' = Inr c'"
    using assms eq(3) unfolding Validate_Inr eq(1,2) by simp
  ultimately show ?thesis by simp
qed

definition demo_url :: url_parser where
  "demo_url s = (if HasPrefix s ''http://'' then
     Some \<lparr>urlScheme = ''http'', urlHost = drop 7 s, urlPath = [], urlRawQuery = [], urlFragment = []\<rparr> else None)"

definition demo_config :: Config where
  "demo_config = \<lparr>Listen = [], PublicBaseURL = [], AuditPath = [],
     Upstreams = [zero_upstream\<lparr>Name := ''fs'', URL := ''http://h''\<rparr>]\<rparr>"

theorem Validate_idempotent_witness:
  "Validate demo_url (demo_config\<lparr>Listen := DefaultListen\<rparr>) = Inr (demo_config\<lparr>Listen := DefaultListen\<rparr>)"
proof -
  have "validateHTTPURL demo_url ''http://h'' = None \<and> nameRE ''fs''" by code_simp
  then have "Validate demo_url demo_config = Inr (demo_config\<lparr>Listen := DefaultListen\<rparr>)"
    by (simp add: Validate_Inr demo_config_def upstream_ok_def zero_upstream_def)
  from Validate_idempotent [OF this] show ?thesis by simp
qed

text \<open>
  \<^verbatim>\<open>--upstream name=url\<close> round trip: a flag built from a non-empty name without \<^verbatim>\<open>=\<close> and a
  non-empty URL parses back to exactly those, even when the URL contains \<^verbatim>\<open>=\<close>; every accepted
  flag has this form.
\<close>

theorem ParseUpstreamFlag_roundtrip:
  "ParseUpstreamFlag v = Some u \<longleftrightarrow>
     (\<exists>name url. v = name @ ''='' @ url \<and> CHR ''='' \<notin> set name \<and> name \<noteq> [] \<and> url \<noteq> [] \<and>
        u = zero_upstream\<lparr>Name := name, URL := url\<rparr>)"
  (is "?l \<longleftrightarrow> ?r")
proof -
  have tw: "takeWhile (\<lambda>c. c \<noteq> CHR ''='') (n @ CHR ''='' # r) = n"
    "dropWhile (\<lambda>c. c \<noteq> CHR ''='') (n @ CHR ''='' # r) = CHR ''='' # r"
    if "CHR ''='' \<notin> set n" for n r
    using that by (auto intro!: takeWhile_append_stop dropWhile_append_stop)
  have split: "v = takeWhile (\<lambda>c. c \<noteq> CHR ''='') v @ dropWhile (\<lambda>c. c \<noteq> CHR ''='') v" by simp
  have nin: "CHR ''='' \<notin> set (takeWhile (\<lambda>c. c \<noteq> CHR ''='') v)" by (auto dest: set_takeWhileD)
  show ?thesis
  proof
    assume ?l
    then show ?r using split nin
      by (cases "dropWhile (\<lambda>c. c \<noteq> CHR ''='') v")
        (auto simp: ParseUpstreamFlag_def Cut_def Let_def dropWhile_eq_Cons_conv split: if_splits)
  next
    assume ?r
    then show ?l by (auto simp: ParseUpstreamFlag_def Cut_def Let_def tw)
  qed
qed

end
