(* ===== verification/Go_Json.thy ===== *)
theory Go_Json
  imports Go_Bytes
begin

text \<open>
  What the gateway uses of Go's \<^verbatim>\<open>encoding/json\<close>.  A parse tree keeps the source text of
  every node, because \<^verbatim>\<open>json.RawMessage\<close> fields are byte-exact spans of the input.  The
  theory has the scanner (RFC 8259 grammar, nesting limit 10000), string unquoting with Go's
  replacement of invalid UTF-8 and unpaired surrogates, decoding into structs (keys matched
  case-insensitively, the last match wins, \<^verbatim>\<open>null\<close> leaves a field alone), decoding into
  slices, maps and strings, the encoder for strings, and the compaction \<^verbatim>\<open>json.Marshal\<close>
  applies to a \<^verbatim>\<open>RawMessage\<close>.  The locale \<open>item_parser\<close> states what a parser of one item
  promises; the facts on sequences are proved in it once and used for arrays and objects.
\<close>

subsection \<open>Lexical scanner\<close>

type_synonym 'a parser = "bytes \<Rightarrow> ('a \<times> bytes) option"

definition is_ws :: "char \<Rightarrow> bool" where
  "is_ws c \<longleftrightarrow> c = CHR '' '' \<or> c = TAB \<or> c = CR \<or> c = LF"

definition skip_ws :: "bytes \<Rightarrow> bytes" where
  "skip_ws s = dropWhile is_ws s"

definition is_digit :: "char \<Rightarrow> bool" where
  "is_digit c \<longleftrightarrow> 48 \<le> byte c \<and> byte c \<le> 57"

declare is_ws_def [byte_classes] is_digit_def [byte_classes]

definition hex_val :: "char \<Rightarrow> nat option" where
  "hex_val c =
     (if is_digit c then Some (byte c - 48)
      else if 97 \<le> byte c \<and> byte c \<le> 102 then Some (byte c - 87)
      else if 65 \<le> byte c \<and> byte c \<le> 70 then Some (byte c - 55)
      else None)"

definition is_hex :: "char \<Rightarrow> bool" where
  "is_hex c \<longleftrightarrow> hex_val c \<noteq> None"

definition simple_escape :: "char \<Rightarrow> bool" where
  "simple_escape c \<longleftrightarrow> c \<in> set [CHR ''b'', CHR ''f'', CHR ''n'', CHR ''r'', CHR ''t'', BSLASH, CHR ''/'', QUOTE]"

text \<open>The rest of a string literal after its opening quote, up to and including the closing one.\<close>

fun scan_str :: "bytes parser" where
  "scan_str [] = None"
| "scan_str (c # cs) =
     (if c = QUOTE then Some ([c], cs)
      else if c = BSLASH then
        (case cs of
           [] \<Rightarrow> None
         | e # cs' \<Rightarrow>
             if e = CHR ''u'' then
               (case cs' of
                  a # b # d # f # r \<Rightarrow>
                    if is_hex a \<and> is_hex b \<and> is_hex d \<and> is_hex f
                    then map_option (\<lambda>(t, r'). (c # e # a # b # d # f # t, r')) (scan_str r)
                    else None
                | _ \<Rightarrow> None)
             else if simple_escape e then map_option (\<lambda>(t, r'). (c # e # t, r')) (scan_str cs')
             else None)
      else if byte c < 0x20 then None
      else map_option (\<lambda>(t, r'). (c # t, r')) (scan_str cs))"

definition scan_int :: "bytes parser" where
  "scan_int s = (case s of
     [] \<Rightarrow> None
   | c # cs \<Rightarrow>
       if c = CHR ''0'' then Some ([c], cs)
       else if is_digit c then Some (c # takeWhile is_digit cs, dropWhile is_digit cs)
       else None)"

definition scan_frac :: "bytes parser" where
  "scan_frac s = (case s of
     [] \<Rightarrow> Some ([], [])
   | c # cs \<Rightarrow>
       if c = CHR ''.'' then
         (if takeWhile is_digit cs = [] then None
          else Some (c # takeWhile is_digit cs, dropWhile is_digit cs))
       else Some ([], s))"

definition exp_sign :: "bytes \<Rightarrow> bytes \<times> bytes" where
  "exp_sign s = (case s of
     [] \<Rightarrow> ([], [])
   | c # cs \<Rightarrow> if c = CHR ''+'' \<or> c = CHR ''-'' then ([c], cs) else ([], s))"

definition scan_exp :: "bytes parser" where
  "scan_exp s = (case s of
     [] \<Rightarrow> Some ([], [])
   | c # cs \<Rightarrow>
       if c = CHR ''e'' \<or> c = CHR ''E'' then
         (let (sg, r) = exp_sign cs in
          if takeWhile is_digit r = [] then None
          else Some (c # sg @ takeWhile is_digit r, dropWhile is_digit r))
       else Some ([], s))"

definition scan_num :: "bytes parser" where
  "scan_num s =
     (let (sg, s1) = (case s of c # cs \<Rightarrow> if c = CHR ''-'' then ([c], cs) else ([], s) | [] \<Rightarrow> ([], s)) in
      do { (i, s2) \<leftarrow> scan_int s1; (f, s3) \<leftarrow> scan_frac s2; (e, s4) \<leftarrow> scan_exp s3;
           Some (sg @ i @ f @ e, s4) })"

subsection \<open>Parse trees and the parser\<close>

text \<open>
  Strings, numbers and keys are kept as their literals, arrays and objects with their
  source text.  \<open>raw_of\<close> is the \<^verbatim>\<open>RawMessage\<close> of a node.
\<close>

datatype json =
    JNull
  | JBool bool
  | JNum bytes
  | JStr bytes
  | JArr bytes "json list"
  | JObj bytes "(bytes \<times> json) list"

fun raw_of :: "json \<Rightarrow> bytes" where
  "raw_of JNull = ''null''"
| "raw_of (JBool b) = (if b then ''true'' else ''false'')"
| "raw_of (JNum l) = l"
| "raw_of (JStr l) = l"
| "raw_of (JArr r _) = r"
| "raw_of (JObj r _) = r"

definition parse_scalar :: "json parser" where
  "parse_scalar s = (case s of
     [] \<Rightarrow> None
   | c # cs \<Rightarrow>
       if c = QUOTE then map_option (\<lambda>(t, r). (JStr (QUOTE # t), r)) (scan_str cs)
       else if c = CHR ''n'' then (if prefix ''null'' s then Some (JNull, drop 4 s) else None)
       else if c = CHR ''t'' then (if prefix ''true'' s then Some (JBool True, drop 4 s) else None)
       else if c = CHR ''f'' then (if prefix ''false'' s then Some (JBool False, drop 5 s) else None)
       else if c = CHR ''-'' \<or> is_digit c then map_option (\<lambda>(l, r). (JNum l, r)) (scan_num s)
       else None)"

text \<open>Comma-separated items up to a closing bracket; the length guard is always met.\<close>

function parse_seq :: "char \<Rightarrow> 'a parser \<Rightarrow> 'a list parser" where
  "parse_seq cl p s =
     (case p s of
        None \<Rightarrow> None
      | Some (v, r) \<Rightarrow>
          (case skip_ws r of
             [] \<Rightarrow> None
           | c # r' \<Rightarrow>
               if c = cl then Some ([v], r')
               else if c = CHR '','' \<and> length r' < length s then
                 map_option (\<lambda>(vs, t). (v # vs, t)) (parse_seq cl p (skip_ws r'))
               else None))"
  by pat_completeness auto
termination
  by (relation "measure (\<lambda>(cl, p, s). length s)")
    (auto simp: skip_ws_def intro: le_less_trans [OF dropWhile_length_le])

declare parse_seq.simps [simp del]

definition parse_pair :: "json parser \<Rightarrow> (bytes \<times> json) parser" where
  "parse_pair p s = (case s of
     [] \<Rightarrow> None
   | c # cs \<Rightarrow>
       if c = QUOTE then
         do { (k, r) \<leftarrow> scan_str cs;
              (case skip_ws r of
                 [] \<Rightarrow> None
               | c1 # r1 \<Rightarrow>
                   if c1 = CHR '':''
                   then map_option (\<lambda>(v, r2). ((QUOTE # k, v), r2)) (p (skip_ws r1))
                   else None) }
       else None)"

definition span :: "bytes \<Rightarrow> bytes \<Rightarrow> bytes" where
  "span s r = take (length s - length r) s"

text \<open>
  One JSON value, with the number of container levels still allowed; the scanner's limit is
  \<^verbatim>\<open>maxNestingDepth\<close>.
\<close>

definition parse_container :: "json parser \<Rightarrow> json parser" where
  "parse_container p s = (case s of
     [] \<Rightarrow> None
   | c # cs \<Rightarrow>
       if c = CHR ''['' then
         (if prefix '']'' (skip_ws cs) then Some (JArr (span s (tl (skip_ws cs))) [], tl (skip_ws cs))
          else map_option (\<lambda>(vs, r). (JArr (span s r) vs, r)) (parse_seq (CHR '']'') p (skip_ws cs)))
       else if c = CHR ''{'' then
         (if prefix ''}'' (skip_ws cs) then Some (JObj (span s (tl (skip_ws cs))) [], tl (skip_ws cs))
          else map_option (\<lambda>(ms, r). (JObj (span s r) ms, r))
                 (parse_seq (CHR ''}'') (parse_pair p) (skip_ws cs)))
       else None)"

definition is_open :: "bytes \<Rightarrow> bool" where
  "is_open s \<longleftrightarrow> prefix ''['' s \<or> prefix ''{'' s"

declare parse_scalar_def [parse_simps] parse_container_def [parse_simps] is_open_def [parse_simps]

primrec parse_value :: "nat \<Rightarrow> json parser" where
  "parse_value 0 = (\<lambda>s. if is_open s then None else parse_scalar s)"
| "parse_value (Suc d) =
     (\<lambda>s. if is_open s then parse_container (parse_value d) s else parse_scalar s)"

lemma parse_value_code [code]:
  "parse_value d s =
     (if is_open s then (if d = 0 then None else parse_container (parse_value (d - 1)) s)
      else parse_scalar s)"
  by (cases d) simp_all

definition maxNestingDepth :: nat where "maxNestingDepth = 10000"

text \<open>The validity check and parse that every \<^verbatim>\<open>json.Unmarshal\<close> starts with.\<close>

definition json_parse :: "bytes \<Rightarrow> json option" where
  "json_parse s = (case parse_value maxNestingDepth (skip_ws s) of
     None \<Rightarrow> None
   | Some (v, r) \<Rightarrow> if skip_ws r = [] then Some v else None)"

subsection \<open>String literals\<close>

definition getu4 :: "bytes \<Rightarrow> (nat \<times> bytes) option" where
  "getu4 s = (case s of
     a # b # d # f # r \<Rightarrow>
       (case (hex_val a, hex_val b, hex_val d, hex_val f) of
          (Some x, Some y, Some z, Some w) \<Rightarrow> Some (((x * 16 + y) * 16 + z) * 16 + w, r)
        | _ \<Rightarrow> None)
   | _ \<Rightarrow> None)"

lemma getu4_length: "getu4 s = Some (n, r) \<Longrightarrow> length r < length s"
  by (auto simp: getu4_def split: list.splits option.splits)

definition unescape :: "char \<Rightarrow> char" where
  "unescape e =
     (if e = CHR ''b'' then BS else if e = CHR ''f'' then FF else if e = CHR ''n'' then LF
      else if e = CHR ''r'' then CR else if e = CHR ''t'' then TAB else e)"

text \<open>The low half of a surrogate pair, when a second \<^verbatim>\<open>\u\<close> escape follows and completes one.\<close>

definition low_half :: "nat \<Rightarrow> bytes \<Rightarrow> (nat \<times> bytes) option" where
  "low_half hi s = (case s of
     b # u # r \<Rightarrow>
       if b = BSLASH \<and> u = CHR ''u'' then
         (case getu4 r of
            Some (lo, r') \<Rightarrow> if surrogate_pair hi lo then Some (utf16_decode hi lo, r') else None
          | None \<Rightarrow> None)
       else None
   | _ \<Rightarrow> None)"

lemma low_half_length: "low_half hi s = Some (n, r) \<Longrightarrow> length r < length s"
  by (auto simp: low_half_def dest: getu4_length split: list.splits if_splits option.splits)

text \<open>\<^verbatim>\<open>unquoteBytes\<close> on the text between the quotes.\<close>

function unq :: "bytes \<Rightarrow> bytes" where
  "unq [] = []"
| "unq (c # cs) =
     (if c = BSLASH then
        (case cs of
           [] \<Rightarrow> []
         | e # cs' \<Rightarrow>
             if e = CHR ''u'' then
               (case getu4 cs' of
                  None \<Rightarrow> []
                | Some (rr, r) \<Rightarrow>
                    if is_surrogate rr then
                      (case low_half rr r of
                         Some (dec, r') \<Rightarrow> EncodeRune dec @ unq r'
                       | None \<Rightarrow> EncodeRune RuneError @ unq r)
                    else EncodeRune rr @ unq r)
             else unescape e # unq cs')
      else if byte c < 0x80 then c # unq cs
      else (let (r, n) = DecodeRune (c # cs) in EncodeRune r @ unq (drop (n - 1) cs)))"
  by pat_completeness auto
termination
  by (relation "measure length") (auto dest!: getu4_length low_half_length)

declare unq.simps(2) [simp del]

definition unquote :: "bytes \<Rightarrow> bytes" where
  "unquote lit = unq (butlast (tl lit))"

subsection \<open>Decoding\<close>

text \<open>
  \<^verbatim>\<open>foldName\<close>: ASCII letters fold together, and the Kelvin sign and the long s fold to
  \<^verbatim>\<open>K\<close> and \<^verbatim>\<open>S\<close>, the only other code points that fold to ASCII.  On a key compared
  with an ASCII field name the remaining bytes can stay as they are.
\<close>

fun foldName :: "bytes \<Rightarrow> bytes" where
  "foldName [] = []"
| "foldName (c # cs) =
     (if prefix [CHR 0xE2, CHR 0x84, CHR 0xAA] (c # cs) then CHR ''K'' # foldName (drop 2 cs)
      else if prefix [CHR 0xC5, CHR 0xBF] (c # cs) then CHR ''S'' # foldName (drop 1 cs)
      else (if 97 \<le> byte c \<and> byte c \<le> 122 then char_of (byte c - 32) else c) # foldName cs)"

definition key_matches :: "bytes \<Rightarrow> bytes \<Rightarrow> bool" where
  "key_matches field key \<longleftrightarrow> foldName (unquote key) = foldName field"

text \<open>The members of an object that a struct field receives, in document order.\<close>

definition field_members :: "bytes \<Rightarrow> (bytes \<times> json) list \<Rightarrow> json list" where
  "field_members f ms = map snd (filter (\<lambda>(k, v). key_matches f k) ms)"

text \<open>A \<^verbatim>\<open>json.RawMessage\<close> field: the last match, empty when there is none.\<close>

definition field_raw :: "bytes \<Rightarrow> (bytes \<times> json) list \<Rightarrow> bytes" where
  "field_raw f ms = (case rev (field_members f ms) of [] \<Rightarrow> [] | v # _ \<Rightarrow> raw_of v)"

text \<open>
  A \<^verbatim>\<open>string\<close> field: \<^verbatim>\<open>null\<close> leaves it alone, another kind of value is an
  \<^verbatim>\<open>UnmarshalTypeError\<close>, here \<open>None\<close>.
\<close>

fun assign_strings :: "bytes \<Rightarrow> json list \<Rightarrow> bytes option" where
  "assign_strings cur [] = Some cur"
| "assign_strings cur (v # vs) =
     (case v of
        JStr l \<Rightarrow> assign_strings (unquote l) vs
      | JNull \<Rightarrow> assign_strings cur vs
      | _ \<Rightarrow> None)"

definition field_str :: "bytes \<Rightarrow> (bytes \<times> json) list \<Rightarrow> bytes option" where
  "field_str f ms = assign_strings [] (field_members f ms)"

text \<open>The members a value offers to a struct: \<^verbatim>\<open>null\<close> is the zero struct, other kinds are errors.\<close>

fun struct_members :: "json \<Rightarrow> (bytes \<times> json) list option" where
  "struct_members (JObj _ ms) = Some ms"
| "struct_members JNull = Some []"
| "struct_members _ = None"

definition unmarshal_struct :: "bytes \<Rightarrow> (bytes \<times> json) list option" where
  "unmarshal_struct s = Option.bind (json_parse s) struct_members"

text \<open>\<^verbatim>\<open>json.Unmarshal\<close> into a \<^verbatim>\<open>[]json.RawMessage\<close>: \<^verbatim>\<open>null\<close> is the nil slice.\<close>

fun slice_of :: "json \<Rightarrow> json list option" where
  "slice_of (JArr _ vs) = Some vs"
| "slice_of JNull = Some []"
| "slice_of _ = None"

definition unmarshal_raws :: "bytes \<Rightarrow> bytes list option" where
  "unmarshal_raws s = map_option (map raw_of) (Option.bind (json_parse s) slice_of)"

text \<open>\<^verbatim>\<open>json.Unmarshal\<close> into a \<^verbatim>\<open>string\<close>: \<^verbatim>\<open>null\<close> succeeds and leaves the empty string.\<close>

fun string_of :: "json \<Rightarrow> bytes option" where
  "string_of (JStr l) = Some (unquote l)"
| "string_of JNull = Some []"
| "string_of _ = None"

definition unmarshal_string :: "bytes \<Rightarrow> bytes option" where
  "unmarshal_string s = Option.bind (json_parse s) string_of"

text \<open>
  \<^verbatim>\<open>json.Unmarshal\<close> into a \<^verbatim>\<open>map[string]T\<close>.  A Go map is represented by its
  key-sorted association list, so that equal maps are equal lists; later members overwrite.
  \<^verbatim>\<open>null\<close> is the nil map, here \<open>Some None\<close>.
\<close>

fun map_set :: "bytes \<Rightarrow> 'a \<Rightarrow> (bytes \<times> 'a) list \<Rightarrow> (bytes \<times> 'a) list" where
  "map_set k v [] = [(k, v)]"
| "map_set k v ((k', v') # m) =
     (if k < k' then (k, v) # (k', v') # m
      else if k = k' then (k, v) # m
      else (k', v') # map_set k v m)"

definition build_map :: "(bytes \<times> 'a) list \<Rightarrow> (bytes \<times> 'a) list" where
  "build_map kvs = fold (\<lambda>(k, v). map_set k v) kvs []"

definition raw_map :: "(bytes \<times> json) list \<Rightarrow> (bytes \<times> bytes) list" where
  "raw_map ms = build_map (map (\<lambda>(k, v). (unquote k, raw_of v)) ms)"

fun map_of_json :: "json \<Rightarrow> (bytes \<times> bytes) list option option" where
  "map_of_json (JObj _ ms) = Some (Some (raw_map ms))"
| "map_of_json JNull = Some None"
| "map_of_json _ = None"

definition unmarshal_map :: "bytes \<Rightarrow> (bytes \<times> bytes) list option option" where
  "unmarshal_map s = Option.bind (json_parse s) map_of_json"

subsection \<open>Encoding\<close>

definition hex_digit :: "nat \<Rightarrow> char" where
  "hex_digit n = (if n < 10 then char_of (48 + n) else char_of (87 + n))"

definition hex4 :: "nat \<Rightarrow> bytes" where
  "hex4 n = [hex_digit (n div 4096 mod 16), hex_digit (n div 256 mod 16),
             hex_digit (n div 16 mod 16), hex_digit (n mod 16)]"

definition u_escape :: "nat \<Rightarrow> bytes" where
  "u_escape n = BSLASH # CHR ''u'' # hex4 n"

definition html_special :: "char \<Rightarrow> bool" where
  "html_special c \<longleftrightarrow> c = CHR ''<'' \<or> c = CHR ''>'' \<or> c = CHR ''&''"

text \<open>\<^verbatim>\<open>appendString\<close> with HTML escaping, as \<^verbatim>\<open>json.Marshal\<close> calls it.\<close>

definition encode_ascii :: "char \<Rightarrow> bytes" where
  "encode_ascii c =
     (if c = QUOTE \<or> c = BSLASH then [BSLASH, c]
      else if c = BS then [BSLASH, CHR ''b'']
      else if c = FF then [BSLASH, CHR ''f'']
      else if c = LF then [BSLASH, CHR ''n'']
      else if c = CR then [BSLASH, CHR ''r'']
      else if c = TAB then [BSLASH, CHR ''t'']
      else if byte c < 0x20 \<or> html_special c then u_escape (byte c)
      else [c])"

fun encode_body :: "bytes \<Rightarrow> bytes" where
  "encode_body [] = []"
| "encode_body (c # cs) =
     (if byte c < 0x80 then encode_ascii c @ encode_body cs
      else (let (r, n) = DecodeRune (c # cs) in
            (if r = RuneError \<and> n = 1 then u_escape RuneError
             else if r = 0x2028 \<or> r = 0x2029 then u_escape r
             else take n (c # cs)) @ encode_body (drop (n - 1) cs)))"

declare encode_body.simps(2) [simp del]

definition marshal_string :: "bytes \<Rightarrow> bytes" where
  "marshal_string s = QUOTE # encode_body s @ [QUOTE]"

text \<open>
  \<^verbatim>\<open>appendCompact\<close> with HTML escaping: insignificant whitespace goes, and inside strings
  \<^verbatim>\<open>< > &\<close>, U+2028 and U+2029 are escaped.
\<close>

fun html_escape :: "bytes \<Rightarrow> bytes" where
  "html_escape [] = []"
| "html_escape (c # cs) =
     (if html_special c then u_escape (byte c) @ html_escape cs
      else if prefix [CHR 0xE2, CHR 0x80, CHR 0xA8] (c # cs) then u_escape 0x2028 @ html_escape (drop 2 cs)
      else if prefix [CHR 0xE2, CHR 0x80, CHR 0xA9] (c # cs) then u_escape 0x2029 @ html_escape (drop 2 cs)
      else c # html_escape cs)"

fun compact :: "json \<Rightarrow> bytes" where
  "compact (JStr l) = html_escape l"
| "compact (JArr _ vs) = ''['' @ join '','' (map compact vs) @ '']''"
| "compact (JObj _ ms) = ''{'' @ join '','' (map (\<lambda>(k, v). html_escape k @ '':'' @ compact v) ms) @ ''}''"
| "compact v = raw_of v"

text \<open>
  \<^verbatim>\<open>json.Marshal\<close> of a \<^verbatim>\<open>RawMessage\<close>, of a \<^verbatim>\<open>[]json.RawMessage\<close> and of a
  \<^verbatim>\<open>map[string]json.RawMessage\<close>: an element that is not JSON is an error, here \<open>None\<close>.
\<close>

definition compact_raw :: "bytes \<Rightarrow> bytes option" where
  "compact_raw r = (if r = [] then Some ''null'' else map_option compact (json_parse r))"

definition marshal_raws :: "bytes list \<Rightarrow> bytes option" where
  "marshal_raws rs =
     map_option (\<lambda>cs. ''['' @ join '','' cs @ '']'') (those (map compact_raw rs))"

definition marshal_raw_map :: "(bytes \<times> bytes) list \<Rightarrow> bytes option" where
  "marshal_raw_map m =
     map_option (\<lambda>cs. ''{'' @ join '','' cs @ ''}'')
       (those (map (\<lambda>(k, r). map_option (\<lambda>c. marshal_string k @ '':'' @ c) (compact_raw r)) m))"

subsection \<open>What a parser of one item promises\<close>

lemma list_case_someE:
  assumes "(case xs of [] \<Rightarrow> None | x # r \<Rightarrow> f x r) = Some y"
  obtains x r where "xs = x # r" "f x r = Some y"
  using assms by (cases xs) auto

lemma span_append [simp]: "span (x @ r) r = x"
  by (simp add: span_def)

text \<open>
  \<open>numstop r\<close>: the text that follows cannot extend a number.  \<open>accepts p x v\<close>: the parser
  reads \<open>x\<close> as \<open>v\<close> whatever follows, as long as it cannot extend a number.
\<close>

definition num_char :: "char \<Rightarrow> bool" where
  "num_char c \<longleftrightarrow> c \<in> set ''0123456789.eE+-''"

declare num_char_def [byte_classes]

definition numstop :: "bytes \<Rightarrow> bool" where
  "numstop r \<longleftrightarrow> r = [] \<or> \<not> num_char (hd r)"

definition accepts :: "'a parser \<Rightarrow> bytes \<Rightarrow> 'a \<Rightarrow> bool" where
  "accepts p x v \<longleftrightarrow> x \<noteq> [] \<and> \<not> is_ws (hd x) \<and> (\<forall>r. numstop r \<longrightarrow> p (x @ r) = Some (v, r))"

lemma acceptsD: "accepts p x v \<Longrightarrow> numstop r \<Longrightarrow> p (x @ r) = Some (v, r)"
  by (simp add: accepts_def)

lemma numstop_simps [simp]: "numstop []" "numstop (c # r) \<longleftrightarrow> \<not> num_char c"
  by (auto simp: numstop_def)

lemma ws_not_num: "is_ws c \<Longrightarrow> \<not> num_char c"
  by (auto simp: byte_classes)

lemma num_char_delims [simp]:
  "\<not> num_char CHR '','' " "\<not> num_char CHR '']''" "\<not> num_char CHR ''}''" "\<not> num_char CHR '':''"
  "\<not> num_char QUOTE"
  by (simp_all add: num_char_def)

lemma ws_delims [simp]:
  "\<not> is_ws CHR '','' " "\<not> is_ws CHR '']''" "\<not> is_ws CHR ''}''" "\<not> is_ws CHR '':''"
  "\<not> is_ws CHR ''[''" "\<not> is_ws CHR ''{''" "\<not> is_ws QUOTE"
  by (simp_all add: is_ws_def)

lemma skip_ws_split: "\<exists>w. s = w @ skip_ws s \<and> (\<forall>x \<in> set w. is_ws x)"
  unfolding skip_ws_def by (metis set_takeWhileD takeWhile_dropWhile_id)

lemma skip_ws_append: "skip_ws s = c # r \<Longrightarrow> \<exists>w. s = w @ c # r \<and> (\<forall>x \<in> set w. is_ws x) \<and> \<not> is_ws c"
  using skip_ws_split [of s] unfolding skip_ws_def by (metis dropWhile_eq_Cons_conv)

lemma skip_ws_gap: "\<forall>x \<in> set w. is_ws x \<Longrightarrow> y \<noteq> [] \<Longrightarrow> \<not> is_ws (hd y) \<Longrightarrow> skip_ws (w @ y) = y"
  by (cases y) (simp_all add: skip_ws_def dropWhile_append2)

lemma skip_ws_id: "s = [] \<or> \<not> is_ws (hd s) \<Longrightarrow> skip_ws s = s"
  by (cases s) (simp_all add: skip_ws_def)

lemma skip_ws_length: "length (skip_ws s) \<le> length s"
  by (simp add: skip_ws_def)

lemma numstop_gap: "\<forall>x \<in> set w. is_ws x \<Longrightarrow> \<not> num_char c \<Longrightarrow> numstop (w @ c # r)"
  by (cases w) (auto simp: ws_not_num)

text \<open>
  The contract: whatever the parser reads, it consumes a non-empty prefix that it would read
  the same way in any other context.
\<close>

locale item_parser =
  fixes p :: "'a parser"
  assumes item: "p s = Some (v, r) \<Longrightarrow> \<exists>x. s = x @ r \<and> accepts p x v"
begin

lemma item_shorter: "p s = Some (v, r) \<Longrightarrow> length r < length s"
  using item by (fastforce simp: accepts_def)

lemma seq_unfold:
  assumes "accepts p x v" "\<forall>c \<in> set w. is_ws c" "\<not> is_ws c" "\<not> num_char c"
  shows "parse_seq cl p (x @ w @ c # r) =
    (if c = cl then Some ([v], r)
     else if c = CHR '','' then map_option (\<lambda>(vs, t). (v # vs, t)) (parse_seq cl p (skip_ws r))
     else None)"
  using assms acceptsD [OF assms(1) numstop_gap [OF assms(2,4)]]
  by (subst parse_seq.simps) (simp add: skip_ws_gap accepts_def)

text \<open>A sequence that was read is read the same way in any other context.\<close>

lemma seq_consume:
  assumes "parse_seq cl p s = Some (vs, r)" "cl \<in> {CHR '']'', CHR ''}''}"
  shows "\<exists>x. s = x @ r \<and> x \<noteq> [] \<and> \<not> is_ws (hd x) \<and> (\<forall>r'. parse_seq cl p (x @ r') = Some (vs, r'))
    \<and> (\<forall>v \<in> set vs. \<exists>y. accepts p y v)"
  using assms
proof (induction "length s" arbitrary: s vs rule: less_induct)
  case less
  from less.prems obtain v r1 c r2 where p: "p s = Some (v, r1)" and ws: "skip_ws r1 = c # r2"
    by (subst (asm) parse_seq.simps) (auto split: option.splits list.splits)
  from item [OF p] obtain x where x: "s = x @ r1" "accepts p x v" by blast
  from skip_ws_append [OF ws] obtain w where w: "r1 = w @ c # r2" "\<forall>a \<in> set w. is_ws a" "\<not> is_ws c"
    by blast
  have hd: "x \<noteq> []" "\<not> is_ws (hd x)" using x(2) by (simp_all add: accepts_def)
  have cl: "\<not> num_char cl" "\<not> is_ws cl" using less.prems(2) by auto
  show ?case
  proof (cases "c = cl")
    case True
    with less.prems(1) p ws have "vs = [v]" "r = r2"
      by (subst (asm) parse_seq.simps; simp)+
    with True x w cl hd show ?thesis
      by (intro exI [of _ "x @ w @ [c]"]) (auto simp: seq_unfold)
  next
    case False
    with less.prems(1) p ws have comma: "c = CHR '',''" and "length r2 < length s"
      by (subst (asm) parse_seq.simps; simp split: if_splits)+
    with False less.prems(1) p ws obtain vs' where
      vs: "vs = v # vs'" and rec: "parse_seq cl p (skip_ws r2) = Some (vs', r)"
      by (subst (asm) parse_seq.simps) auto
    have "length (skip_ws r2) < length s"
      using skip_ws_length [of r2] \<open>length r2 < length s\<close> by linarith
    from less.hyps [OF this rec less.prems(2)] obtain y where
      y: "skip_ws r2 = y @ r" "y \<noteq> []" "\<not> is_ws (hd y)"
        "\<forall>r'. parse_seq cl p (y @ r') = Some (vs', r')" "\<forall>v \<in> set vs'. \<exists>y. accepts p y v"
      by blast
    from skip_ws_split [of r2] y(1) obtain w2 where
      w2: "r2 = w2 @ y @ r" "\<forall>a \<in> set w2. is_ws a" by auto
    have "parse_seq cl p (x @ w @ CHR '','' # w2 @ y @ r') = Some (vs, r')" for r'
      using False comma x(2) w y w2 vs by (simp add: seq_unfold skip_ws_gap)
    with x w w2 y vs comma hd show ?thesis
      by (intro exI [of _ "x @ w @ CHR '','' # w2 @ y"]) auto
  qed
qed

text \<open>
  Accepted items, joined by commas and closed, are read as the sequence of their values; white space
  may follow the commas and precede the closing bracket.
\<close>

lemma seq_build:
  assumes "list_all2 (accepts p) xs vs" "xs \<noteq> []" "cl \<in> {CHR '']'', CHR ''}''}" "\<forall>c \<in> set w. is_ws c" "\<forall>c \<in> set w'. is_ws c"
  shows "parse_seq cl p (join (CHR '','' # w) xs @ w' @ cl # r) = Some (vs, r)"
  using assms
proof (induction xs vs rule: list_all2_induct)
  case Nil
  then show ?case by simp
next
  case (Cons x xs v vs)
  show ?case
  proof (cases xs)
    case Nil
    with Cons show ?thesis
      using seq_unfold [OF Cons.hyps(1), of w' cl cl r] by auto
  next
    case (Cons y ys)
    let ?j = "join (CHR '','' # w) xs"
    obtain v' vs' where "accepts p y v'" "vs = v' # vs'"
      using \<open>list_all2 (accepts p) xs vs\<close> Cons by (auto simp: list_all2_Cons1)
    then have ne: "?j \<noteq> []" "\<not> is_ws (hd ?j)"
      using Cons by (cases ys; simp add: accepts_def)+
    have g: "skip_ws (w @ ?j @ w' @ cl # r) = ?j @ w' @ cl # r"
      using ne Cons.prems(3) by (intro skip_ws_gap) auto
    have "parse_seq cl p (x @ CHR '','' # w @ ?j @ w' @ cl # r) = Some (v # vs, r)"
      using seq_unfold [OF Cons.hyps(1), of "[]" "CHR '',''" cl "w @ ?j @ w' @ cl # r"] Cons.IH Cons.prems
        Cons.hyps g Cons by auto
    then show ?thesis using Cons by (simp add: join_Cons)
  qed
qed

end

subsection \<open>The lexical scanner keeps the contract\<close>

text \<open>The three ways a string literal goes on before its closing quote.\<close>

lemma scan_str_cases:
  assumes "scan_str (c # cs) = Some (t, r)" "c \<noteq> QUOTE"
  obtains x q t' where "c # cs = x @ q" "x \<noteq> []" "t = x @ t'" "scan_str q = Some (t', r)"
    "\<And>q'. scan_str (x @ q') = map_option (\<lambda>(t, r). (x @ t, r)) (scan_str q')"
proof (cases "c = BSLASH")
  case False
  with assms obtain t' where "scan_str cs = Some (t', r)" "t = c # t'" "\<not> byte c < 0x20"
    by (auto split: if_splits)
  with assms False that [of "[c]" cs t'] show ?thesis by simp
next
  case True
  with assms obtain e cs' where cs: "cs = e # cs'" by (auto split: list.splits)
  show ?thesis
  proof (cases "e = CHR ''u''")
    case False
    with assms True cs obtain t' where "scan_str cs' = Some (t', r)" "t = c # e # t'" "simple_escape e"
      by (auto split: if_splits)
    with assms True False cs that [of "[c, e]" cs' t'] show ?thesis by simp
  next
    case u: True
    with assms True cs obtain a b d f q where "cs' = a # b # d # f # q"
      "is_hex a \<and> is_hex b \<and> is_hex d \<and> is_hex f"
      by (simp split: list.splits if_splits)
    with assms True cs u that [of "[c, e, a, b, d, f]" q] show ?thesis by auto
  qed
qed

lemma scan_str_consume:
  "scan_str s = Some (t, r) \<Longrightarrow>
     s = t @ r \<and> t \<noteq> [] \<and> last t = QUOTE \<and> (\<forall>r'. scan_str (t @ r') = Some (t, r'))"
proof (induction "length s" arbitrary: s t rule: less_induct)
  case less
  then obtain c cs where s: "s = c # cs" by (cases s) auto
  show ?case
  proof (cases "c = QUOTE")
    case True
    with less.prems s show ?thesis by auto
  next
    case False
    from scan_str_cases [OF less.prems [unfolded s] False] obtain x q t' where
      x: "c # cs = x @ q" "x \<noteq> []" "t = x @ t'" "scan_str q = Some (t', r)"
        "\<And>q'. scan_str (x @ q') = map_option (\<lambda>(t, r). (x @ t, r)) (scan_str q')" by metis
    then have "length q < length s" by (metis add_less_same_cancel2 length_append length_greater_0_conv s less_add_same_cancel2)
    from less.hyps [OF this x(4)] x s show ?thesis by simp
  qed
qed

lemma is_digit_num: "is_digit c \<Longrightarrow> num_char c"
proof -
  assume "is_digit c"
  then have "byte c \<in> set [48..<58]" unfolding is_digit_def set_upt by simp
  then have "c \<in> set (map char_of [48..<58::nat])" by (metis char_of_char image_eqI set_map)
  moreover have "map char_of [48..<58::nat] = ''0123456789''" by code_simp
  ultimately show ?thesis by (auto simp: num_char_def)
qed

definition digit_stop :: "bytes \<Rightarrow> bool" where
  "digit_stop r \<longleftrightarrow> r = [] \<or> \<not> is_digit (hd r)"

lemma digit_stop_simps [simp]: "digit_stop []" "digit_stop (c # r) \<longleftrightarrow> \<not> is_digit c"
  by (simp_all add: digit_stop_def)

lemma numstop_digit_stop: "numstop r \<Longrightarrow> digit_stop r"
  by (cases r) (auto simp: is_digit_num)

lemma takeWhile_digits: "\<forall>x \<in> set (takeWhile is_digit cs). is_digit x"
  by (blast dest: set_takeWhileD)

lemma digits_rescan:
  "digit_stop r \<Longrightarrow> takeWhile is_digit (takeWhile is_digit cs @ r) = takeWhile is_digit cs"
  "digit_stop r \<Longrightarrow> dropWhile is_digit (takeWhile is_digit cs @ r) = r"
  using takeWhile_append_stop [OF takeWhile_digits] dropWhile_append_stop [OF takeWhile_digits]
  by (simp_all only: digit_stop_def)

lemma scan_int_consume:
  assumes "scan_int s = Some (i, r)"
  shows "s = i @ r \<and> i \<noteq> [] \<and> is_digit (hd i) \<and> (\<forall>r'. digit_stop r' \<longrightarrow> scan_int (i @ r') = Some (i, r'))"
proof (cases s)
  case Nil
  with assms show ?thesis by (simp add: scan_int_def)
next
  case (Cons c cs)
  have "is_digit CHR ''0''" by (simp add: is_digit_def)
  with assms Cons show ?thesis
    by (auto simp: scan_int_def digits_rescan split: if_splits)
qed

lemma scan_frac_consume:
  assumes "scan_frac s = Some (f, r)"
  shows "s = f @ r \<and> (f \<noteq> [] \<longrightarrow> hd f = CHR ''.'') \<and>
    (\<forall>r'. digit_stop r' \<and> (f = [] \<longrightarrow> r' = [] \<or> hd r' \<noteq> CHR ''.'') \<longrightarrow> scan_frac (f @ r') = Some (f, r'))"
proof (cases s)
  case Nil
  with assms show ?thesis by (auto simp: scan_frac_def split: list.splits)
next
  case (Cons c cs)
  with assms show ?thesis
    by (auto simp: scan_frac_def digits_rescan simp del: takeWhile_eq_Nil_iff
        dest: set_takeWhileD split: if_splits list.splits)
qed

lemma exp_sign_append: "exp_sign cs = (sg, r) \<Longrightarrow> cs = sg @ r \<and> (r' = [] \<or> sg \<noteq> [] \<or> hd r' \<notin> set ''+-'' \<longrightarrow> exp_sign (sg @ r') = (sg, r'))"
  by (cases cs; cases r') (auto simp: exp_sign_def split: if_splits)

lemma scan_exp_consume:
  assumes "scan_exp s = Some (e, r)"
  shows "s = e @ r \<and> (e \<noteq> [] \<longrightarrow> hd e \<in> set ''eE'') \<and>
    (\<forall>r'. numstop r' \<longrightarrow> scan_exp (e @ r') = Some (e, r'))"
proof (cases s)
  case Nil
  with assms show ?thesis by (auto simp: scan_exp_def num_char_def split: list.splits)
next
  case (Cons c cs)
  show ?thesis
  proof (cases "c = CHR ''e'' \<or> c = CHR ''E''")
    case False
    with assms Cons show ?thesis by (auto simp: scan_exp_def num_char_def split: list.splits)
  next
    case True
    obtain sg q where sg: "exp_sign cs = (sg, q)" by fastforce
    define ds where "ds = takeWhile is_digit q"
    have e: "e = c # sg @ ds" "r = dropWhile is_digit q" "ds \<noteq> []"
      using assms Cons True sg by (auto simp: scan_exp_def ds_def split: if_splits)
    have "is_digit (hd ds)" using e(3) unfolding ds_def by (metis hd_in_set set_takeWhileD)
    then have "hd ds \<notin> set ''+-''" by (auto simp: is_digit_def)
    then have "exp_sign (sg @ ds @ r') = (sg, ds @ r')" for r'
      using exp_sign_append [OF sg, of "ds @ r'"] e(3) by simp
    moreover have "q = ds @ r" by (simp add: ds_def e(2))
    moreover have "takeWhile is_digit (ds @ r') = ds \<and> dropWhile is_digit (ds @ r') = r'"
      if "numstop r'" for r'
      using digits_rescan [OF numstop_digit_stop [OF that], of q] by (simp add: ds_def)
    ultimately show ?thesis
      using Cons True e exp_sign_append [OF sg] by (auto simp: scan_exp_def)
  qed
qed

lemma scan_num_consume:
  assumes "scan_num s = Some (l, r)"
  shows "s = l @ r \<and> l \<noteq> [] \<and> (hd l = CHR ''-'' \<or> is_digit (hd l)) \<and>
    (\<forall>r'. numstop r' \<longrightarrow> scan_num (l @ r') = Some (l, r'))"
proof -
  define sg where "sg = (if s \<noteq> [] \<and> hd s = CHR ''-'' then ''-'' else [])"
  define s1 where "s1 = (if s \<noteq> [] \<and> hd s = CHR ''-'' then tl s else s)"
  have s: "s = sg @ s1" by (cases s) (auto simp: sg_def s1_def)
  from assms obtain i s2 f s3 e where
    i: "scan_int s1 = Some (i, s2)" and f: "scan_frac s2 = Some (f, s3)" and
    e: "scan_exp s3 = Some (e, r)" and l: "l = sg @ i @ f @ e"
    by (cases s) (auto simp: scan_num_def sg_def s1_def split: if_splits)
  note ci = scan_int_consume [OF i] and cf = scan_frac_consume [OF f] and ce = scan_exp_consume [OF e]
  have "\<not> is_digit CHR ''.''" "\<not> is_digit CHR ''e''" "\<not> is_digit CHR ''E''" "\<not> is_digit CHR ''-''"
    by (simp_all add: is_digit_def)
  note nd = this
  show ?thesis
  proof (intro conjI allI impI)
    show "s = l @ r" using s ci cf ce l by simp
    show "l \<noteq> []" using ci l by simp
    show "hd l = CHR ''-'' \<or> is_digit (hd l)" using ci l by (simp add: sg_def)
    fix r' assume r': "numstop r'"
    have 1: "scan_exp (e @ r') = Some (e, r')" using ce r' by blast
    have stop: "digit_stop (e @ r')"
      using ce nd numstop_digit_stop [OF r'] by (cases e) auto
    have "e @ r' = [] \<or> hd (e @ r') \<noteq> CHR ''.''"
      using ce r' by (cases e; cases r') (auto simp: num_char_def)
    then have 2: "scan_frac (f @ e @ r') = Some (f, e @ r')" using cf stop by blast
    have "digit_stop (f @ e @ r')" using cf nd stop by (cases f) auto
    then have 3: "scan_int (i @ f @ e @ r') = Some (i, f @ e @ r')" using ci by blast
    have "hd i \<noteq> CHR ''-''" using ci nd by metis
    then show "scan_num (l @ r') = Some (l, r')"
      using 1 2 3 ci l by (cases i) (auto simp: scan_num_def sg_def)
  qed
qed

subsection \<open>Values and members keep the contract\<close>

text \<open>A parser of whole values: what it consumes is the node's own text.\<close>

locale value_parser =
  fixes p :: "json parser"
  assumes val: "p s = Some (v, r) \<Longrightarrow> s = raw_of v @ r \<and> accepts p (raw_of v) v"

sublocale value_parser \<subseteq> item_parser p
  by unfold_locales (use val in blast)

context value_parser
begin

lemma val_accepts: "accepts p x v \<Longrightarrow> x = raw_of v"
  using acceptsD [of p x v "[]"] val [of x v "[]"] by simp

lemma pair_item:
  assumes "parse_pair p s = Some (kv, r)"
  shows "\<exists>x. s = x @ r \<and> accepts (parse_pair p) x kv"
proof -
  from assms obtain cs k r0 c1 r1 v where
    s: "s = QUOTE # cs" and k: "scan_str cs = Some (k, r0)" and c1: "skip_ws r0 = CHR '':'' # r1" and
    v: "p (skip_ws r1) = Some (v, r)" and kv: "kv = (QUOTE # k, v)"
    by (cases s) (auto simp: parse_pair_def split: if_splits elim!: list_case_someE)
  note ks = scan_str_consume [OF k]
  from skip_ws_append [OF c1] obtain w where w: "r0 = w @ CHR '':'' # r1" "\<forall>x \<in> set w. is_ws x" by blast
  from val [OF v] have x: "skip_ws r1 = raw_of v @ r" "accepts p (raw_of v) v" by auto
  then have ne: "raw_of v \<noteq> []" "\<not> is_ws (hd (raw_of v))" by (simp_all add: accepts_def)
  from skip_ws_split [of r1] x(1) obtain w2 where w2: "r1 = w2 @ raw_of v @ r" "\<forall>x \<in> set w2. is_ws x" by auto
  have "parse_pair p (QUOTE # k @ w @ CHR '':'' # w2 @ raw_of v @ r') = Some (kv, r')" if "numstop r'" for r'
    using ks w(2) w2(2) ne acceptsD [OF x(2) that] kv by (simp add: parse_pair_def skip_ws_gap)
  with s ks w w2 show ?thesis
    by (intro exI [of _ "QUOTE # k @ w @ CHR '':'' # w2 @ raw_of v"]) (simp add: accepts_def)
qed

end

sublocale value_parser \<subseteq> pair: item_parser "parse_pair p"
  by unfold_locales (rule pair_item)

context value_parser
begin

text \<open>Both kinds of container are an opening bracket, a gap, and items up to the closing bracket.\<close>

lemma bracket_val:
  assumes q: "item_parser q" and cl: "cl \<in> {CHR '']'', CHR ''}''}" and op: "op \<in> {CHR ''['', CHR ''{''}"
    and s: "(if prefix [cl] (skip_ws cs) then Some (K (span (op # cs) (tl (skip_ws cs))) [], tl (skip_ws cs))
      else map_option (\<lambda>(vs, r). (K (span (op # cs) r) vs, r)) (parse_seq cl q (skip_ws cs))) = Some (v, r)"
  shows "\<exists>y vs. op # cs = op # y @ r \<and> v = K (op # y) vs \<and>
    (\<forall>r'. (if prefix [cl] (skip_ws (y @ r')) then Some (K (span (op # y @ r') (tl (skip_ws (y @ r')))) [], tl (skip_ws (y @ r')))
      else map_option (\<lambda>(vs, r). (K (span (op # y @ r') r) vs, r)) (parse_seq cl q (skip_ws (y @ r')))) = Some (v, r'))"
proof -
  from skip_ws_split [of cs] obtain w where w: "cs = w @ skip_ws cs" "\<forall>x \<in> set w. is_ws x" by blast
  have cl': "\<not> is_ws cl" using cl by auto
  have sp: "span (op # y @ r') r' = op # y" for y r'
    using span_append [of "op # y" r'] by simp
  show ?thesis
  proof (cases "prefix [cl] (skip_ws cs)")
    case True
    then obtain t where t: "skip_ws cs = cl # t" by (auto simp: prefix_def)
    with s True have "r = t" "v = K (span (op # cs) t) []" by auto
    moreover have "op # cs = op # (w @ [cl]) @ t" using w t by simp
    moreover have "skip_ws ((w @ [cl]) @ r') = cl # r'" for r'
      using skip_ws_gap [OF w(2), of "cl # r'"] cl' by simp
    ultimately show ?thesis
      using sp [of "w @ [cl]"] by (intro exI [of _ "w @ [cl]"] exI [of _ "[]"]) simp
  next
    case False
    with s obtain vs where vs: "parse_seq cl q (skip_ws cs) = Some (vs, r)" "v = K (span (op # cs) r) vs"
      by auto
    from item_parser.seq_consume [OF q vs(1) cl] obtain x where
      x: "skip_ws cs = x @ r" "x \<noteq> []" "\<not> is_ws (hd x)" "\<forall>r'. parse_seq cl q (x @ r') = Some (vs, r')" by blast
    have "\<not> prefix [cl] (x @ r')" for r' using False x(1,2) by (cases x) auto
    moreover have "skip_ws ((w @ x) @ r') = x @ r'" for r'
      using skip_ws_gap [OF w(2), of "x @ r'"] x by simp
    moreover have "op # cs = op # (w @ x) @ r" using w x(1) by simp
    ultimately show ?thesis
      using sp [of "w @ x"] vs x(4) by (intro exI [of _ "w @ x"] exI [of _ vs]) simp
  qed
qed

lemma container_val:
  assumes "parse_container p s = Some (v, r)"
  shows "s = raw_of v @ r \<and> is_open (raw_of v) \<and> (\<forall>r'. parse_container p (raw_of v @ r') = Some (v, r'))"
proof -
  from assms obtain c cs where s: "s = c # cs" by (cases s) (auto simp: parse_container_def)
  consider "c = CHR ''[''" | "c = CHR ''{''"
    using assms s by (auto simp: parse_container_def split: if_splits)
  then show ?thesis
  proof cases
    case 1
    from bracket_val [OF item_parser_axioms, of "CHR '']''" c cs JArr v r] 1 assms s show ?thesis
      by (fastforce simp: parse_simps)
  next
    case 2
    from bracket_val [OF pair.item_parser_axioms, of "CHR ''}''" c cs JObj v r] 2 assms s show ?thesis
      by (fastforce simp: parse_simps)
  qed
qed

end

lemma open_chars: "is_open s \<longleftrightarrow> s \<noteq> [] \<and> hd s \<in> set ''[{''"
  by (cases s) (auto simp: is_open_def)

lemma scalar_val:
  assumes "parse_scalar s = Some (v, r)"
  shows "s = raw_of v @ r \<and> accepts parse_scalar (raw_of v) v \<and> \<not> is_open (raw_of v)"
proof -
  from assms obtain c cs where s: "s = c # cs" by (cases s) (auto simp: parse_scalar_def)
  have lit: ?thesis if "prefix l s" "drop (length l) s = r" "raw_of v = l"
    "\<And>r'. parse_scalar (l @ r') = Some (v, r')" "l \<noteq> []" "\<not> is_ws (hd l)" "hd l \<notin> set ''[{''" for l
    using that by (auto simp: prefix_def accepts_def open_chars)
  consider "c = QUOTE" | "c = CHR ''n''" | "c = CHR ''t''" | "c = CHR ''f''" | "c = CHR ''-'' \<or> is_digit c"
    using assms s by (auto simp: parse_scalar_def split: if_splits)
  then show ?thesis
  proof cases
    case 1
    with assms s obtain t where t: "scan_str cs = Some (t, r)" "v = JStr (QUOTE # t)"
      by (auto simp: parse_scalar_def)
    from scan_str_consume [OF t(1)] 1 s t(2) show ?thesis
      by (auto simp: accepts_def parse_scalar_def open_chars)
  next
    case 2
    with assms s show ?thesis
      by (intro lit [of "''null''"]) (auto simp: parse_scalar_def is_ws_def eval_nat_numeral split: if_splits)
  next
    case 3
    with assms s show ?thesis
      by (intro lit [of "''true''"]) (auto simp: parse_scalar_def is_ws_def eval_nat_numeral split: if_splits)
  next
    case 4
    with assms s show ?thesis
      by (intro lit [of "''false''"]) (auto simp: parse_scalar_def is_ws_def eval_nat_numeral split: if_splits)
  next
    case 5
    then have nc: "c \<notin> set [QUOTE, CHR ''n'', CHR ''t'', CHR ''f'']" by (auto simp: is_digit_def)
    with assms s 5 obtain l where l: "scan_num s = Some (l, r)" "v = JNum l"
      by (auto simp: parse_scalar_def)
    note ln = scan_num_consume [OF l(1)]
    then have c: "l \<noteq> []" "hd l = c" using s by (cases l; simp)+
    have "\<not> is_ws c" "c \<notin> set ''[{''" using 5 by (auto simp: byte_classes)
    moreover have "parse_scalar (l @ r') = Some (v, r')" if "numstop r'" for r'
      using ln that c nc 5 l(2) by (cases l) (auto simp: parse_scalar_def)
    ultimately show ?thesis using ln l(2) c by (auto simp: accepts_def open_chars)
  qed
qed

lemma value_parser_parse_value: "value_parser (parse_value d)"
proof (induction d)
  case 0
  show ?case
  proof (unfold_locales, goal_cases)
    case (1 s v r)
    then show ?case using scalar_val [of s v r]
      by (auto simp: accepts_def open_chars split: if_splits)
  qed
next
  case (Suc d)
  show ?case
  proof (unfold_locales, goal_cases)
    case (1 s v r)
    show ?case
    proof (cases "is_open s")
      case True
      with 1 value_parser.container_val [OF Suc, of s v r] show ?thesis
        by (auto simp: accepts_def open_chars is_ws_def)
    next
      case False
      with 1 scalar_val [of s v r] show ?thesis
        by (auto simp: accepts_def open_chars)
    qed
  qed
qed

interpretation pv: value_parser "parse_value d" for d
  by (rule value_parser_parse_value)

subsection \<open>Every node can be parsed again from its own text\<close>

text \<open>\<open>node d v\<close>: the text of \<open>v\<close> is read as \<open>v\<close> within \<open>d\<close> levels of nesting.\<close>

definition node :: "nat \<Rightarrow> json \<Rightarrow> bool" where
  "node d v \<longleftrightarrow> parse_value d (raw_of v) = Some (v, [])"

lemma node_accepts: "node d v \<longleftrightarrow> accepts (parse_value d) (raw_of v) v"
  using pv.val [of d "raw_of v" v "[]"] acceptsD [of "parse_value d" "raw_of v" v "[]"]
  by (auto simp: node_def)

lemma parse_value_node: "parse_value d s = Some (v, r) \<Longrightarrow> node d v"
  using pv.val by (simp add: node_accepts)

lemma parse_seq_mono:
  assumes "\<And>s y. p s = Some y \<Longrightarrow> q s = Some y" "parse_seq cl p s = Some y"
  shows "parse_seq cl q s = Some y"
  using assms(2)
proof (induction "length s" arbitrary: s y rule: less_induct)
  case less
  from less.prems obtain v r c r' where p: "p s = Some (v, r)" "skip_ws r = c # r'"
    by (subst (asm) parse_seq.simps) (auto split: option.splits elim!: list_case_someE)
  have "length (skip_ws r') < length s" if "length r' < length s"
    using skip_ws_length [of r'] that by linarith
  with less p assms(1) [OF p(1)] show ?case
    by (subst (asm) parse_seq.simps, subst parse_seq.simps) (fastforce split: if_splits)
qed

lemma parse_pair_mono:
  "(\<And>s y. p s = Some y \<Longrightarrow> q s = Some y) \<Longrightarrow> parse_pair p s = Some y \<Longrightarrow> parse_pair q s = Some y"
  by (cases s) (fastforce simp: parse_pair_def split: if_splits elim!: list_case_someE)+

lemma parse_container_mono:
  assumes "\<And>s y. p s = Some y \<Longrightarrow> q s = Some y" "parse_container p s = Some y"
  shows "parse_container q s = Some y"
  using assms(2) parse_seq_mono [of p q, OF assms(1)]
    parse_seq_mono [of "parse_pair p" "parse_pair q", OF parse_pair_mono [OF assms(1)]]
  by (cases s) (fastforce simp: parse_container_def split: if_splits)+

lemma parse_value_mono: "parse_value d s = Some y \<Longrightarrow> parse_value (Suc d) s = Some y"
proof (induction d arbitrary: s y)
  case 0
  then show ?case by (simp split: if_splits)
next
  case (Suc d)
  then show ?case
    using parse_container_mono [of "parse_value d" "parse_value (Suc d)" s y]
    by (cases "is_open s") (simp_all del: parse_value.simps(2) add: parse_value.simps(2) [of d]
        parse_value.simps(2) [of "Suc d"])
qed

lemma node_Suc: "node d v \<Longrightarrow> node (Suc d) v"
  unfolding node_def by (rule parse_value_mono)

lemma node_mono: "node d v \<Longrightarrow> d \<le> d' \<Longrightarrow> node d' v"
  by (induction d') (auto simp: le_Suc_eq intro: node_Suc)

lemma node_json_parse:
  assumes "node d v" "d \<le> maxNestingDepth"
  shows "json_parse (raw_of v) = Some v"
proof -
  have n: "node maxNestingDepth v" using node_mono assms by blast
  then have "\<not> is_ws (hd (raw_of v))" by (simp add: node_accepts accepts_def)
  with n show ?thesis by (simp add: json_parse_def node_def skip_ws_id)
qed

lemma json_parse_node: "json_parse s = Some v \<Longrightarrow> node maxNestingDepth v"
  by (auto simp: json_parse_def intro: parse_value_node split: option.splits if_splits)

lemma json_parse_raw: "json_parse s = Some v \<Longrightarrow> json_parse (raw_of v) = Some v"
  using json_parse_node node_json_parse by blast

text \<open>A line feed after a document.\<close>

lemma json_parse_line:
  assumes "json_parse s = Some v"
  shows "json_parse (s @ [LF]) = Some v"
proof -
  obtain r where r: "parse_value maxNestingDepth (skip_ws s) = Some (v, r)" "skip_ws r = []"
    using assms by (auto simp: json_parse_def split: option.splits if_splits)
  obtain w where w: "s = w @ skip_ws s" "\<forall>c \<in> set w. is_ws c" using skip_ws_split [of s] by blast
  have a: "accepts (parse_value maxNestingDepth) (raw_of v) v" using json_parse_node [OF assms] by (simp add: node_accepts)
  have rs: "\<forall>c \<in> set r. is_ws c" using skip_ws_split [of r] r(2) by simp
  have "skip_ws s = raw_of v @ r" using pv.val [OF r(1)] by simp
  then have "s @ [LF] = w @ raw_of v @ r @ [LF]" using w(1) by simp
  then have "skip_ws (s @ [LF]) = raw_of v @ r @ [LF]" using a w(2) by (simp add: skip_ws_gap accepts_def)
  moreover have "numstop (r @ [LF])" using rs ws_not_num by (cases r) (auto simp: byte_classes)
  moreover have "skip_ws (r @ [LF]) = []" using rs by (simp add: skip_ws_def is_ws_def)
  ultimately show ?thesis using acceptsD [OF a] by (simp add: json_parse_def)
qed

text \<open>The parts of a container are nodes one level down; keys are string literals.\<close>

definition str_lit :: "bytes \<Rightarrow> bool" where
  "str_lit l \<longleftrightarrow> (\<exists>t. l = QUOTE # t \<and> scan_str t = Some (t, []))"

lemma pair_accepts:
  assumes "accepts (parse_pair (parse_value d)) x (k, v)"
  shows "str_lit k \<and> node d v"
proof -
  have "parse_pair (parse_value d) x = Some ((k, v), [])"
    using acceptsD [OF assms, of "[]"] by simp
  then obtain cs t r0 r1 where "scan_str cs = Some (t, r0)" "parse_value d r1 = Some (v, [])" "k = QUOTE # t"
    by (cases x) (auto simp: parse_pair_def split: if_splits elim!: list_case_someE)
  with scan_str_consume [of cs t r0] parse_value_node [of d r1 v "[]"] show ?thesis
    by (auto simp: str_lit_def dest: spec [of _ "[]"])
qed

lemma node_open:
  assumes "node d v" "is_open (raw_of v)"
  obtains d' where "d = Suc d'" "parse_container (parse_value d') (raw_of v) = Some (v, [])"
  using assms by (cases d) (auto simp: node_def)

lemma container_children:
  assumes "parse_container (parse_value d) s = Some (v, r)"
  shows "(\<exists>t vs. v = JArr t vs \<and> prefix ''['' s \<and> (\<forall>w \<in> set vs. node d w)) \<or>
    (\<exists>t ms. v = JObj t ms \<and> prefix ''{'' s \<and> (\<forall>(k, w) \<in> set ms. str_lit k \<and> node d w))"
proof -
  from assms obtain c cs where s: "s = c # cs" by (cases s) (auto simp: parse_container_def)
  have arr: "\<forall>w \<in> set vs. node d w" if "parse_seq CHR '']'' (parse_value d) x = Some (vs, y)" for x y vs
  proof -
    have "\<forall>w \<in> set vs. \<exists>z. accepts (parse_value d) z w" using pv.seq_consume [OF that] by blast
    then show ?thesis using pv.val_accepts by (fastforce simp: node_accepts)
  qed
  have obj: "\<forall>(k, w) \<in> set ms. str_lit k \<and> node d w"
    if "parse_seq CHR ''}'' (parse_pair (parse_value d)) x = Some (ms, y)" for x y ms
    using pv.pair.seq_consume [OF that] by (fastforce dest: pair_accepts)
  consider "c = CHR ''[''" | "c = CHR ''{''"
    using assms s by (auto simp: parse_container_def split: if_splits)
  then show ?thesis
    using assms s by cases (auto simp: parse_container_def dest: arr obj split: if_splits)
qed

lemma node_arrayD:
  assumes "node d (JArr t vs)"
  obtains d' where "d = Suc d'" "\<forall>v \<in> set vs. node d' v"
proof (cases "is_open t")
  case True
  with assms obtain d' where d: "d = Suc d'" "parse_container (parse_value d') t = Some (JArr t vs, [])"
    by (auto elim: node_open)
  from container_children [OF d(2)] d(1) that show ?thesis by auto
next
  case False
  with assms have "parse_scalar t = Some (JArr t vs, [])" by (cases d) (auto simp: node_def)
  then show ?thesis by (cases t) (auto simp: parse_scalar_def split: if_splits)
qed

lemma node_objectD:
  assumes "node d (JObj t ms)"
  obtains d' where "d = Suc d'" "\<forall>(k, v) \<in> set ms. str_lit k \<and> node d' v"
proof (cases "is_open t")
  case True
  with assms obtain d' where d: "d = Suc d'" "parse_container (parse_value d') t = Some (JObj t ms, [])"
    by (auto elim: node_open)
  from container_children [OF d(2)] d(1) that show ?thesis by auto
next
  case False
  with assms have "parse_scalar t = Some (JObj t ms, [])" by (cases d) (auto simp: node_def)
  then show ?thesis by (cases t) (auto simp: parse_scalar_def split: if_splits)
qed

subsection \<open>String bodies\<close>

text \<open>The texts that may stand between the quotes of a string literal.\<close>

inductive str_body :: "bytes \<Rightarrow> bool" where
  body_nil [intro, simp]: "str_body []"
| body_plain [intro]: "c \<noteq> QUOTE \<Longrightarrow> c \<noteq> BSLASH \<Longrightarrow> \<not> byte c < 0x20 \<Longrightarrow> str_body b \<Longrightarrow> str_body (c # b)"
| body_esc [intro]: "simple_escape e \<Longrightarrow> str_body b \<Longrightarrow> str_body (BSLASH # e # b)"
| body_u [intro]: "is_hex a \<Longrightarrow> is_hex b \<Longrightarrow> is_hex d \<Longrightarrow> is_hex f \<Longrightarrow> str_body s \<Longrightarrow>
     str_body (BSLASH # CHR ''u'' # a # b # d # f # s)"

inductive_cases str_body_ConsE: "str_body (c # b)"

lemma simple_escape_not_u [simp]: "\<not> simple_escape CHR ''u''"
  by (simp add: simple_escape_def)

lemma str_body_scan: "str_body b \<Longrightarrow> scan_str (b @ QUOTE # r) = Some (b @ [QUOTE], r)"
  by (induction rule: str_body.induct) auto

lemma scan_str_body: "scan_str s = Some (t, r) \<Longrightarrow> \<exists>b. t = b @ [QUOTE] \<and> str_body b"
proof (induction "length s" arbitrary: s t rule: less_induct)
  case less
  then obtain c cs where s: "s = c # cs" by (cases s) auto
  show ?case
  proof (cases "c = QUOTE")
    case True
    with less.prems s show ?thesis by auto
  next
    case False
    note step = less.hyps [of _ _] less.prems s False
    show ?thesis
    proof (cases "c = BSLASH")
      case False
      with less.prems s \<open>c \<noteq> QUOTE\<close> obtain t' where
        t': "scan_str cs = Some (t', r)" "t = c # t'" "\<not> byte c < 0x20" by (auto split: if_splits)
      with less.hyps [OF _ t'(1)] s \<open>c \<noteq> QUOTE\<close> False show ?thesis by fastforce
    next
      case True
      with less.prems s obtain e cs' where cs: "cs = e # cs'" by (auto split: list.splits)
      show ?thesis
      proof (cases "e = CHR ''u''")
        case False
        with less.prems s True cs obtain t' where
          t': "scan_str cs' = Some (t', r)" "t = c # e # t'" "simple_escape e" by (auto split: if_splits)
        with less.hyps [OF _ t'(1)] s cs True show ?thesis by fastforce
      next
        case u: True
        with less.prems s True cs obtain x y z w q where
          h: "cs' = x # y # z # w # q" "is_hex x" "is_hex y" "is_hex z" "is_hex w"
          by (simp split: list.splits if_splits)
        with less.prems s True cs u obtain t' where
          t': "scan_str q = Some (t', r)" "t = c # e # x # y # z # w # t'" by auto
        with less.hyps [OF _ t'(1)] s cs True u h show ?thesis by fastforce
      qed
    qed
  qed
qed

lemma str_lit_body: "str_lit l \<longleftrightarrow> (\<exists>b. l = QUOTE # b @ [QUOTE] \<and> str_body b)"
  using str_body_scan [of _ "[]"] by (auto simp: str_lit_def dest: scan_str_body)

lemma unquote_body [simp]: "unquote (QUOTE # b @ [QUOTE]) = unq b"
  by (simp add: unquote_def butlast_append)

lemma str_lit_JStr: "node d (JStr l) \<Longrightarrow> str_lit l"
proof -
  assume "node d (JStr l)"
  then have "parse_scalar l = Some (JStr l, []) \<or> (\<exists>d'. parse_container (parse_value d') l = Some (JStr l, []))"
    by (cases d) (auto simp: node_def split: if_splits)
  then have "parse_scalar l = Some (JStr l, [])" using container_children by blast
  then show ?thesis
    by (cases l) (auto simp: parse_scalar_def str_lit_def split: if_splits dest!: scan_str_consume
        intro: exI [of _ "tl l"])
qed

lemma str_lit_node: "str_lit l \<Longrightarrow> node d (JStr l)"
  by (cases d) (auto simp: str_lit_def node_def parse_scalar_def open_chars)

subsection \<open>Building containers from nodes\<close>

text \<open>White space may stand wherever \<open>g\<close>, \<open>w\<close> and \<open>w'\<close> are: after the bracket and the commas, before the end, after a colon.\<close>

lemma node_spaced_array:
  assumes "\<forall>v \<in> set vs. node d v" "vs \<noteq> []" "\<forall>c \<in> set g. is_ws c" "\<forall>c \<in> set w. is_ws c" "\<forall>c \<in> set w'. is_ws c"
  shows "node (Suc d) (JArr (''['' @ g @ join (CHR '','' # w) (map raw_of vs) @ w' @ '']'') vs)"
proof -
  let ?j = "join (CHR '','' # w) (map raw_of vs) @ w'"
  have la: "list_all2 (accepts (parse_value d)) (map raw_of vs) vs"
    using assms(1) by (simp add: list_all2_conv_all_nth node_accepts)
  have seq: "parse_seq CHR '']'' (parse_value d) (?j @ CHR '']'' # []) = Some (vs, [])"
    using pv.seq_build [OF la, of "CHR '']''" w w' "[]"] assms by simp
  then obtain v r where v: "parse_value d (?j @ '']'') = Some (v, r)"
    by (subst (asm) parse_seq.simps) (auto split: option.splits)
  then have "raw_of v \<noteq> []" "\<not> is_ws (hd (raw_of v))" "?j @ '']'' = raw_of v @ r"
    using pv.val by (auto simp: accepts_def)
  then have ws: "skip_ws (g @ ?j @ '']'') = ?j @ '']''" by (intro skip_ws_gap [OF assms(3)]) (simp_all del: append_assoc)
  have "\<not> prefix '']'' (?j @ '']'')"
  proof
    assume "prefix '']'' (?j @ '']'')"
    then have "hd (?j @ '']'') = CHR '']''" by (auto simp: prefix_def)
    with v show False by (cases "?j @ '']''"; cases d) (auto simp: parse_simps byte_classes)
  qed
  with seq ws show ?thesis
    using span_append [of "''['' @ g @ ?j @ '']''" "[]"]
    by (simp add: node_def parse_simps)
qed

lemma node_array:
  assumes "\<forall>v \<in> set vs. node d v"
  shows "node (Suc d) (JArr (''['' @ join '','' (map raw_of vs) @ '']'') vs)"
proof (cases "vs = []")
  case True
  then show ?thesis by (simp add: node_def parse_simps skip_ws_def span_def)
next
  case False
  with node_spaced_array [OF assms, of "[]" "[]" "[]"] show ?thesis by simp
qed

lemma member_accepts:
  assumes "str_lit k" "node d v" "\<forall>c \<in> set g. is_ws c"
  shows "accepts (parse_pair (parse_value d)) (k @ '':'' @ g @ raw_of v) (k, v)"
proof -
  from assms(1) obtain t where t: "k = QUOTE # t" "scan_str t = Some (t, [])" by (auto simp: str_lit_def)
  from assms(2) have a: "accepts (parse_value d) (raw_of v) v" by (simp add: node_accepts)
  then have "skip_ws (g @ raw_of v @ r) = raw_of v @ r" for r by (intro skip_ws_gap [OF assms(3)]) (simp_all add: accepts_def)
  with t a scan_str_consume [OF t(2)] show ?thesis
    by (auto simp: accepts_def parse_pair_def skip_ws_id)
qed

lemma node_spaced_object:
  assumes "\<forall>(k, v) \<in> set ms. str_lit k \<and> node d v" "ms \<noteq> []" "\<forall>c \<in> set g. is_ws c" "\<forall>c \<in> set h. is_ws c"
    "\<forall>c \<in> set w. is_ws c" "\<forall>c \<in> set w'. is_ws c"
  shows "node (Suc d) (JObj (''{'' @ h @ join (CHR '','' # w) (map (\<lambda>(k, v). k @ '':'' @ g @ raw_of v) ms) @ w' @ ''}'') ms)"
proof -
  let ?f = "\<lambda>(k, v). k @ '':'' @ g @ raw_of v"
  let ?j = "join (CHR '','' # w) (map ?f ms)"
  have acc: "accepts (parse_pair (parse_value d)) (?f (k, v)) (k, v)" if "(k, v) \<in> set ms" for k v
    using assms(1) that member_accepts [OF _ _ assms(3)] by auto
  have la: "list_all2 (accepts (parse_pair (parse_value d))) (map ?f ms) ms"
    unfolding list_all2_conv_all_nth using acc
    by (metis (no_types, lifting) length_map nth_map nth_mem surj_pair)
  have seq: "parse_seq CHR ''}'' (parse_pair (parse_value d)) (?j @ w' @ CHR ''}'' # []) = Some (ms, [])"
    using pv.pair.seq_build [OF la, of "CHR ''}''" w w' "[]"] assms by simp
  obtain k v ms' where ms: "ms = (k, v) # ms'" using assms(2) by (cases ms) auto
  with assms(1) have ne: "?j \<noteq> []" "hd ?j = QUOTE" by (cases ms'; auto simp: str_lit_def)+
  then have "skip_ws (h @ ?j @ w' @ ''}'') = ?j @ w' @ ''}''" by (intro skip_ws_gap [OF assms(4)]) simp_all
  moreover have "\<not> prefix ''}'' (?j @ w' @ ''}'')" using ne by (cases ?j) simp_all
  ultimately show ?thesis using seq
    using span_append [of "''{'' @ h @ ?j @ w' @ ''}''" "[]"]
    by (simp add: node_def parse_simps)
qed

lemma node_object:
  assumes "\<forall>(k, v) \<in> set ms. str_lit k \<and> node d v"
  shows "node (Suc d) (JObj (''{'' @ join '','' (map (\<lambda>(k, v). k @ '':'' @ raw_of v) ms) @ ''}'') ms)"
proof (cases "ms = []")
  case True
  then show ?thesis by (simp add: node_def parse_simps skip_ws_def span_def)
next
  case False
  with node_spaced_object [OF assms, of "[]" "[]" "[]" "[]"] show ?thesis by simp
qed

end
