(* ===== verification/Go_Json_Print.thy ===== *)
theory Go_Json_Print
  imports Go_Json
begin

text \<open>
  Encoding and decoding meet: what \<^verbatim>\<open>json.Marshal\<close> writes is JSON, a marshalled string
  unquotes to itself, and the compaction of a \<^verbatim>\<open>RawMessage\<close> (whitespace dropped,
  \<^verbatim>\<open>< > &\<close> and the two line separators escaped) is a tree that decodes to the same
  values.  Also the laws of the sorted association lists that stand for Go maps.
\<close>

subsection \<open>Hex escapes\<close>

lemma hex_val_digit: "n < 16 \<Longrightarrow> hex_val (hex_digit n) = Some n"
  by (auto simp: hex_val_def hex_digit_def is_digit_def of_char_of)

lemma hex4_parts: "is_hex (hex_digit n)" if "n < 16"
  using that by (simp add: is_hex_def hex_val_digit)

lemma getu4_hex4:
  assumes "n < 65536"
  shows "getu4 (hex4 n @ r) = Some (n, r)"
proof -
  have "n div 256 = n div 4096 * 16 + n div 256 mod 16"
    using div_mult2_eq [of n 256 16] by (simp add: mult.commute)
  moreover have "n div 16 = n div 256 * 16 + n div 16 mod 16"
    using div_mult2_eq [of n 16 16] by (simp add: mult.commute)
  moreover have "n div 4096 < 16" using assms by linarith
  ultimately have "((n div 4096 mod 16 * 16 + n div 256 mod 16) * 16 + n div 16 mod 16) * 16 + n mod 16 = n"
    by simp
  moreover have "n div 4096 mod 16 = n div 4096" using \<open>n div 4096 < 16\<close> by simp
  ultimately show ?thesis using \<open>n div 4096 < 16\<close> by (simp add: getu4_def hex4_def hex_val_digit)
qed

lemma str_body_u_escape: "str_body b \<Longrightarrow> str_body (u_escape n @ b)"
  by (auto simp: u_escape_def hex4_def hex4_parts)

lemma unq_u_escape:
  "n < 65536 \<Longrightarrow> \<not> is_surrogate n \<Longrightarrow> unq (u_escape n @ b) = EncodeRune n @ unq b"
  by (simp add: u_escape_def unq.simps(2) getu4_hex4)

subsection \<open>Marshalled strings\<close>

lemma encode_ascii_body: "byte c < 0x80 \<Longrightarrow> str_body b \<Longrightarrow> str_body (encode_ascii c @ b)"
  by (simp add: encode_ascii_def simple_escape_def body_esc body_plain str_body_u_escape)

lemma str_body_high: "(\<forall>c \<in> set xs. 0x80 \<le> byte c) \<Longrightarrow> str_body b \<Longrightarrow> str_body (xs @ b)"
proof (induction xs)
  case (Cons x xs)
  then have "x \<noteq> QUOTE" "x \<noteq> BSLASH" "\<not> byte x < 0x20" by auto
  with Cons show ?case by (simp add: body_plain)
qed simp

lemma cont_high: "c \<in> set (takeWhile cont_byte cs) \<Longrightarrow> 0x80 \<le> byte c"
  by (auto dest: set_takeWhileD simp: cont_byte_def)

lemma take_rune_high:
  assumes "\<not> byte c < 0x80" "x \<in> set (take (snd (DecodeRune (c # cs))) (c # cs))"
  shows "0x80 \<le> byte x"
proof -
  let ?n = "snd (DecodeRune (c # cs)) - 1"
  have n: "?n \<le> length (takeWhile cont_byte cs)" using DecodeRune_width_cont [of c cs] by simp
  have "take ?n cs = take ?n (takeWhile cont_byte cs)"
    using n by (metis append_eq_append_conv_if takeWhile_dropWhile_id take_append take_all_iff diff_is_0_eq take0 append_Nil2)
  moreover have "x = c \<or> x \<in> set (take ?n cs)"
    using assms(2) DecodeRune_size [of "c # cs"] by (cases "snd (DecodeRune (c # cs))") auto
  ultimately show ?thesis
    using assms(1) cont_high [of x cs] in_set_takeD [of x ?n "takeWhile cont_byte cs"] by auto
qed

lemma str_body_encode: "str_body (encode_body s)"
proof (induction s rule: encode_body.induct)
  case 1
  then show ?case by simp
next
  case (2 c cs)
  show ?case
  proof (cases "byte c < 0x80")
    case True
    with 2 show ?thesis by (simp add: encode_body.simps(2) encode_ascii_body)
  next
    case False
    with 2 take_rune_high [OF False, of _ cs] show ?thesis
      by (cases "DecodeRune (c # cs)")
        (auto simp: encode_body.simps(2) intro!: str_body_u_escape str_body_high)
  qed
qed

lemma str_lit_marshal: "str_lit (marshal_string s)"
  using str_body_encode by (auto simp: str_lit_body marshal_string_def)

lemma unq_encode_ascii:
  assumes "byte c < 0x80" shows "unq (encode_ascii c @ b) = c # unq b"
proof -
  have u: "unq (u_escape (byte c) @ b) = c # unq b"
    using assms by (simp add: unq_u_escape is_surrogate_def EncodeRune_ascii)
  show ?thesis
    using assms u by (auto simp: encode_ascii_def unq.simps(2) unescape_def)
qed

lemma EncodeRune_high:
  assumes "\<not> r < 0x80" "is_scalar r"
  shows "\<forall>c \<in> set (EncodeRune r). 0x80 \<le> byte c"
proof -
  have "r \<le> 0x10FFFF" using assms by (auto simp: is_scalar_def)
  consider "r < 0x800" | "0x800 \<le> r" "r < 0x10000" | "0x10000 \<le> r" by linarith
  then show ?thesis
  proof cases
    case 1
    then have "r div 64 < 32" by linarith
    with 1 assms show ?thesis by (simp add: EncodeRune_def of_char_of)
  next
    case 2
    then have "r div 4096 < 16" by linarith
    with 2 assms show ?thesis by (simp add: EncodeRune_def of_char_of)
  next
    case 3
    with \<open>r \<le> 0x10FFFF\<close> have "r div 262144 < 16" by linarith
    with 3 assms show ?thesis by (simp add: EncodeRune_def of_char_of)
  qed
qed

lemma encode_body_rune:
  assumes "is_scalar r"
  shows "encode_body (EncodeRune r @ s) =
    (if r < 0x80 then encode_ascii (char_of r)
     else if r = 0x2028 \<or> r = 0x2029 then u_escape r else EncodeRune r) @ encode_body s"
proof (cases "r < 0x80")
  case True
  then show ?thesis by (simp add: EncodeRune_ascii encode_body.simps(2) of_char_of)
next
  case False
  obtain c cs where c: "EncodeRune r = c # cs" by (cases "EncodeRune r") auto
  have "\<not> byte c < 0x80" using EncodeRune_high [OF False assms] c by auto
  moreover have "length (EncodeRune RuneError) = 3" by (simp add: EncodeRune_def RuneError_def is_scalar_def)
  ultimately show ?thesis
    using False c DecodeRune_EncodeRune [OF assms, of s] by (auto simp: encode_body.simps(2))
qed

lemma unq_rune:
  assumes "is_scalar r" "r \<noteq> 0x5C"
  shows "unq (EncodeRune r @ b) = EncodeRune r @ unq b"
proof -
  obtain c cs where c: "EncodeRune r = c # cs" by (cases "EncodeRune r") auto
  show ?thesis
  proof (cases "r < 0x80")
    case True
    moreover have "char_of r \<noteq> BSLASH"
    proof
      assume "char_of r = BSLASH"
      then have "byte (char_of r) = (0x5C::nat)" by simp
      with True assms show False by (simp add: of_char_of)
    qed
    ultimately show ?thesis by (simp add: EncodeRune_ascii unq.simps(2) of_char_of)
  next
    case False
    from EncodeRune_high [OF False assms(1)] c have "\<not> byte c < 0x80" "c \<noteq> BSLASH" by auto
    with c DecodeRune_EncodeRune [OF assms(1), of b] show ?thesis by (simp add: unq.simps(2))
  qed
qed

lemma unq_encode_utf8: "\<forall>r \<in> set rs. is_scalar r \<Longrightarrow> unq (encode_body (utf8 rs) @ b) = utf8 rs @ unq b"
proof (induction rs)
  case (Cons r rs)
  have "unq (u_escape r @ x) = EncodeRune r @ unq x" if "r = 0x2028 \<or> r = 0x2029" for x
    using that by (auto simp: unq_u_escape is_surrogate_def)
  moreover have "unq (encode_ascii (char_of r) @ x) = EncodeRune r @ unq x" if "r < 0x80" for x
    using that by (simp add: unq_encode_ascii of_char_of EncodeRune_ascii)
  ultimately show ?case using Cons by (auto simp: encode_body_rune unq_rune)
qed simp

text \<open>A marshalled string unquotes to itself.\<close>

lemma unquote_marshal: "valid_utf8 s \<Longrightarrow> unquote (marshal_string s) = s"
proof -
  assume "valid_utf8 s"
  then obtain rs where "s = utf8 rs" "\<forall>r \<in> set rs. is_scalar r" by (rule valid_utf8E)
  with unq_encode_utf8 [of rs "[]"] show ?thesis by (simp add: marshal_string_def)
qed

text \<open>Unquoting yields valid UTF-8 and reads a body piece by piece.\<close>

lemma str_body_drop_cont: "str_body b \<Longrightarrow> n \<le> length (takeWhile cont_byte b) \<Longrightarrow> str_body (drop n b)"
proof (induction n arbitrary: b)
  case (Suc n)
  then obtain c b' where b: "b = c # b'" "cont_byte c" by (cases b) (auto split: if_splits)
  then have "str_body b'" using Suc.prems by (auto simp: cont_byte_def elim: str_body_ConsE)
  with Suc b show ?case by simp
qed simp

lemma getu4_hex:
  assumes "is_hex a" "is_hex b" "is_hex d" "is_hex f"
  shows "\<exists>n < 65536. \<forall>r. getu4 (a # b # d # f # r) = Some (n, r)"
proof -
  have h: "x < 16" if "hex_val c = Some x" for c x
    using that by (auto simp: hex_val_def is_digit_def split: if_splits)
  from assms obtain x y z w where v: "hex_val a = Some x" "hex_val b = Some y" "hex_val d = Some z" "hex_val f = Some w"
    by (auto simp: is_hex_def)
  from h [OF v(1)] h [OF v(2)] h [OF v(3)] h [OF v(4)] have "((x * 16 + y) * 16 + z) * 16 + w < 65536"
    by simp
  with v show ?thesis by (intro exI [of _ "((x * 16 + y) * 16 + z) * 16 + w"]) (simp add: getu4_def)
qed

lemma low_half_body:
  assumes "str_body s" "low_half hi s = Some (n, r)"
  shows "str_body r \<and> is_scalar n"
proof -
  from assms(2) obtain s' lo where s: "s = BSLASH # CHR ''u'' # s'" "getu4 s' = Some (lo, r)"
    "surrogate_pair hi lo" "n = utf16_decode hi lo"
    by (auto simp: low_half_def split: list.splits if_splits option.splits)
  from assms(1) [unfolded s(1)] obtain a b d f q where
    q: "s' = a # b # d # f # q" "is_hex a" "is_hex b" "is_hex d" "is_hex f" "str_body q"
    by (auto elim: str_body_ConsE)
  from getu4_hex [OF q(2-5)] s(2) q(1) have "r = q" by auto
  with q(6) s(3,4) show ?thesis
    by (auto simp: surrogate_pair_def utf16_decode_def is_scalar_def)
qed

lemma EncodeRune_scalar_eq: "\<exists>r'. is_scalar r' \<and> EncodeRune r = EncodeRune r'"
  by (rule exI [of _ "if is_scalar r then r else RuneError"]) (simp add: EncodeRune_def)

lemma simple_escape_cases:
  "simple_escape e \<Longrightarrow> e = CHR ''b'' \<or> e = CHR ''f'' \<or> e = CHR ''n'' \<or> e = CHR ''r'' \<or> e = CHR ''t''
     \<or> e = BSLASH \<or> e = CHR ''/'' \<or> e = QUOTE"
  unfolding simple_escape_def by simp

lemma unescape_ascii: "simple_escape e \<Longrightarrow> byte (unescape e) < 0x80 \<and> e \<noteq> CHR ''u''"
  by (drule simple_escape_cases) (elim disjE; simp add: unescape_def)

lemma unq_utf8: "str_body b \<Longrightarrow> \<exists>rs. unq b = utf8 rs \<and> (\<forall>r \<in> set rs. is_scalar r)"
proof (induction "length b" arbitrary: b rule: less_induct)
  case less
  have step: "\<exists>rs. EncodeRune r @ unq b' = utf8 rs \<and> (\<forall>r \<in> set rs. is_scalar r)"
    if "length b' < length b" "str_body b'" for r b'
  proof -
    from less.hyps [OF that] obtain rs where "unq b' = utf8 rs" "\<forall>r \<in> set rs. is_scalar r" by blast
    moreover obtain r' where "is_scalar r'" "EncodeRune r = EncodeRune r'" using EncodeRune_scalar_eq by blast
    ultimately show ?thesis by (intro exI [of _ "r' # rs"]) auto
  qed
  have astep: "\<exists>rs. c # unq b' = utf8 rs \<and> (\<forall>r \<in> set rs. is_scalar r)"
    if "byte c < 0x80" "length b' < length b" "str_body b'" for c b'
    using step [OF that(2,3), of "byte c"] that(1) by (simp add: EncodeRune_ascii)
  from less.prems show ?case
  proof (cases rule: str_body.cases)
    case body_nil
    then show ?thesis by (intro exI [of _ "[]"]) simp
  next
    case (body_plain c cs)
    show ?thesis
    proof (cases "byte c < 0x80")
      case True
      with body_plain astep [of c cs] show ?thesis by (simp add: unq.simps(2))
    next
      case False
      obtain r n where d: "DecodeRune (c # cs) = (r, n)" by fastforce
      have "n - 1 \<le> length (takeWhile cont_byte cs)" using DecodeRune_width_cont [of c cs] d by simp
      then have "str_body (drop (n - 1) cs)" using body_plain str_body_drop_cont by blast
      with step [of "drop (n - 1) cs" r] False body_plain d show ?thesis by (simp add: unq.simps(2))
    qed
  next
    case (body_esc e b')
    have "unq b = unescape e # unq b'"
      using unescape_ascii [OF body_esc(2)] by (simp add: body_esc(1) unq.simps(2))
    with unescape_ascii [OF body_esc(2)] body_esc astep [of "unescape e" b'] show ?thesis by simp
  next
    case (body_u a x d f s)
    from getu4_hex [OF body_u(2-5)] obtain n where n: "getu4 (a # x # d # f # s) = Some (n, s)" by blast
    have s: "length s < length b" "\<And>r'. length r' < length s \<Longrightarrow> length r' < length b"
      using body_u(1) by simp_all
    have "unq b = (if is_surrogate n then
        (case low_half n s of Some (dec, r') \<Rightarrow> EncodeRune dec @ unq r' | None \<Rightarrow> EncodeRune RuneError @ unq s)
      else EncodeRune n @ unq s)"
      using n by (simp add: body_u(1) unq.simps(2))
    moreover have "\<exists>rs. EncodeRune m @ unq r' = utf8 rs \<and> (\<forall>r \<in> set rs. is_scalar r)"
      if "low_half n s = Some (m, r')" for m r'
      using low_half_body [OF body_u(6) that] low_half_length [OF that] step s(2) by blast
    moreover note step [OF s(1) body_u(6)]
    ultimately show ?thesis by (simp split: if_split option.split prod.split)
  qed
qed

lemma valid_utf8_unquote: "str_lit l \<Longrightarrow> valid_utf8 (unquote l)"
  using unq_utf8 valid_utf8_utf8 by (fastforce simp: str_lit_body)

subsection \<open>HTML escaping inside string literals\<close>

definition html_plain :: "char \<Rightarrow> bool" where
  "html_plain c \<longleftrightarrow> \<not> html_special c \<and> c \<noteq> CHR 0xE2"

lemma html_escape_plain: "html_plain c \<Longrightarrow> html_escape (c # cs) = c # html_escape cs"
  by (auto simp: html_plain_def)

lemma html_special_byte: "html_special c \<Longrightarrow> byte c = 60 \<or> byte c = 62 \<or> byte c = 38"
  unfolding html_special_def by (elim disjE) simp_all

lemma simple_escape_plain: "simple_escape e \<Longrightarrow> html_plain e"
  by (drule simple_escape_cases) (elim disjE; simp add: html_plain_def html_special_def)

lemma is_hex_plain: "is_hex c \<Longrightarrow> html_plain c"
proof -
  assume h: "is_hex c"
  then have "byte c \<noteq> 0xE2" by (auto simp: is_hex_def hex_val_def byte_classes split: if_splits)
  then have "c \<noteq> CHR 0xE2" by auto
  moreover have "\<not> html_special c"
    using h html_special_byte [of c] by (auto simp: is_hex_def hex_val_def byte_classes split: if_splits)
  ultimately show ?thesis by (simp add: html_plain_def)
qed

lemma bslash_plain [simp]: "html_plain BSLASH" "html_plain CHR ''u''" "html_plain QUOTE"
  by (simp_all add: html_plain_def html_special_def)

lemma html_escape_esc:
  "simple_escape e \<Longrightarrow> html_escape (BSLASH # e # b) = BSLASH # e # html_escape b"
  "is_hex x \<Longrightarrow> is_hex y \<Longrightarrow> is_hex z \<Longrightarrow> is_hex w \<Longrightarrow>
     html_escape (BSLASH # CHR ''u'' # x # y # z # w # b) = BSLASH # CHR ''u'' # x # y # z # w # html_escape b"
  by (simp_all add: html_escape_plain simple_escape_plain is_hex_plain del: html_escape.simps(2))

text \<open>Either one byte is escaped, or a line separator of three bytes, or the byte stays.\<close>

lemma html_escape_Cons_cases:
  obtains (special) "html_special c" "html_escape (c # cs) = u_escape (byte c) @ html_escape cs"
  | (ls) x cs' where "c = CHR 0xE2" "cs = CHR 0x80 # char_of x # cs'" "x = 0xA8 \<or> x = 0xA9"
      "html_escape (c # cs) = u_escape (0x2028 + (x - 0xA8)) @ html_escape cs'"
  | (same) "\<not> html_special c" "html_escape (c # cs) = c # html_escape cs"
proof (cases "html_special c")
  case True
  then show ?thesis using special by simp
next
  case ns: False
  have a: "CHR 0xA8 = char_of (0xA8 :: nat)" "CHR 0xA9 = char_of (0xA9 :: nat)" by code_simp+
  show ?thesis
  proof (cases "prefix [CHR 0xE2, CHR 0x80, CHR 0xA8] (c # cs)")
    case True
    then obtain cs' where "c = CHR 0xE2" "cs = CHR 0x80 # CHR 0xA8 # cs'" by (auto simp: prefix_def)
    with ns a show ?thesis by (intro ls [where x = "0xA8" and cs' = cs']) simp_all
  next
    case n1: False
    show ?thesis
    proof (cases "prefix [CHR 0xE2, CHR 0x80, CHR 0xA9] (c # cs)")
      case True
      then obtain cs' where "c = CHR 0xE2" "cs = CHR 0x80 # CHR 0xA9 # cs'" by (auto simp: prefix_def)
      with ns n1 a show ?thesis by (intro ls [where x = "0xA9" and cs' = cs']) simp_all
    next
      case False
      show ?thesis
        by (rule same [OF ns]) (use ns n1 False in \<open>simp del: Cons_prefix_Cons\<close>)
    qed
  qed
qed

declare html_escape.simps(2) [simp del]

lemma body_tail_high: "str_body (c # b) \<Longrightarrow> 0x80 \<le> byte c \<Longrightarrow> str_body b"
  by (erule str_body_ConsE) auto

lemma body_tail_special: "str_body (c # b) \<Longrightarrow> html_special c \<Longrightarrow> str_body b"
  by (erule str_body_ConsE) (auto dest: html_special_byte)

lemma ls_tail:
  assumes "str_body (CHR 0xE2 # CHR 0x80 # char_of x # cs')" "x = 0xA8 \<or> x = (0xA9::nat)"
  shows "str_body cs'"
proof -
  from assms(1) have "str_body (CHR 0x80 # char_of x # cs')" by (rule body_tail_high) simp
  then have "str_body (char_of x # cs')" by (rule body_tail_high) simp
  then show ?thesis by (rule body_tail_high) (use assms(2) in \<open>elim disjE; simp add: of_char_of\<close>)
qed

lemma str_body_html: "str_body b \<Longrightarrow> str_body (html_escape b)"
proof (induction "length b" arbitrary: b rule: less_induct)
  case less
  from less.prems show ?case
  proof (cases rule: str_body.cases)
    case (body_plain c cs)
    show ?thesis
    proof (cases rule: html_escape_Cons_cases [of c cs])
      case special
      with less body_plain show ?thesis by (simp add: str_body_u_escape)
    next
      case (ls x cs')
      with less.prems body_plain(1) have "str_body cs'" using ls_tail by blast
      with less.hyps [of cs'] body_plain ls show ?thesis by (simp add: str_body_u_escape)
    next
      case same
      with less body_plain show ?thesis by (simp add: str_body.body_plain)
    qed
  next
    case (body_esc e b')
    with less.hyps [of b'] have "str_body (html_escape b')" by simp
    then show ?thesis
      by (simp only: body_esc(1) html_escape_esc(1) [OF body_esc(2)] str_body.body_esc [OF body_esc(2)])
  next
    case (body_u x y z w b')
    with less.hyps [of b'] have "str_body (html_escape b')" by simp
    then show ?thesis
      by (simp only: body_u(1) html_escape_esc(2) [OF body_u(2-5)] str_body.body_u [OF body_u(2-5)])
  qed simp
qed

lemma cont_not_special: "cont_byte c \<Longrightarrow> \<not> html_special c \<and> c \<noteq> CHR 0xE2 \<and> c \<noteq> BSLASH"
  using html_special_byte [of c] by (auto simp: cont_byte_def)

lemma html_escape_cont:
  "takeWhile cont_byte (html_escape cs) = takeWhile cont_byte cs"
  "k \<le> length (takeWhile cont_byte cs) \<Longrightarrow> drop k (html_escape cs) = html_escape (drop k cs)"
proof (induction cs arbitrary: k)
  case (Cons c cs)
  have nb: "\<not> cont_byte BSLASH" by (simp add: cont_byte_def)
  have cont: "html_escape (c # cs) = c # html_escape cs" if "cont_byte c"
    using cont_not_special [OF that] by (intro html_escape_plain) (simp add: html_plain_def)
  {
    case 1
    show ?case
    proof (cases "cont_byte c")
      case True
      with cont Cons.IH(1) show ?thesis by simp
    next
      case False
      then show ?thesis using nb
        by (cases rule: html_escape_Cons_cases [of c cs]) (simp_all add: u_escape_def)
    qed
  next
    case 2
    then show ?case using cont Cons.IH(2) by (cases k) (auto split: if_splits)
  }
qed simp_all

lemma DecodeRune_html: "DecodeRune (c # html_escape cs) = DecodeRune (c # cs)"
  using DecodeRune_takeWhile_cont [of c cs] DecodeRune_takeWhile_cont [of c "html_escape cs"]
  by (simp add: html_escape_cont(1))

lemma unq_line_sep:
  "x = 0xA8 \<or> x = 0xA9 \<Longrightarrow>
     unq (CHR 0xE2 # CHR 0x80 # char_of x # b) = EncodeRune (0x2028 + (x - 0xA8)) @ unq b"
  by (auto simp: unq.simps(2) [of "CHR 0xE2"] DecodeRune_def second_ok_def cont_byte_def of_char_of)

lemma low_half_u_escape: "n < 65536 \<Longrightarrow> \<not> is_surrogate n \<Longrightarrow> low_half hi (u_escape n @ b) = None"
  by (auto simp: low_half_def u_escape_def getu4_hex4 surrogate_pair_def is_surrogate_def)

lemma low_half_other: "c \<noteq> BSLASH \<or> hd (cs @ [QUOTE]) \<noteq> CHR ''u'' \<Longrightarrow> low_half hi (c # cs) = None"
  by (cases cs) (auto simp: low_half_def)

lemma low_half_html:
  assumes "str_body b"
  shows "low_half hi (html_escape b) = map_option (\<lambda>(m, r). (m, html_escape r)) (low_half hi b)"
  using assms
proof (cases rule: str_body.cases)
  case body_nil
  then show ?thesis by (simp add: low_half_def)
next
  case (body_plain c cs)
  then have "low_half hi b = None" by (simp add: low_half_other)
  moreover have "low_half hi (html_escape (c # cs)) = None"
  proof (cases rule: html_escape_Cons_cases [of c cs])
    case special
    then have "byte c < 0x80" using html_special_byte by fastforce
    with special show ?thesis by (simp add: low_half_u_escape is_surrogate_def)
  next
    case (ls x cs')
    then show ?thesis by (auto simp: low_half_u_escape is_surrogate_def)
  next
    case same
    with body_plain show ?thesis by (simp add: low_half_other)
  qed
  ultimately show ?thesis by (simp add: body_plain(1))
next
  case (body_esc e b')
  then show ?thesis
    using unescape_ascii [OF body_esc(2)]
    by (simp add: low_half_other html_escape_esc(1))
next
  case (body_u x y z w b')
  from getu4_hex [OF body_u(2-5)] obtain n where "\<And>r. getu4 (x # y # z # w # r) = Some (n, r)" by blast
  with body_u show ?thesis
    by (simp add: low_half_def html_escape_esc(2))
qed

text \<open>Escaping does not change what a literal means.\<close>

lemma unq_html_plain:
  assumes IH: "\<And>b'. length b' < length (c # cs) \<Longrightarrow> str_body b' \<Longrightarrow> unq (html_escape b') = unq b'"
    and body: "str_body (c # cs)" "str_body cs" and c: "c \<noteq> BSLASH"
  shows "unq (html_escape (c # cs)) = unq (c # cs)"
proof (cases rule: html_escape_Cons_cases [of c cs])
  case special
  then have "byte c < 0x80" using html_special_byte by fastforce
  with special IH [of cs] body c show ?thesis
    by (simp add: unq_u_escape is_surrogate_def EncodeRune_ascii unq.simps(2))
next
  case (ls x cs')
  with body have "str_body cs'" using ls_tail by blast
  with IH [of cs'] ls unq_line_sep [of x cs'] show ?thesis
    by (auto simp: unq_u_escape is_surrogate_def)
next
  case same
  show ?thesis
  proof (cases "byte c < 0x80")
    case True
    with same IH [of cs] body c show ?thesis by (simp add: unq.simps(2))
  next
    case False
    obtain r n where d: "DecodeRune (c # cs) = (r, n)" by fastforce
    have n: "n - 1 \<le> length (takeWhile cont_byte cs)" using DecodeRune_width_cont [of c cs] d by simp
    then have "str_body (drop (n - 1) cs)" using body str_body_drop_cont by blast
    then have "unq (html_escape (drop (n - 1) cs)) = unq (drop (n - 1) cs)" by (intro IH) auto
    with d n False same c show ?thesis
      by (simp add: unq.simps(2) DecodeRune_html html_escape_cont(2))
  qed
qed

lemma unq_html: "str_body b \<Longrightarrow> unq (html_escape b) = unq b"
proof (induction "length b" arbitrary: b rule: less_induct)
  case less
  from less.prems show ?case
  proof (cases rule: str_body.cases)
    case (body_plain c cs)
    with less show ?thesis using unq_html_plain [of c cs] by simp
  next
    case (body_esc e b')
    with less.hyps [of b'] have "unq (html_escape b') = unq b'" by simp
    then show ?thesis
      using unescape_ascii [OF body_esc(2)] by (simp only: body_esc(1) html_escape_esc(1) [OF body_esc(2)])
        (simp add: unq.simps(2))
  next
    case (body_u x y z w b')
    from getu4_hex [OF body_u(2-5)] obtain n where n: "\<And>r. getu4 (x # y # z # w # r) = Some (n, r)" by blast
    have rest: "unq (html_escape q) = unq q" if "str_body q" "length q \<le> length b'" for q
      using less.hyps [of q] that body_u(1) by simp
    have low: "unq (html_escape q) = unq q" if "low_half n b' = Some (m, q)" for m q
      using rest low_half_body [OF body_u(6) that] low_half_length [OF that] by simp
    show ?thesis
      unfolding body_u(1) html_escape_esc(2) [OF body_u(2-5)]
      using n rest [of b'] low body_u(6)
      by (simp add: unq.simps(2) low_half_html split: option.split)
  qed simp
qed

lemma html_escape_append_quote: "html_escape (b @ [QUOTE]) = html_escape b @ [QUOTE]"
proof (induction b rule: html_escape.induct)
  case 1
  then show ?case by (simp add: html_special_def html_escape.simps(2))
next
  case (2 c cs)
  have pre: "prefix [CHR 0xE2, CHR 0x80, y] (c # cs @ [QUOTE]) \<longleftrightarrow> prefix [CHR 0xE2, CHR 0x80, y] (c # cs)"
    if "y \<noteq> QUOTE" for y
    using that by (cases cs; cases "tl cs") auto
  have drop2: "drop 2 (cs @ [QUOTE]) = drop 2 cs @ [QUOTE]" if "prefix [CHR 0xE2, CHR 0x80, y] (c # cs)" for y
    using that by (auto simp: prefix_def)
  from 2 pre [of "CHR 0xA8"] pre [of "CHR 0xA9"] drop2 [of "CHR 0xA8"] drop2 [of "CHR 0xA9"] show ?case
    by (simp add: html_escape.simps(2) [of c] del: Cons_prefix_Cons)
qed

lemma html_escape_lit:
  assumes "str_lit l"
  shows "str_lit (html_escape l) \<and> unquote (html_escape l) = unquote l"
proof -
  from assms obtain b where b: "l = QUOTE # b @ [QUOTE]" "str_body b" by (auto simp: str_lit_body)
  have "html_escape l = QUOTE # html_escape b @ [QUOTE]"
    using b(1) by (simp add: html_escape_plain html_escape_append_quote)
  with b str_body_html [OF b(2)] unq_html [OF b(2)] show ?thesis by (auto simp: str_lit_body)
qed

subsection \<open>Compaction yields a node with the same contents\<close>

fun squash :: "json \<Rightarrow> json" where
  "squash (JStr l) = JStr (html_escape l)"
| "squash (JArr t vs) = JArr (compact (JArr t vs)) (map squash vs)"
| "squash (JObj t ms) = JObj (compact (JObj t ms)) (map (\<lambda>(k, v). (html_escape k, squash v)) ms)"
| "squash v = v"

lemma raw_squash [simp]: "raw_of (squash v) = compact v"
  by (cases v) simp_all

lemma squash_node: "node d v \<Longrightarrow> node d (squash v)"
proof (induction v arbitrary: d)
  case (JStr l)
  then have "str_lit l" by (rule str_lit_JStr)
  then show ?case using html_escape_lit str_lit_node by simp
next
  case (JArr t vs)
  from JArr.prems obtain d' where d: "d = Suc d'" "\<forall>v \<in> set vs. node d' v" by (rule node_arrayD)
  with JArr.IH have "\<forall>v \<in> set (map squash vs). node d' v" by simp
  from node_array [OF this] d(1) show ?case by (simp add: comp_def)
next
  case (JObj t ms)
  from JObj.prems obtain d' where d: "d = Suc d'" "\<forall>(k, v) \<in> set ms. str_lit k \<and> node d' v" by (rule node_objectD)
  have "\<forall>(k, v) \<in> set (map (\<lambda>(k, v). (html_escape k, squash v)) ms). str_lit k \<and> node d' v"
    using d(2) JObj.IH html_escape_lit by (fastforce simp: snds.simps)
  from node_object [OF this] d(1) show ?case by (simp add: comp_def case_prod_unfold)
qed simp_all

lemma compact_parse: "node d v \<Longrightarrow> d \<le> maxNestingDepth \<Longrightarrow> json_parse (compact v) = Some (squash v)"
  using node_json_parse [of d "squash v"] squash_node by simp

lemma compact_raw_node:
  assumes "node d v" "d \<le> maxNestingDepth"
  shows "compact_raw (raw_of v) = Some (compact v)"
proof -
  have "raw_of v \<noteq> []" using assms(1) by (simp add: node_accepts accepts_def)
  then show ?thesis using node_json_parse [OF assms] by (simp add: compact_raw_def)
qed

lemma marshal_raws_nodes:
  assumes "\<forall>v \<in> set vs. node d v" "d \<le> maxNestingDepth"
  shows "marshal_raws (map raw_of vs) = Some (raw_of (squash (JArr [] vs)))"
proof -
  have "those (map (compact_raw \<circ> raw_of) vs) = Some (map compact vs)"
    using assms compact_raw_node by (intro those_map_cong) auto
  then show ?thesis by (simp add: marshal_raws_def)
qed

lemma marshal_raw_map_nodes:
  assumes "\<forall>(k, v) \<in> set ms. node d v" "d \<le> maxNestingDepth"
  shows "marshal_raw_map (map (\<lambda>(k, v). (k, raw_of v)) ms) =
    Some (''{'' @ join '','' (map (\<lambda>(k, v). marshal_string k @ '':'' @ compact v) ms) @ ''}'')"
proof -
  have "those (map ((\<lambda>(k, r). map_option (\<lambda>c. marshal_string k @ '':'' @ c) (compact_raw r)) \<circ> (\<lambda>(k, v). (k, raw_of v))) ms)
      = Some (map (\<lambda>(k, v). marshal_string k @ '':'' @ compact v) ms)"
    using assms compact_raw_node by (intro those_map_cong) fastforce
  then show ?thesis by (simp add: marshal_raw_map_def)
qed

text \<open>The object \<open>json.Marshal\<close> writes for a map, as a node.\<close>

lemma marshalled_object_node:
  assumes "\<forall>(k, v) \<in> set ms. node d v"
  shows "node (Suc d) (JObj (''{'' @ join '','' (map (\<lambda>(k, v). marshal_string k @ '':'' @ compact v) ms) @ ''}'')
    (map (\<lambda>(k, v). (marshal_string k, squash v)) ms))"
proof -
  have "\<forall>(k, v) \<in> set (map (\<lambda>(k, v). (marshal_string k, squash v)) ms). str_lit k \<and> node d v"
    using assms squash_node str_lit_marshal by fastforce
  from node_object [OF this] show ?thesis by (simp add: comp_def case_prod_unfold)
qed

subsection \<open>Field access on compacted objects\<close>

lemma key_matches_html: "str_lit k \<Longrightarrow> key_matches f (html_escape k) = key_matches f k"
  using html_escape_lit by (simp add: key_matches_def)

lemma field_members_squash:
  "\<forall>(k, v) \<in> set ms. str_lit k \<Longrightarrow>
     field_members f (map (\<lambda>(k, v). (html_escape k, squash v)) ms) = map squash (field_members f ms)"
  by (induction ms) (auto simp: field_members_def key_matches_html)

lemma assign_strings_squash:
  "\<forall>v \<in> set vs. node d v \<Longrightarrow> assign_strings cur (map squash vs) = assign_strings cur vs"
proof (induction vs arbitrary: cur)
  case (Cons v vs)
  then show ?case using html_escape_lit str_lit_JStr by (cases v) (fastforce)+
qed simp

lemma field_str_squash:
  assumes "\<forall>(k, v) \<in> set ms. str_lit k \<and> node d v"
  shows "field_str f (map (\<lambda>(k, v). (html_escape k, squash v)) ms) = field_str f ms"
proof -
  have "\<forall>v \<in> set (field_members f ms). node d v" using assms by (auto simp: field_members_def)
  moreover have "\<forall>(k, v) \<in> set ms. str_lit k" using assms by auto
  ultimately show ?thesis
    by (simp only: field_str_def field_members_squash assign_strings_squash)
qed

subsection \<open>Maps as sorted association lists\<close>

definition map_wf :: "(bytes \<times> 'a) list \<Rightarrow> bool" where
  "map_wf m \<longleftrightarrow> sorted_wrt (<) (map fst m)"

lemma map_wf_distinct: "map_wf m \<Longrightarrow> distinct (map fst m)"
  by (simp add: map_wf_def strict_sorted_imp_sorted strict_sorted_iff)

lemma map_set_keys: "fst ` set (map_set k v m) = insert k (fst ` set m)"
  by (induction k v m rule: map_set.induct) auto

lemma map_wf_set: "map_wf m \<Longrightarrow> map_wf (map_set k v m)"
proof (induction k v m rule: map_set.induct)
  case (2 k v k' v' m)
  then show ?case
    using map_set_keys [of k v m] by (auto simp: map_wf_def)
qed (simp add: map_wf_def)

lemma map_of_map_set: "map_of (map_set k v m) = (map_of m)(k \<mapsto> v)"
  by (induction k v m rule: map_set.induct) (auto simp: fun_eq_iff)

lemma build_map_props:
  "map_wf m \<Longrightarrow> map_wf (fold (\<lambda>(k, v). map_set k v) kvs m) \<and>
     map_of (fold (\<lambda>(k, v). map_set k v) kvs m) = map_of m ++ map_of (rev kvs)"
  by (induction kvs arbitrary: m) (auto simp: map_wf_set map_of_map_set)

lemma map_wf_build: "map_wf (build_map kvs)"
  and map_of_build: "map_of (build_map kvs) = map_of (rev kvs)"
  using build_map_props [of "[]" kvs] by (simp_all add: build_map_def map_wf_def)

text \<open>Equal maps are equal lists.\<close>

lemma map_wf_eq: "map_wf m \<Longrightarrow> map_wf m' \<Longrightarrow> map_of m = map_of m' \<Longrightarrow> m = m'"
proof -
  assume wf: "map_wf m" "map_wf m'" and eq: "map_of m = map_of m'"
  have d: "distinct (map fst m)" "distinct (map fst m')" using wf map_wf_distinct by blast+
  have "set m = set m'"
    using eq map_of_eq_Some_iff [OF d(1)] map_of_eq_Some_iff [OF d(2)] by auto
  moreover have "sorted (map fst m)" "sorted (map fst m')"
    using wf by (simp_all add: map_wf_def strict_sorted_iff)
  moreover have "inj_on fst (set m \<union> set m')"
    using d \<open>set m = set m'\<close> by (simp add: distinct_map)
  ultimately show "m = m'" using d map_sorted_distinct_set_unique by blast
qed

lemma map_set_values: "set (map_set k v m) \<subseteq> insert (k, v) (set m)"
  by (induction k v m rule: map_set.induct) auto

lemma build_map_values: "set (build_map kvs) \<subseteq> set kvs"
proof -
  have "set (fold (\<lambda>(k, v). map_set k v) kvs m) \<subseteq> set kvs \<union> set m" for m :: "(bytes \<times> 'a) list"
  proof (induction kvs arbitrary: m)
    case (Cons kv kvs)
    obtain k v where "kv = (k, v)" by fastforce
    with Cons [of "map_set k v m"] map_set_values [of k v m] show ?case by auto
  qed simp
  from this [of "[]"] show ?thesis by (simp add: build_map_def)
qed

lemma build_map_map:
  "build_map (map (\<lambda>(k, v). (k, f v)) kvs) = map (\<lambda>(k, v). (k, f v)) (build_map kvs)"
proof -
  have s: "map_set k (f v) (map (\<lambda>(k, v). (k, f v)) m) = map (\<lambda>(k, v). (k, f v)) (map_set k v m)" for k v m
    by (induction k v m rule: map_set.induct) auto
  have "fold (\<lambda>(k, v). map_set k v) (map (\<lambda>(k, v). (k, f v)) kvs) (map (\<lambda>(k, v). (k, f v)) m)
      = map (\<lambda>(k, v). (k, f v)) (fold (\<lambda>(k, v). map_set k v) kvs m)" for m
    by (induction kvs arbitrary: m) (auto simp: s)
  from this [of "[]"] show ?thesis by (simp add: build_map_def)
qed

end
