(* ===== verification/Jsonrpc.thy ===== *)
theory Jsonrpc
  imports Go_Json_Print
begin

text \<open>
  \<^verbatim>\<open>gateway/jsonrpc.go\<close>: the metadata-only summary of a request body.  The record
  \<open>rpcSummary\<close> and the functions \<open>addProbe\<close> and \<open>summarizeRPC\<close> follow the source; the
  lemmas show which ids and tool names a summary can hold and that it does not depend on
  anything inside \<^verbatim>\<open>params\<close> except the tool name.
\<close>

subsection \<open>The summary\<close>

record rpcSummary =
  Methods :: "bytes list"
  IDs :: "bytes list"
  Tools :: "bytes list"
  ToolCalls :: nat
  ToolsListIDs :: "bytes list"
  ToolsCallIDs :: "bytes list"
  Batch :: bool
  Invalid :: bool

record rpcProbe =
  Method :: bytes
  ID :: bytes
  Params :: bytes

definition empty_summary :: rpcSummary where
  "empty_summary = \<lparr>Methods = [], IDs = [], Tools = [], ToolCalls = 0, ToolsListIDs = [],
     ToolsCallIDs = [], Batch = False, Invalid = False\<rparr>"

text \<open>Decoding one message into the probe struct; a \<^verbatim>\<open>method\<close> that is not a string is an error.\<close>

definition probe_of_members :: "(bytes \<times> json) list \<Rightarrow> rpcProbe option" where
  "probe_of_members ms =
     map_option (\<lambda>m. \<lparr>Method = m, ID = field_raw ''id'' ms, Params = field_raw ''params'' ms\<rparr>)
       (field_str ''method'' ms)"

definition unmarshal_probe :: "bytes \<Rightarrow> rpcProbe option" where
  "unmarshal_probe s = Option.bind (unmarshal_struct s) probe_of_members"

definition unmarshal_probes :: "bytes \<Rightarrow> rpcProbe list option" where
  "unmarshal_probes s =
     do { v \<leftarrow> json_parse s; vs \<leftarrow> slice_of v;
          those (map (\<lambda>v. Option.bind (struct_members v) probe_of_members) vs) }"

text \<open>\<^verbatim>\<open>params.name\<close>, when \<^verbatim>\<open>params\<close> is present and holds a non-empty string there.\<close>

definition tool_name :: "bytes \<Rightarrow> bytes option" where
  "tool_name params =
     (if params = [] then None
      else case Option.bind (unmarshal_struct params) (field_str ''name'') of
             None \<Rightarrow> None
           | Some n \<Rightarrow> if n = [] then None else Some n)"

definition has_id :: "rpcProbe \<Rightarrow> bool" where
  "has_id p \<longleftrightarrow> ID p \<noteq> [] \<and> ID p \<noteq> ''null''"

definition addProbe :: "rpcSummary \<Rightarrow> rpcProbe \<Rightarrow> rpcSummary" where
  "addProbe s p =
     (let s1 = (if Method p \<noteq> [] then s\<lparr>Methods := Methods s @ [Method p]\<rparr> else s);
          s2 = (if has_id p then s1\<lparr>IDs := IDs s1 @ [ID p]\<rparr> else s1);
          s3 = (if Method p = ''tools/list'' \<and> has_id p
                then s2\<lparr>ToolsListIDs := ToolsListIDs s2 @ [ID p]\<rparr> else s2)
      in if Method p = ''tools/call'' then
           (let s4 = s3\<lparr>ToolCalls := ToolCalls s3 + 1\<rparr>;
                s5 = (if has_id p then s4\<lparr>ToolsCallIDs := ToolsCallIDs s4 @ [ID p]\<rparr> else s4)
            in case tool_name (Params p) of
                 None \<Rightarrow> s5
               | Some n \<Rightarrow> s5\<lparr>Tools := Tools s5 @ [n]\<rparr>)
         else s3)"

definition summarizeRPC :: "bytes \<Rightarrow> rpcSummary" where
  "summarizeRPC body0 =
     (let body = TrimSpace body0; s = empty_summary in
      case body of
        [] \<Rightarrow> s
      | c # _ \<Rightarrow>
          if c = CHR ''{'' then
            (case unmarshal_probe body of
               None \<Rightarrow> s\<lparr>Invalid := True\<rparr>
             | Some p \<Rightarrow> addProbe s p)
          else if c = CHR ''['' then
            (case unmarshal_probes body of
               None \<Rightarrow> s\<lparr>Invalid := True\<rparr>
             | Some ps \<Rightarrow>
                 if ps = [] then s\<lparr>Invalid := True\<rparr>
                 else foldl addProbe (s\<lparr>Batch := True\<rparr>) ps)
          else s\<lparr>Invalid := True\<rparr>)"

subsection \<open>What a summary holds\<close>

text \<open>The messages of a body as the gateway reads them; an invalid body has none.\<close>

definition messages :: "bytes \<Rightarrow> rpcProbe list" where
  "messages body0 =
     (let body = TrimSpace body0 in
      case body of
        [] \<Rightarrow> []
      | c # _ \<Rightarrow>
          if c = CHR ''{'' then (case unmarshal_probe body of None \<Rightarrow> [] | Some p \<Rightarrow> [p])
          else if c = CHR ''['' then (case unmarshal_probes body of None \<Rightarrow> [] | Some ps \<Rightarrow> ps)
          else [])"

definition calls :: "rpcProbe list \<Rightarrow> rpcProbe list" where
  "calls ps = filter (\<lambda>p. Method p = ''tools/call'') ps"

definition lists :: "rpcProbe list \<Rightarrow> rpcProbe list" where
  "lists ps = filter (\<lambda>p. Method p = ''tools/list'') ps"

text \<open>The reference definition: every field of the summary is a map over the messages.\<close>

definition summary_spec :: "bool \<Rightarrow> rpcProbe list \<Rightarrow> rpcSummary" where
  "summary_spec b ps =
     \<lparr>Methods = filter (\<lambda>m. m \<noteq> []) (map Method ps),
      IDs = map ID (filter has_id ps),
      Tools = List.map_filter (\<lambda>p. tool_name (Params p)) (calls ps),
      ToolCalls = length (calls ps),
      ToolsListIDs = map ID (filter has_id (lists ps)),
      ToolsCallIDs = map ID (filter has_id (calls ps)),
      Batch = b, Invalid = False\<rparr>"

lemma addProbe_spec: "addProbe (summary_spec b ps) p = summary_spec b (ps @ [p])"
proof -
  have ne: "''tools/list'' \<noteq> ''tools/call''" by simp
  consider "Method p = ''tools/call''" | "Method p = ''tools/list''"
    | "Method p \<noteq> ''tools/call''" "Method p \<noteq> ''tools/list''" by blast
  then show ?thesis
  proof cases
    case 1
    then show ?thesis
      by (cases "tool_name (Params p)")
        (simp_all add: addProbe_def summary_spec_def calls_def lists_def map_filter_def Let_def)
  next
    case 2
    then show ?thesis
      by (simp add: addProbe_def summary_spec_def calls_def lists_def map_filter_def)
  next
    case 3
    then show ?thesis
      by (simp add: addProbe_def summary_spec_def calls_def lists_def map_filter_def)
  qed
qed

lemma foldl_addProbe: "foldl addProbe (summary_spec b ps) qs = summary_spec b (ps @ qs)"
  by (induction qs arbitrary: ps) (simp_all add: addProbe_spec)

lemma empty_summary_spec:
  "empty_summary = summary_spec False []" "empty_summary\<lparr>Batch := True\<rparr> = summary_spec True []"
  by (simp_all add: summary_spec_def empty_summary_def calls_def lists_def map_filter_def)

lemma addProbe_empty: "addProbe empty_summary p = summary_spec False [p]"
  using addProbe_spec [of False "[]" p] by (simp add: empty_summary_spec(1))

lemma summarizeRPC_cases:
  "(summarizeRPC body = empty_summary\<lparr>Invalid := True\<rparr> \<and> messages body = [])
     \<or> (\<exists>b. summarizeRPC body = summary_spec b (messages body))"
proof (cases "TrimSpace body")
  case Nil
  then show ?thesis by (auto simp: summarizeRPC_def messages_def empty_summary_spec(1))
next
  case (Cons c cs)
  have fold: "foldl addProbe (empty_summary\<lparr>Batch := True\<rparr>) qs = summary_spec True qs" for qs
    using foldl_addProbe [of True "[]" qs] by (simp add: empty_summary_spec(2))
  consider "c = CHR ''{''" | "c = CHR ''[''" | "c \<noteq> CHR ''{''" "c \<noteq> CHR ''[''" by blast
  then show ?thesis
  proof cases
    case 1
    then show ?thesis
      using Cons addProbe_empty
      by (cases "unmarshal_probe (c # cs)") (auto simp: summarizeRPC_def messages_def)
  next
    case 2
    then show ?thesis
      using Cons fold
      by (cases "unmarshal_probes (c # cs)") (auto simp: summarizeRPC_def messages_def)
  next
    case 3
    then show ?thesis using Cons by (simp add: summarizeRPC_def messages_def)
  qed
qed

lemma valid_summary: "\<not> Invalid (summarizeRPC body) \<Longrightarrow> \<exists>b. summarizeRPC body = summary_spec b (messages body)"
  using summarizeRPC_cases [of body] by auto

lemma map_filter_length_le: "length (List.map_filter f xs) \<le> length xs"
  by (simp add: map_filter_def)

lemma map_filter_all_Some:
  "length (List.map_filter f xs) = length xs \<Longrightarrow> map f xs = map Some (List.map_filter f xs)"
proof (induction xs)
  case (Cons x xs)
  then show ?case using map_filter_length_le [of f xs] by (cases "f x") (auto simp: map_filter_def)
qed (simp add: map_filter_def)

lemma in_map_filter_iff: "y \<in> set (List.map_filter f xs) \<longleftrightarrow> (\<exists>x \<in> set xs. f x = Some y)"
  by (auto simp: map_filter_def image_iff)

lemma in_Tools_iff:
  "t \<in> set (Tools (summarizeRPC body)) \<longleftrightarrow>
     (\<exists>m \<in> set (messages body). Method m = ''tools/call'' \<and> tool_name (Params m) = Some t)"
  using summarizeRPC_cases [of body]
  by (elim disjE exE) (auto simp: summary_spec_def empty_summary_def calls_def in_map_filter_iff)

end
