(* ===== verification/Policy.thy ===== *)
theory Policy
  imports Config Jsonrpc
begin

text \<open>
  \<^verbatim>\<open>gateway/policy.go\<close>: the per-upstream tool policy.  A nil \<^verbatim>\<open>*toolPolicy\<close> is
  \<open>None\<close>; the Go maps \<^verbatim>\<open>allow\<close> and \<^verbatim>\<open>deny\<close> are HOL maps, a nil map is \<open>None\<close>.  The
  reason string is empty when the request may pass, as in the source.
\<close>

subsection \<open>The policy\<close>

record toolPolicy =
  allow :: "(bytes \<rightharpoonup> bool) option"
  deny :: "(bytes \<rightharpoonup> bool) option"

text \<open>Reading a \<^verbatim>\<open>map[string]bool\<close>: a missing key and a nil map both give \<^verbatim>\<open>false\<close>.\<close>

definition bool_lookup :: "(bytes \<rightharpoonup> bool) option \<Rightarrow> bytes \<Rightarrow> bool" where
  "bool_lookup m k = (case m of None \<Rightarrow> False | Some f \<Rightarrow> (case f k of None \<Rightarrow> False | Some b \<Rightarrow> b))"

definition tool_set :: "bytes list \<Rightarrow> (bytes \<rightharpoonup> bool) option" where
  "tool_set ts = (if ts = [] then None else Some (fold (\<lambda>t m. m(t \<mapsto> True)) ts Map.empty))"

definition newToolPolicy :: "Upstream \<Rightarrow> toolPolicy option" where
  "newToolPolicy u =
     (if ToolsAllow u = [] \<and> ToolsDeny u = [] then None
      else Some \<lparr>allow = tool_set (ToolsAllow u), deny = tool_set (ToolsDeny u)\<rparr>)"

definition blocked_msg :: "bytes \<Rightarrow> bytes" where
  "blocked_msg tool = ''tool blocked by policy: '' @ tool"

fun first_blocked :: "(bytes \<Rightarrow> bool) \<Rightarrow> bytes list \<Rightarrow> bytes" where
  "first_blocked bad [] = []"
| "first_blocked bad (t # ts) = (if bad t then blocked_msg t else first_blocked bad ts)"

definition blockReason :: "toolPolicy option \<Rightarrow> rpcSummary \<Rightarrow> bytes" where
  "blockReason pol sm =
     (case pol of
        None \<Rightarrow> []
      | Some p \<Rightarrow>
          if allow p \<noteq> None then
            (if Invalid sm then ''tool policy: body not parseable, allowlist mode is default-deny''
             else if ToolCalls sm > length (Tools sm) then
               ''tool policy: tools/call without a parseable tool name''
             else first_blocked (\<lambda>t. \<not> bool_lookup (allow p) t) (Tools sm))
          else first_blocked (\<lambda>t. bool_lookup (deny p) t) (Tools sm))"

definition allows :: "toolPolicy option \<Rightarrow> bytes \<Rightarrow> bool" where
  "allows pol name =
     (case pol of
        None \<Rightarrow> True
      | Some p \<Rightarrow>
          if allow p \<noteq> None then bool_lookup (allow p) name else \<not> bool_lookup (deny p) name)"

subsection \<open>Basic facts\<close>

lemma fold_upd_True: "fold (\<lambda>t m. m(t \<mapsto> True)) ts m k = (if k \<in> set ts then Some True else m k)"
  by (induction ts arbitrary: m) auto

lemma bool_lookup_tool_set [simp]: "bool_lookup (tool_set ts) k \<longleftrightarrow> k \<in> set ts"
  by (simp add: bool_lookup_def tool_set_def fold_upd_True)

lemma bool_lookup_tool_set_fun: "bool_lookup (tool_set ts) = (\<lambda>k. k \<in> set ts)"
  by (rule ext) simp

lemma tool_set_None [simp]: "tool_set ts = None \<longleftrightarrow> ts = []"
  by (simp add: tool_set_def)

lemma blocked_msg_ne [simp]: "blocked_msg t \<noteq> []"
  by (simp add: blocked_msg_def)

lemma first_blocked_Nil: "first_blocked bad ts = [] \<longleftrightarrow> (\<forall>t \<in> set ts. \<not> bad t)"
  by (induction ts) auto

lemma first_blocked_names:
  "first_blocked bad ts \<noteq> [] \<Longrightarrow> \<exists>t \<in> set ts. bad t \<and> first_blocked bad ts = blocked_msg t"
  by (induction ts) auto

lemma allows_policy:
  "allows (newToolPolicy u) n \<longleftrightarrow>
     (if ToolsAllow u \<noteq> [] then n \<in> set (ToolsAllow u) else n \<notin> set (ToolsDeny u))"
  by (auto simp: allows_def newToolPolicy_def)

text \<open>The two modes of \<open>blockReason\<close>, with the map lookups read back as list membership.\<close>

lemma blockReason_allow:
  "ToolsAllow u \<noteq> [] \<Longrightarrow> blockReason (newToolPolicy u) sm = [] \<longleftrightarrow>
     \<not> Invalid sm \<and> \<not> ToolCalls sm > length (Tools sm) \<and> set (Tools sm) \<subseteq> set (ToolsAllow u)"
  by (auto simp: blockReason_def newToolPolicy_def first_blocked_Nil)

lemma blockReason_deny:
  "ToolsAllow u = [] \<Longrightarrow> blockReason (newToolPolicy u) sm = first_blocked (\<lambda>t. t \<in> set (ToolsDeny u)) (Tools sm)"
  by (cases "ToolsDeny u = []")
    (simp_all add: blockReason_def newToolPolicy_def bool_lookup_tool_set_fun first_blocked_Nil eq_commute [of "[]"])

lemma names_all_in:
  "\<not> length xs > length (List.map_filter f xs) \<and> set (List.map_filter f xs) \<subseteq> A \<longleftrightarrow>
     (\<forall>x \<in> set xs. \<exists>n \<in> A. f x = Some n)"
proof (induction xs)
  case (Cons x xs)
  have "length (List.map_filter f xs) \<le> length xs" by (rule map_filter_length_le)
  with Cons show ?case by (cases "f x") (auto simp: map_filter_simps)
qed (simp add: map_filter_simps)

subsection \<open>Call-time enforcement\<close>

lemma allowlist_passes:
  assumes "ToolsAllow u \<noteq> []"
  shows "blockReason (newToolPolicy u) (summarizeRPC body) = [] \<longleftrightarrow>
    \<not> Invalid (summarizeRPC body) \<and>
    (\<forall>m \<in> set (messages body). Method m = ''tools/call'' \<longrightarrow>
       (\<exists>n \<in> set (ToolsAllow u). tool_name (Params m) = Some n))"
proof (cases "Invalid (summarizeRPC body)")
  case False
  then obtain b where s: "summarizeRPC body = summary_spec b (messages body)" using valid_summary by blast
  have "blockReason (newToolPolicy u) (summarizeRPC body) = [] \<longleftrightarrow>
      (\<forall>m \<in> set (calls (messages body)). \<exists>n \<in> set (ToolsAllow u). tool_name (Params m) = Some n)"
    unfolding s blockReason_allow [OF assms] names_all_in [symmetric] by (simp add: summary_spec_def)
  also have "\<dots> \<longleftrightarrow> (\<forall>m \<in> set (messages body). Method m = ''tools/call'' \<longrightarrow>
       (\<exists>n \<in> set (ToolsAllow u). tool_name (Params m) = Some n))"
    unfolding calls_def by auto
  finally show ?thesis using False by simp
qed (simp add: blockReason_allow [OF assms])

text \<open>
  C20. Allowlist mode is default-deny: a request passes the policy exactly when its body parses
  and every \<^verbatim>\<open>tools/call\<close> message in it carries a tool name from the allowlist.
\<close>

theorem allowlist_default_deny:
  assumes "ToolsAllow u \<noteq> []"
  shows "blockReason (newToolPolicy u) (summarizeRPC body) = [] \<longleftrightarrow>
    \<not> Invalid (summarizeRPC body) \<and>
    (\<forall>m \<in> set (messages body). Method m = ''tools/call'' \<longrightarrow>
       (\<exists>n \<in> set (ToolsAllow u). tool_name (Params m) = Some n))"
  by (rule allowlist_passes [OF assms])

theorem allowlist_default_deny_witness:
  "blockReason (newToolPolicy (zero_upstream\<lparr>ToolsAllow := [''read'']\<rparr>)) (summarizeRPC ''junk'') \<noteq> []"
proof -
  have h: "ToolsAllow (zero_upstream\<lparr>ToolsAllow := [''read'']\<rparr>) \<noteq> []" by simp
  have "Invalid (summarizeRPC ''junk'')" by code_simp
  with allowlist_default_deny [OF h, of "''junk''"] show ?thesis by simp
qed

text \<open>
  C21. Denylist mode blocks a request exactly when some \<^verbatim>\<open>tools/call\<close> message of it, alone or in a
  batch, names a denied tool, and the reason given to the client names such a tool.  Bodies that
  do not parse and other methods pass.
\<close>

theorem denylist_blocks_named:
  assumes "ToolsAllow u = []"
  shows "(blockReason (newToolPolicy u) (summarizeRPC body) = [] \<longleftrightarrow>
      (\<forall>m \<in> set (messages body). \<forall>n. Method m = ''tools/call'' \<longrightarrow> tool_name (Params m) = Some n \<longrightarrow>
         n \<notin> set (ToolsDeny u))) \<and>
    (blockReason (newToolPolicy u) (summarizeRPC body) \<noteq> [] \<longrightarrow>
      (\<exists>m \<in> set (messages body). \<exists>n. Method m = ''tools/call'' \<and> tool_name (Params m) = Some n \<and>
         n \<in> set (ToolsDeny u) \<and> blockReason (newToolPolicy u) (summarizeRPC body) = blocked_msg n))"
proof -
  have T: "t \<in> set (Tools (summarizeRPC body)) \<longleftrightarrow>
      (\<exists>m \<in> set (messages body). Method m = ''tools/call'' \<and> tool_name (Params m) = Some t)" for t
    by (rule in_Tools_iff)
  show ?thesis
    unfolding blockReason_deny [OF assms]
    using first_blocked_names [of "\<lambda>t. t \<in> set (ToolsDeny u)" "Tools (summarizeRPC body)"] T
    by (simp add: first_blocked_Nil) blast
qed

theorem denylist_blocks_named_witness:
  "blockReason (newToolPolicy (zero_upstream\<lparr>ToolsDeny := [''rm'']\<rparr>)) (summarizeRPC ''junk'') = []"
proof -
  have h: "ToolsAllow (zero_upstream\<lparr>ToolsDeny := [''rm'']\<rparr>) = []" by code_simp
  have "messages ''junk'' = []" by code_simp
  with denylist_blocks_named [OF h, of "''junk''"] show ?thesis by simp
qed

text \<open>
  Call-time enforcement agrees with list-time filtering: a tool call that passes
  \<open>blockReason\<close> names a tool that \<open>allows\<close> keeps in \<^verbatim>\<open>tools/list\<close> responses, whatever the policy.
\<close>

theorem passed_call_is_listed:
  assumes "blockReason (newToolPolicy u) (summarizeRPC body) = []"
    and "m \<in> set (messages body)" "Method m = ''tools/call''" "tool_name (Params m) = Some n"
  shows "allows (newToolPolicy u) n"
proof -
  have n: "n \<in> set (Tools (summarizeRPC body))" using assms(2-4) by (auto simp: in_Tools_iff)
  show ?thesis
  proof (cases "ToolsAllow u = []")
    case True
    then show ?thesis using assms(1) n by (auto simp: allows_policy blockReason_deny first_blocked_Nil)
  next
    case False
    then show ?thesis using assms(1) n by (auto simp: allows_policy blockReason_allow)
  qed
qed

text \<open>A call of the tool \<^verbatim>\<open>ls\<close>, and the probe the gateway reads from it.\<close>

definition call_ls :: bytes where
  "call_ls = ''{'' @ marshal_string ''id'' @ '':1,'' @ marshal_string ''method'' @ '':'' @
     marshal_string ''tools/call'' @ '','' @ marshal_string ''params'' @ '':{'' @
     marshal_string ''name'' @ '':'' @ marshal_string ''ls'' @ ''}}''"

theorem passed_call_is_listed_witness:
  "allows (newToolPolicy (zero_upstream\<lparr>ToolsDeny := [''rm'']\<rparr>)) ''ls''"
proof -
  have 1: "blockReason (newToolPolicy (zero_upstream\<lparr>ToolsDeny := [''rm'']\<rparr>)) (summarizeRPC call_ls) = []"
    by code_simp
  have 2: "length (messages call_ls) = 1 \<and> Method (hd (messages call_ls)) = ''tools/call'' \<and>
      tool_name (Params (hd (messages call_ls))) = Some ''ls''"
    by code_simp
  then have 3: "hd (messages call_ls) \<in> set (messages call_ls)" by (cases "messages call_ls") auto
  from passed_call_is_listed [OF 1 3] 2 show ?thesis by simp
qed

end
