(* ===== verification/Sha256.thy ===== *)
theory Sha256
  imports Go_Bytes "HOL-Library.Word"
begin

text \<open>
  The SHA-256 digest of \<^verbatim>\<open>crypto/sha256\<close> (FIPS 180-4) on 32-bit words, and the lower-case hex
  rendering of \<^verbatim>\<open>encoding/hex\<close>.  The lemmas give the length of a digest and show that
  padding fills whole blocks.
\<close>

unbundle bit_operations_syntax

type_synonym w32 = "32 word"

subsection \<open>Compression\<close>

definition rotr :: "nat \<Rightarrow> w32 \<Rightarrow> w32" where
  "rotr n x = drop_bit n x OR push_bit (32 - n) x"

definition big0 :: "w32 \<Rightarrow> w32" where "big0 x = rotr 2 x XOR rotr 13 x XOR rotr 22 x"
definition big1 :: "w32 \<Rightarrow> w32" where "big1 x = rotr 6 x XOR rotr 11 x XOR rotr 25 x"
definition small0 :: "w32 \<Rightarrow> w32" where "small0 x = rotr 7 x XOR rotr 18 x XOR drop_bit 3 x"
definition small1 :: "w32 \<Rightarrow> w32" where "small1 x = rotr 17 x XOR rotr 19 x XOR drop_bit 10 x"

definition ch :: "w32 \<Rightarrow> w32 \<Rightarrow> w32 \<Rightarrow> w32" where "ch e f g = (e AND f) XOR (NOT e AND g)"
definition maj :: "w32 \<Rightarrow> w32 \<Rightarrow> w32 \<Rightarrow> w32" where "maj a b c = (a AND b) XOR (a AND c) XOR (b AND c)"

text \<open>
  The standard's constants: the first 32 bits of the fractional parts of the cube roots of the
  first 64 primes, and of the square roots of the first eight.  \<open>root_search k b n r\<close> finds the
  integer \<open>k\<close>-th root of \<open>n\<close> bit by bit; for a prime below 512, 36 bits are enough.
\<close>

fun root_search :: "nat \<Rightarrow> nat \<Rightarrow> nat \<Rightarrow> nat \<Rightarrow> nat" where
  "root_search k 0 n r = r"
| "root_search k (Suc b) n r =
     (if (r + 2 ^ b) ^ k \<le> n then root_search k b n (r + 2 ^ b) else root_search k b n r)"

definition is_prime :: "nat \<Rightarrow> bool" where
  "is_prime n \<longleftrightarrow> list_all (\<lambda>d. n mod d \<noteq> 0) [2..<n]"

definition root_fraction :: "nat \<Rightarrow> nat \<Rightarrow> w32" where
  "root_fraction k p = of_nat (root_search k 37 (p * 2 ^ (32 * k)) 0 mod 2 ^ 32)"

definition round_consts :: "w32 list" where
  "round_consts = map (root_fraction 3) (filter is_prime [2..<312])"

type_synonym sha_state = "w32 \<times> w32 \<times> w32 \<times> w32 \<times> w32 \<times> w32 \<times> w32 \<times> w32"

definition init_state :: sha_state where
  "init_state = (let h = root_fraction 2 in (h 2, h 3, h 5, h 7, h 11, h 13, h 17, h 19))"

text \<open>The message schedule, kept newest first: entry \<open>t\<close> is built from entries \<open>t-2, t-7, t-15, t-16\<close>.\<close>

fun schedule :: "nat \<Rightarrow> w32 list \<Rightarrow> w32 list" where
  "schedule 0 ws = ws"
| "schedule (Suc n) ws = schedule n ((small1 (ws ! 1) + ws ! 6 + small0 (ws ! 14) + ws ! 15) # ws)"

definition sha_round :: "sha_state \<Rightarrow> w32 \<times> w32 \<Rightarrow> sha_state" where
  "sha_round st kw = (case st of (a, b, c, d, e, f, g, h) \<Rightarrow>
     let t1 = h + big1 e + ch e f g + fst kw + snd kw; t2 = big0 a + maj a b c
     in (t1 + t2, a, b, c, d + t1, e, f, g))"

definition add_state :: "sha_state \<Rightarrow> sha_state \<Rightarrow> sha_state" where
  "add_state s t = (case (s, t) of ((a, b, c, d, e, f, g, h), (a', b', c', d', e', f', g', h')) \<Rightarrow>
     (a + a', b + b', c + c', d + d', e + e', f + f', g + g', h + h'))"

definition compress :: "sha_state \<Rightarrow> w32 list \<Rightarrow> sha_state" where
  "compress st block =
     add_state st (foldl sha_round st (zip round_consts (rev (schedule 48 (rev block)))))"

subsection \<open>Padding and digest\<close>

definition be_bytes :: "nat \<Rightarrow> nat \<Rightarrow> bytes" where
  "be_bytes k n = map (\<lambda>i. char_of (n div 256 ^ i)) (rev [0..<k])"

definition pad_zeros :: "nat \<Rightarrow> nat" where
  "pad_zeros n = (if n mod 64 \<le> 55 then 55 - n mod 64 else 119 - n mod 64)"

definition sha_pad :: "bytes \<Rightarrow> bytes" where
  "sha_pad m = m @ CHR 0x80 # replicate (pad_zeros (length m)) CHR 0x00 @ be_bytes 8 (8 * length m mod 2 ^ 64)"

fun to_words :: "bytes \<Rightarrow> w32 list" where
  "to_words (a # b # c # d # r) =
     of_nat (((byte a * 256 + byte b) * 256 + byte c) * 256 + byte d) # to_words r"
| "to_words _ = []"

function blocks :: "w32 list \<Rightarrow> w32 list list" where
  "blocks ws = (if length ws < 16 then [] else take 16 ws # blocks (drop 16 ws))"
  by pat_completeness auto
termination by (relation "measure length") auto

declare blocks.simps [simp del]

definition digest_bytes :: "sha_state \<Rightarrow> bytes" where
  "digest_bytes s = (case s of (a, b, c, d, e, f, g, h) \<Rightarrow>
     concat (map (\<lambda>w. be_bytes 4 (unat w)) [a, b, c, d, e, f, g, h]))"

definition Sum256 :: "bytes \<Rightarrow> bytes" where
  "Sum256 m = digest_bytes (foldl compress init_state (blocks (to_words (sha_pad m))))"

definition hex_digit_byte :: "nat \<Rightarrow> char" where
  "hex_digit_byte n = (if n < 10 then char_of (48 + n) else char_of (87 + n))"

definition hex_EncodeToString :: "bytes \<Rightarrow> bytes" where
  "hex_EncodeToString bs = concat (map (\<lambda>c. [hex_digit_byte (byte c div 16), hex_digit_byte (byte c mod 16)]) bs)"

subsection \<open>Shape of the digest\<close>

lemma length_be_bytes [simp]: "length (be_bytes k n) = k"
  by (simp add: be_bytes_def)

lemma length_Sum256 [simp]: "length (Sum256 m) = 32"
  by (simp add: Sum256_def digest_bytes_def split: prod.split)

lemma length_hex: "length (hex_EncodeToString bs) = 2 * length bs"
  by (induction bs) (auto simp: hex_EncodeToString_def)

text \<open>Padding fills whole 64-byte blocks.\<close>

lemma sha_pad_blocks: "64 dvd length (sha_pad m)"
proof -
  have "length (sha_pad m) = length m + pad_zeros (length m) + 9" by (simp add: sha_pad_def)
  moreover have "(length m + pad_zeros (length m) + 9) mod 64 = 0" unfolding pad_zeros_def by presburger
  ultimately show ?thesis by (simp add: dvd_eq_mod_eq_0)
qed

end
