(* ===== verification/Canonical.thy ===== *)
theory Canonical
  imports Go_Json_Print Sha256
begin

text \<open>
  \<^verbatim>\<open>gateway/canonical.go\<close>: decoding with number literals preserved, the canonical encoding
  (Python's \<^verbatim>\<open>json.dumps\<close> with sorted keys, no spaces and ASCII output) and the digest over it.
  The lemmas show that the encoding is itself JSON that decodes to the value it came from, so
  it is injective on decoded values, and that it is printable ASCII.
\<close>

subsection \<open>Decoded values\<close>

text \<open>The dynamic types that \<^verbatim>\<open>any\<close> can hold after decoding; a map is its association list.\<close>

datatype jval =
    VNull
  | VBool bool
  | VNum bytes
  | VStr bytes
  | VArr "jval list"
  | VObj "(bytes \<times> jval) list"

fun to_any :: "json \<Rightarrow> jval" where
  "to_any JNull = VNull"
| "to_any (JBool b) = VBool b"
| "to_any (JNum l) = VNum l"
| "to_any (JStr l) = VStr (unquote l)"
| "to_any (JArr _ vs) = VArr (map to_any vs)"
| "to_any (JObj _ ms) = VObj (build_map (map (\<lambda>(k, v). (unquote k, to_any v)) ms))"

text \<open>
  \<^verbatim>\<open>Decoder.Decode\<close> reads one value and leaves the rest; \<^verbatim>\<open>Decoder.More\<close> is true when the rest
  has a non-space byte other than a closing bracket.
\<close>

definition dec_more :: "bytes \<Rightarrow> bool" where
  "dec_more r = (case skip_ws r of [] \<Rightarrow> False | c # _ \<Rightarrow> c \<noteq> CHR '']'' \<and> c \<noteq> CHR ''}'')"

definition decodeUseNumber :: "bytes \<Rightarrow> jval option" where
  "decodeUseNumber raw =
     (case parse_value maxNestingDepth (skip_ws raw) of
        None \<Rightarrow> None
      | Some (v, r) \<Rightarrow> if dec_more r then None else Some (to_any v))"

subsection \<open>The canonical encoding\<close>

definition python_rune :: "nat \<Rightarrow> bytes" where
  "python_rune r =
     (if r = 0x22 then [BSLASH, QUOTE]
      else if r = 0x5C then [BSLASH, BSLASH]
      else if r = 0x0A then [BSLASH, CHR ''n'']
      else if r = 0x0D then [BSLASH, CHR ''r'']
      else if r = 0x09 then [BSLASH, CHR ''t'']
      else if r = 0x08 then [BSLASH, CHR ''b'']
      else if r = 0x0C then [BSLASH, CHR ''f'']
      else if 0x20 \<le> r \<and> r \<le> 0x7e then [char_of r]
      else if r \<le> 0xffff then u_escape r
      else (let (hi, lo) = utf16_encode r in u_escape hi @ u_escape lo))"

definition appendPythonString :: "bytes \<Rightarrow> bytes \<Rightarrow> bytes" where
  "appendPythonString dst s = dst @ [QUOTE] @ concat (map python_rune (runes s)) @ [QUOTE]"

definition python_string :: "bytes \<Rightarrow> bytes option" where
  "python_string s = (if RuneError \<in> set (runes s) then None else Some (appendPythonString [] s))"

text \<open>
  The text appended for one value; \<open>None\<close> is \<^verbatim>\<open>errReplacementChar\<close>.  The members of a map are
  encoded in the order of their sorted keys.
\<close>

definition encode_member :: "bytes \<times> bytes option \<Rightarrow> bytes option" where
  "encode_member m = (case m of (k, ov) \<Rightarrow>
     do { ks \<leftarrow> python_string k; v \<leftarrow> ov; Some (ks @ '':'' @ v) })"

fun canonical :: "jval \<Rightarrow> bytes option" where
  "canonical VNull = Some ''null''"
| "canonical (VBool b) = Some (if b then ''true'' else ''false'')"
| "canonical (VNum l) = Some l"
| "canonical (VStr s) = python_string s"
| "canonical (VArr vs) =
     map_option (\<lambda>cs. ''['' @ join '','' cs @ '']'') (those (map canonical vs))"
| "canonical (VObj ms) =
     map_option (\<lambda>cs. ''{'' @ join '','' cs @ ''}'')
       (those (map encode_member (sort_key fst (map (\<lambda>(k, v). (k, canonical v)) ms))))"

definition canonicalAppend :: "bytes \<Rightarrow> jval \<Rightarrow> bytes option" where
  "canonicalAppend dst v = map_option (\<lambda>c. dst @ c) (canonical v)"

definition sentinelHash :: "bytes \<Rightarrow> bytes" where
  "sentinelHash c = ''sha256:'' @ hex_EncodeToString (Sum256 c)"

subsection \<open>Encoded strings are string literals that decode back\<close>

lemma runeE:
  assumes "is_scalar r"
  obtains "r < 0x80" | "0x80 \<le> r" "r \<le> 0xffff" "\<not> is_surrogate r" | "0x10000 \<le> r" "r \<le> 0x10FFFF"
  using assms by (fastforce simp: is_scalar_def is_surrogate_def)

lemma unq_python_rune:
  assumes "is_scalar r"
  shows "unq (python_rune r @ b) = EncodeRune r @ unq b"
  using assms
proof (cases rule: runeE)
  case 1
  then show ?thesis
    by (auto simp: python_rune_def unq.simps(2) unescape_def EncodeRune_ascii of_char_of char_of_iff unq_u_escape is_surrogate_def)
next
  case 2
  then show ?thesis by (simp add: python_rune_def unq_u_escape)
next
  case 3
  obtain hi lo where e: "utf16_encode r = (hi, lo)" by fastforce
  with 3 have p: "surrogate_pair hi lo" "utf16_decode hi lo = r" using utf16_decode_encode by blast+
  then have "is_surrogate hi" "hi < 65536" "lo < 65536" by (auto simp: surrogate_pair_def is_surrogate_def)
  with p 3 e show ?thesis
    by (simp add: python_rune_def u_escape_def unq.simps(2) [of BSLASH] getu4_hex4 low_half_def)
qed

lemma str_body_python_rune:
  assumes "is_scalar r" "str_body b"
  shows "str_body (python_rune r @ b)"
  using assms(1)
proof (cases rule: runeE)
  case 1
  then show ?thesis using assms(2)
    by (auto simp: python_rune_def of_char_of char_of_iff simple_escape_def str_body_u_escape intro!: body_plain body_esc)
next
  case 2
  then show ?thesis using assms(2) by (simp add: python_rune_def str_body_u_escape)
next
  case 3
  then show ?thesis using assms(2) by (auto simp: python_rune_def str_body_u_escape split: prod.split)
qed

lemma str_body_python: "\<forall>r \<in> set rs. is_scalar r \<Longrightarrow> str_body (concat (map python_rune rs))"
  by (induction rs) (simp_all add: str_body_python_rune)

lemma unq_python: "\<forall>r \<in> set rs. is_scalar r \<Longrightarrow> unq (concat (map python_rune rs)) = utf8 rs"
  by (induction rs) (simp_all add: unq_python_rune)

lemma python_string_lit:
  assumes "python_string s = Some l"
  shows "str_lit l" and "valid_utf8 s \<Longrightarrow> unquote l = s"
proof -
  let ?b = "concat (map python_rune (runes s))"
  have l: "l = QUOTE # ?b @ [QUOTE]"
    using assms by (simp add: python_string_def appendPythonString_def split: if_splits)
  have r: "\<forall>r \<in> set (runes s). is_scalar r" using runes_scalar by blast
  show "str_lit l" using l str_body_python [OF r] str_lit_body by blast
  show "valid_utf8 s \<Longrightarrow> unquote l = s" using l unq_python [OF r] by (simp add: valid_utf8_def)
qed

subsection \<open>The encoding is JSON for the same value\<close>

lemma those_choose:
  assumes "\<And>x y. x \<in> set xs \<Longrightarrow> f x = Some y \<Longrightarrow> \<exists>z. P z \<and> g z = y \<and> h z = x" "those (map f xs) = Some ys"
  shows "\<exists>zs. (\<forall>z \<in> set zs. P z) \<and> map g zs = ys \<and> map h zs = xs"
  using assms
proof (induction xs arbitrary: ys)
  case (Cons x xs)
  then obtain y ys' where y: "f x = Some y" "those (map f xs) = Some ys'" "ys = y # ys'"
    by (auto split: option.splits)
  obtain z where z: "P z" "g z = y" "h z = x" using Cons.prems(1) [OF _ y(1)] by auto
  obtain zs where "\<forall>z \<in> set zs. P z" "map g zs = ys'" "map h zs = xs"
    using Cons.IH [OF _ y(2)] Cons.prems(1) by auto
  with z y(3) show ?case by (intro exI [of _ "z # zs"]) simp
qed simp

lemma sort_key_map_wf: "map_wf m \<Longrightarrow> sort_key fst (map (\<lambda>(k, v). (k, f v)) m) = map (\<lambda>(k, v). (k, f v)) m"
proof (induction m)
  case (Cons kv m)
  obtain k v where kv: "kv = (k, v)" by fastforce
  have wf: "map_wf m" "\<forall>x \<in> fst ` set m. k < x" using Cons.prems kv by (auto simp: map_wf_def)
  then show ?case using Cons.IH kv by (cases m) (auto simp: less_imp_le)
qed simp

lemma build_map_id: "map_wf m \<Longrightarrow> build_map m = m"
  using map_wf_distinct [of m] map_of_inject_set [of "rev m" m]
  by (intro map_wf_eq) (simp_all add: map_wf_build map_of_build rev_map [symmetric])

lemma canonical_obj_wf:
  "map_wf m \<Longrightarrow> canonical (VObj m) =
     map_option (\<lambda>cs. ''{'' @ join '','' cs @ ''}'') (those (map (\<lambda>(k, v). encode_member (k, canonical v)) m))"
  using sort_key_map_wf [of m canonical] by (simp add: comp_def case_prod_unfold)

lemma canonical_node:
  "node d j \<Longrightarrow> canonical (to_any j) = Some s \<Longrightarrow> \<exists>j'. node d j' \<and> raw_of j' = s \<and> to_any j' = to_any j"
proof (induction j arbitrary: d s)
  case (JStr l)
  then have l: "str_lit l" by (simp add: str_lit_JStr)
  have "str_lit s" "unquote s = unquote l"
    using JStr.prems(2) python_string_lit valid_utf8_unquote [OF l] by auto
  then show ?case using str_lit_node by (intro exI [of _ "JStr s"]) simp
next
  case (JArr t vs)
  from JArr.prems(1) obtain d' where d: "d = Suc d'" "\<forall>v \<in> set vs. node d' v" by (rule node_arrayD)
  from JArr.prems(2) obtain cs where cs: "those (map canonical (map to_any vs)) = Some cs"
    and s: "s = ''['' @ join '','' cs @ '']''" by auto
  have "\<exists>z. node d' z \<and> raw_of z = y \<and> to_any z = x"
    if "x \<in> set (map to_any vs)" "canonical x = Some y" for x y
    using that JArr.IH d(2) by fastforce
  from those_choose [OF this cs] obtain js where
    js: "\<forall>z \<in> set js. node d' z" "map raw_of js = cs" "map to_any js = map to_any vs" by blast
  from node_array [OF js(1)] show ?case
    using js d(1) s by (intro exI [of _ "JArr s js"]) (auto simp: comp_def)
next
  case (JObj t ms)
  from JObj.prems(1) obtain d' where d: "d = Suc d'" "\<forall>(k, v) \<in> set ms. str_lit k \<and> node d' v" by (rule node_objectD)
  define m where "m = build_map (map (\<lambda>(k, v). (unquote k, to_any v)) ms)"
  have wf: "map_wf m" by (simp add: m_def map_wf_build)
  from JObj.prems(2) obtain cs where cs: "those (map (\<lambda>(k, v). encode_member (k, canonical v)) m) = Some cs"
    and s: "s = ''{'' @ join '','' cs @ ''}''"
    unfolding to_any.simps m_def [symmetric] canonical_obj_wf [OF wf] by auto
  have "\<exists>z. (case z of (k, v) \<Rightarrow> str_lit k \<and> node d' v) \<and> (case z of (k, v) \<Rightarrow> k @ '':'' @ raw_of v) = y \<and>
      (case z of (k, v) \<Rightarrow> (unquote k, to_any v)) = x"
    if "x \<in> set m" "(case x of (k, v) \<Rightarrow> encode_member (k, canonical v)) = Some y" for x y
  proof -
    from that(1) build_map_values obtain k v where kv: "(k, v) \<in> set ms" "x = (unquote k, to_any v)"
      by (fastforce simp: m_def)
    with d(2) have l: "str_lit k" "node d' v" by auto
    from that(2) kv(2) obtain ks c where c: "python_string (unquote k) = Some ks" "canonical (to_any v) = Some c"
      "y = ks @ '':'' @ c" by (auto simp: encode_member_def)
    obtain j' where "node d' j'" "raw_of j' = c" "to_any j' = to_any v"
      using JObj.IH [of "(k, v)" v d' c] kv(1) l c(2) by (auto simp: snds.simps)
    with c python_string_lit [OF c(1)] valid_utf8_unquote [OF l(1)] kv(2)
    show ?thesis by (intro exI [of _ "(ks, j')"]) simp
  qed
  from those_choose [OF this cs] obtain js where
    js: "\<forall>(k, v) \<in> set js. str_lit k \<and> node d' v" "map (\<lambda>(k, v). k @ '':'' @ raw_of v) js = cs"
      "map (\<lambda>(k, v). (unquote k, to_any v)) js = m" by blast
  from node_object [OF js(1)] show ?case
    using js d(1) s wf by (intro exI [of _ "JObj s js"]) (simp add: build_map_id m_def [symmetric])
qed auto

lemma decodeUseNumber_node: "decodeUseNumber raw = Some v \<Longrightarrow> \<exists>j. node maxNestingDepth j \<and> v = to_any j"
  by (auto simp: decodeUseNumber_def intro: parse_value_node split: option.splits prod.splits if_splits)

lemma node_decodeUseNumber: "node maxNestingDepth j \<Longrightarrow> decodeUseNumber (raw_of j) = Some (to_any j)"
proof -
  assume n: "node maxNestingDepth j"
  then have "\<not> is_ws (hd (raw_of j))" by (simp add: node_accepts accepts_def)
  with n show ?thesis by (simp add: decodeUseNumber_def node_def skip_ws_id dec_more_def)
qed

lemma canonical_decodes:
  assumes "decodeUseNumber raw = Some v" "canonical v = Some c"
  shows "decodeUseNumber c = Some v"
proof -
  from assms(1) obtain j where j: "node maxNestingDepth j" "v = to_any j" using decodeUseNumber_node by blast
  with assms(2) canonical_node [OF j(1)] obtain j' where
    "node maxNestingDepth j'" "raw_of j' = c" "to_any j' = v" by auto
  with node_decodeUseNumber [of j'] show ?thesis by simp
qed

text \<open>
  C32. The canonical encoding of a decoded value is a JSON document that decodes to that very
  value, so no information that takes part in the hash is lost.
\<close>

theorem canonical_roundtrip:
  assumes "decodeUseNumber raw = Some v" "canonicalAppend dst v = Some c"
  shows "\<exists>c'. c = dst @ c' \<and> decodeUseNumber c' = Some v"
proof -
  from assms(2) obtain c' where "canonical v = Some c'" "c = dst @ c'" by (auto simp: canonicalAppend_def)
  with canonical_decodes [OF assms(1)] show ?thesis by blast
qed

theorem canonical_roundtrip_witness:
  "\<exists>c'. ''[{},1e2]'' = c' \<and> decodeUseNumber c' = Some (VArr [VObj [], VNum ''1e2''])"
proof -
  have 1: "decodeUseNumber '' [ {},1e2 ]'' = Some (VArr [VObj [], VNum ''1e2''])" by code_simp
  have 2: "canonicalAppend [] (VArr [VObj [], VNum ''1e2'']) = Some ''[{},1e2]''" by code_simp
  from canonical_roundtrip [OF 1 2] show ?thesis by simp
qed

subsection \<open>The encoding is printable ASCII\<close>

definition printable :: "char \<Rightarrow> bool" where
  "printable c \<longleftrightarrow> 0x20 \<le> byte c \<and> byte c \<le> 0x7e"

abbreviation plain :: "bytes \<Rightarrow> bool" where "plain s \<equiv> list_all printable s"

lemma printable_consts [simp]:
  "printable QUOTE" "printable BSLASH" "printable CHR ''n''" "printable CHR ''r''" "printable CHR ''t''"
  "printable CHR ''b''" "printable CHR ''f''" "printable CHR ''u''" "printable CHR '',''" "printable CHR '':''"
  "printable CHR ''[''" "printable CHR '']''" "printable CHR ''{''" "printable CHR ''}''"
  by (simp_all add: printable_def)

lemma printable_char_of: "0x20 \<le> r \<Longrightarrow> r \<le> 0x7e \<Longrightarrow> printable (char_of (r :: nat))"
  by (simp add: printable_def of_char_of)

lemma plain_u_escape [simp]: "plain (u_escape n)"
proof -
  have "printable (hex_digit m)" if "m < 16" for m
    using that by (simp add: hex_digit_def printable_char_of)
  then show ?thesis by (simp add: u_escape_def hex4_def)
qed

lemma plain_python_rune [simp]: "plain (python_rune r)"
  by (simp add: python_rune_def printable_char_of split: prod.split)

lemma plain_python_string: "python_string s = Some l \<Longrightarrow> plain l"
proof -
  have "plain (concat (map python_rune rs))" for rs by (induction rs) simp_all
  then show "python_string s = Some l \<Longrightarrow> plain l"
    by (auto simp: python_string_def appendPythonString_def split: if_splits)
qed

lemma plain_join: "\<forall>c \<in> set cs. plain c \<Longrightarrow> plain (join '','' cs)"
  by (induction "'',''" cs rule: join.induct) simp_all

lemma scan_num_printable: "scan_num s = Some (l, r) \<Longrightarrow> plain l"
proof -
  have "\<forall>c \<in> set ''0123456789.eE+-''. printable c" by code_simp
  then have pr: "printable c" if "num_char c" for c using that by (simp only: num_char_def)
  have zero: "is_digit CHR ''0''" by (simp add: is_digit_def)
  have d: "list_all num_char (takeWhile is_digit x)" for x
    using takeWhile_digits is_digit_num by (auto simp: list_all_iff)
  have i: "scan_int x = Some (y, z) \<Longrightarrow> list_all num_char y" for x y z
    using d is_digit_num is_digit_num [of "CHR ''0''"] zero by (cases x) (auto simp: scan_int_def split: if_splits)
  have f: "scan_frac x = Some (y, z) \<Longrightarrow> list_all num_char y" for x y z
    using d by (cases x) (auto simp: scan_frac_def num_char_def split: if_splits)
  have sg: "exp_sign x = (y, z) \<Longrightarrow> list_all num_char y" for x y z
    by (cases x) (auto simp: exp_sign_def num_char_def split: if_splits)
  have e: "scan_exp x = Some (y, z) \<Longrightarrow> list_all num_char y" for x y z
    using d sg by (cases x) (auto simp: scan_exp_def num_char_def split: if_splits prod.splits)
  assume "scan_num s = Some (l, r)"
  then have "list_all num_char l"
    using i f e by (cases s) (auto simp: scan_num_def num_char_def split: if_splits)
  then show ?thesis using pr by (auto simp: list_all_iff)
qed

lemma node_num: "node d (JNum l) \<Longrightarrow> plain l"
proof -
  assume "node d (JNum l)"
  then have "parse_scalar l = Some (JNum l, []) \<or> (\<exists>d'. parse_container (parse_value d') l = Some (JNum l, []))"
    by (cases d) (auto simp: node_def split: if_splits)
  then have "parse_scalar l = Some (JNum l, [])" using container_children by blast
  then show ?thesis
    by (cases l) (auto simp: parse_scalar_def split: if_splits dest: scan_num_printable)
qed

lemma canonical_plain: "node d j \<Longrightarrow> canonical (to_any j) = Some s \<Longrightarrow> plain s"
proof (induction j arbitrary: d s)
  case (JBool b)
  then show ?case by (cases b) (auto simp: printable_def)
next
  case (JNum l)
  then show ?case using node_num by auto
next
  case (JStr l)
  then show ?case using plain_python_string by auto
next
  case (JArr t vs)
  from JArr.prems(1) obtain d' where d: "\<forall>v \<in> set vs. node d' v" by (rule node_arrayD)
  from JArr.prems(2) obtain cs where cs: "map canonical (map to_any vs) = map Some cs"
    and s: "s = ''['' @ join '','' cs @ '']''" by (auto simp: those_eq_Some_iff)
  have "\<forall>c \<in> set cs. \<exists>v \<in> set vs. canonical (to_any v) = Some c"
    using arg_cong [OF cs, of set] by (auto simp: image_iff) (metis image_eqI imageE)
  with JArr.IH d have "\<forall>c \<in> set cs. plain c" by blast
  from plain_join [OF this] s show ?case by simp
next
  case (JObj t ms)
  from JObj.prems(1) obtain d' where d: "\<forall>(k, v) \<in> set ms. str_lit k \<and> node d' v" by (rule node_objectD)
  define m where "m = build_map (map (\<lambda>(k, v). (unquote k, to_any v)) ms)"
  have wf: "map_wf m" by (simp add: m_def map_wf_build)
  from JObj.prems(2) obtain cs where cs: "map (\<lambda>(k, v). encode_member (k, canonical v)) m = map Some cs"
    and s: "s = ''{'' @ join '','' cs @ ''}''"
    unfolding to_any.simps m_def [symmetric] canonical_obj_wf [OF wf] by (auto simp: those_eq_Some_iff)
  have "plain c" if "c \<in> set cs" for c
  proof -
    have "Some c \<in> set (map (\<lambda>(k, v). encode_member (k, canonical v)) m)" using that cs by simp
    then obtain k v where kv: "(k, v) \<in> set m" "encode_member (k, canonical v) = Some c" by auto
    from kv(1) build_map_values obtain k0 v0 where v0: "(k0, v0) \<in> set ms" "v = to_any v0"
      by (fastforce simp: m_def)
    from kv(2) obtain ks e where e: "python_string k = Some ks" "canonical v = Some e" "c = ks @ '':'' @ e"
      by (auto simp: encode_member_def)
    have "plain e" using JObj.IH [of "(k0, v0)" v0 d' e] d v0 e(2) by (auto simp: snds.simps)
    with e plain_python_string show ?thesis by simp
  qed
  then show ?case using plain_join s by simp
qed (auto simp: printable_def)

text \<open>
  Whatever bytes the upstream sent, the canonical encoding that is hashed consists of
  printable ASCII only (\<^verbatim>\<open>ensure_ascii=True\<close>).
\<close>

theorem canonical_ascii:
  assumes "decodeUseNumber raw = Some v" "canonicalAppend [] v = Some c"
  shows "list_all (\<lambda>b. 0x20 \<le> byte b \<and> byte b \<le> 0x7e) c"
proof -
  from assms(1) obtain j where "node maxNestingDepth j" "v = to_any j" using decodeUseNumber_node by blast
  with assms(2) canonical_plain [of maxNestingDepth j c] show ?thesis
    by (simp add: canonicalAppend_def option.map_ident printable_def list_all_iff)
qed

theorem canonical_ascii_witness:
  "list_all (\<lambda>b. 0x20 \<le> byte b \<and> byte b \<le> 0x7e)
     (QUOTE # BSLASH # ''ud83d'' @ BSLASH # ''ude00'' @ BSLASH # ''u007f'' @ [BSLASH, CHR ''n'', QUOTE])"
proof -
  have 1: "decodeUseNumber [QUOTE, CHR 0xF0, CHR 0x9F, CHR 0x98, CHR 0x80, CHR 0x7F, BSLASH, CHR ''n'', QUOTE] =
      Some (VStr [CHR 0xF0, CHR 0x9F, CHR 0x98, CHR 0x80, CHR 0x7F, LF])" by code_simp
  have 2: "canonicalAppend [] (VStr [CHR 0xF0, CHR 0x9F, CHR 0x98, CHR 0x80, CHR 0x7F, LF]) =
      Some (QUOTE # BSLASH # ''ud83d'' @ BSLASH # ''ude00'' @ BSLASH # ''u007f'' @ [BSLASH, CHR ''n'', QUOTE])"
    by code_simp
  from canonical_ascii [OF 1 2] show ?thesis .
qed

subsection \<open>Injectivity\<close>

lemma canonical_inj:
  assumes "node d j" "node d k" "canonical (to_any j) = Some c" "canonical (to_any k) = Some c"
  shows "to_any j = to_any k"
proof -
  from canonical_node [OF assms(1,3)] obtain j' where j: "node d j'" "raw_of j' = c" "to_any j' = to_any j" by blast
  from canonical_node [OF assms(2,4)] obtain k' where k: "node d k'" "raw_of k' = c" "to_any k' = to_any k" by blast
  have "parse_value d c = Some (j', [])" "parse_value d c = Some (k', [])"
    using j(1) k(1) unfolding node_def j(2) k(2) .
  then have "j' = k'" by (metis option.inject prod.inject)
  then show ?thesis using j(3) k(3) by simp
qed

lemma sort_key_unique:
  assumes "distinct (map fst xs)" "map_wf ys" "set xs = set ys"
  shows "sort_key fst xs = ys"
proof -
  have d: "distinct (map fst (sort_key fst xs))" using assms(1) by (simp add: distinct_map)
  then have "map_wf (sort_key fst xs)" by (simp add: map_wf_def strict_sorted_iff)
  moreover have "map_of (sort_key fst xs) = map_of ys"
    using map_of_inject_set [OF d map_wf_distinct [OF assms(2)]] assms(3) by simp
  ultimately show ?thesis using map_wf_eq assms(2) by blast
qed

text \<open>The encoding of a map does not depend on the order in which its members are visited.\<close>

lemma canonical_obj_perm:
  assumes "distinct (map fst m)" "map_wf m'" "set m = set m'"
  shows "canonical (VObj m) = canonical (VObj m')"
proof -
  let ?f = "map (\<lambda>(k, v). (k, canonical v))"
  have k: "map fst (?f x) = map fst x" for x by (induction x) auto
  have "sort_key fst (?f m) = ?f m'"
    using assms by (intro sort_key_unique) (simp_all add: map_wf_def k del: map_map)
  then show ?thesis using sort_key_map_wf [OF assms(2), of canonical] by (simp only: canonical.simps)
qed

end
