(* ===== verification/Go_Decode.thy ===== *)
theory Go_Decode
  imports Go_Json_Print
begin

text \<open>
  The rest of what the gateway uses of \<^verbatim>\<open>encoding/json\<close> and \<^verbatim>\<open>strconv\<close>: struct fields of type
  \<^verbatim>\<open>int\<close>, \<^verbatim>\<open>*string\<close>, \<^verbatim>\<open>[]string\<close> and of map types, and \<^verbatim>\<open>strconv.Quote\<close>.  What a run of
  the program takes from its environment and no source text fixes is the record \<open>go_rt\<close>.
\<close>

subsection \<open>Run-time parameters\<close>

text \<open>
  \<open>json_err\<close> is the error text of \<^verbatim>\<open>json.Unmarshal\<close> on a document, \<open>is_print\<close> the table
  \<^verbatim>\<open>strconv.IsPrint\<close> above ASCII, \<open>map_order\<close> the order in which a \<^verbatim>\<open>range\<close> over a map visits its
  keys, \<open>scan_answer n content\<close> what the scanner coprocess answers to the \<open>n\<close>-th frame of a
  request: an I/O or timeout error text, or a line.
\<close>

record go_rt =
  json_err :: "bytes \<Rightarrow> bytes"
  is_print :: "nat \<Rightarrow> bool"
  map_order :: "bytes list \<Rightarrow> bytes list"
  scan_answer :: "nat \<Rightarrow> bytes \<Rightarrow> bytes + bytes"

subsection \<open>Struct fields\<close>

text \<open>
  The fields of a struct that \<^verbatim>\<open>json.Unmarshal\<close> fills.  Each step function takes the current value and
  one matching member; \<open>None\<close> is the decoding error.
\<close>

definition assign_field :: "('a \<Rightarrow> json \<Rightarrow> 'a option) \<Rightarrow> 'a \<Rightarrow> bytes \<Rightarrow> (bytes \<times> json) list \<Rightarrow> 'a option" where
  "assign_field step init f ms =
     foldl (\<lambda>acc v. Option.bind acc (\<lambda>cur. step cur v)) (Some init) (field_members f ms)"

text \<open>An \<^verbatim>\<open>int\<close>: an integer literal in the range of 64 bits; \<^verbatim>\<open>1.0\<close> and \<^verbatim>\<open>1e0\<close> are errors.\<close>

definition digits_val :: "bytes \<Rightarrow> int" where
  "digits_val s = foldl (\<lambda>n c. 10 * n + (int (byte c) - 48)) 0 s"

definition ParseInt :: "bytes \<Rightarrow> int option" where
  "ParseInt l =
     (let neg = prefix ''-'' l; ds = (if neg then tl l else l);
          n = (if neg then - digits_val ds else digits_val ds) in
      if ds \<noteq> [] \<and> list_all is_digit ds \<and> - (2 ^ 63) \<le> n \<and> n < 2 ^ 63 then Some n else None)"

fun int_step :: "int \<Rightarrow> json \<Rightarrow> int option" where
  "int_step cur (JNum l) = ParseInt l"
| "int_step cur JNull = Some cur"
| "int_step cur _ = None"

fun string_step :: "bytes \<Rightarrow> json \<Rightarrow> bytes option" where
  "string_step cur (JStr l) = Some (unquote l)"
| "string_step cur JNull = Some cur"
| "string_step cur _ = None"

fun string_ptr_step :: "bytes option \<Rightarrow> json \<Rightarrow> bytes option option" where
  "string_ptr_step cur (JStr l) = Some (Some (unquote l))"
| "string_ptr_step cur JNull = Some None"
| "string_ptr_step cur _ = None"

fun strings_step :: "bytes list option \<Rightarrow> json \<Rightarrow> bytes list option option" where
  "strings_step cur (JArr _ vs) = map_option Some (those (map string_of vs))"
| "strings_step cur JNull = Some None"
| "strings_step cur _ = None"

text \<open>A map field: members merge into the map already there, \<^verbatim>\<open>null\<close> makes it nil.\<close>

fun raw_map_step :: "(bytes \<times> bytes) list option \<Rightarrow> json \<Rightarrow> (bytes \<times> bytes) list option option" where
  "raw_map_step cur (JObj _ ms) =
     Some (Some (fold (\<lambda>(k, v). map_set (unquote k) (raw_of v)) ms (case cur of None \<Rightarrow> [] | Some m \<Rightarrow> m)))"
| "raw_map_step cur JNull = Some None"
| "raw_map_step cur _ = None"

fun string_map_step :: "(bytes \<times> bytes) list option \<Rightarrow> json \<Rightarrow> (bytes \<times> bytes) list option option" where
  "string_map_step cur (JObj _ ms) =
     map_option (\<lambda>kvs. Some (fold (\<lambda>(k, v). map_set k v) kvs (case cur of None \<Rightarrow> [] | Some m \<Rightarrow> m)))
       (those (map (\<lambda>(k, v). map_option (Pair (unquote k)) (string_of v)) ms))"
| "string_map_step cur JNull = Some None"
| "string_map_step cur _ = None"

subsection \<open>Quote\<close>

definition hex2 :: "nat \<Rightarrow> bytes" where
  "hex2 n = [hex_digit (n div 16 mod 16), hex_digit (n mod 16)]"

definition quote_rune :: "(nat \<Rightarrow> bool) \<Rightarrow> nat \<Rightarrow> bytes" where
  "quote_rune prn r =
     (if r = 0x22 \<or> r = 0x5C then [BSLASH, char_of r]
      else if (if r < 0x80 then 0x20 \<le> r \<and> r \<le> 0x7e else prn r) then EncodeRune r
      else if r = 7 then [BSLASH, CHR ''a'']
      else if r = 8 then [BSLASH, CHR ''b'']
      else if r = 12 then [BSLASH, CHR ''f'']
      else if r = 10 then [BSLASH, CHR ''n'']
      else if r = 13 then [BSLASH, CHR ''r'']
      else if r = 9 then [BSLASH, CHR ''t'']
      else if r = 11 then [BSLASH, CHR ''v'']
      else if r < 0x20 \<or> r = 0x7f then BSLASH # CHR ''x'' # hex2 r
      else if r < 0x10000 then u_escape r
      else BSLASH # CHR ''U'' # hex4 (r div 65536) @ hex4 r)"

fun quote_body :: "(nat \<Rightarrow> bool) \<Rightarrow> bytes \<Rightarrow> bytes" where
  "quote_body prn [] = []"
| "quote_body prn (c # cs) =
     (let (r, n) = DecodeRune (c # cs) in
      (if r = RuneError \<and> n = 1 then BSLASH # CHR ''x'' # hex2 (byte c) else quote_rune prn r)
        @ quote_body prn (drop (n - 1) cs))"

definition Quote :: "(nat \<Rightarrow> bool) \<Rightarrow> bytes \<Rightarrow> bytes" where
  "Quote prn s = QUOTE # quote_body prn s @ [QUOTE]"

subsection \<open>Texts built from nodes\<close>

lemma maxNestingDepth_Suc: "maxNestingDepth = Suc (maxNestingDepth - 1)"
  by (simp add: maxNestingDepth_def)

lemma unmarshal_struct_members:
  assumes "unmarshal_struct s = Some ms"
  shows "\<forall>(k, v) \<in> set ms. str_lit k \<and> node (maxNestingDepth - 1) v"
proof -
  from assms obtain v where v: "json_parse s = Some v" "struct_members v = Some ms" by (auto simp: unmarshal_struct_def)
  have n: "node maxNestingDepth v" using v(1) json_parse_node by blast
  show ?thesis
  proof (cases v)
    case (JObj t ms')
    from n [unfolded JObj] obtain d' where "maxNestingDepth = Suc d'" "\<forall>(k, v) \<in> set ms'. str_lit k \<and> node d' v"
      by (rule node_objectD)
    moreover from this(1) have "d' = maxNestingDepth - 1" by simp
    ultimately show ?thesis using JObj v(2) by simp
  qed (use v(2) in auto)
qed

lemma node_raw_ne: "node d v \<Longrightarrow> raw_of v \<noteq> []"
  by (simp add: node_accepts accepts_def)

lemma field_rawE:
  assumes "unmarshal_struct s = Some ms" "field_raw f ms \<noteq> []"
  obtains v where "field_raw f ms = raw_of v" "node (maxNestingDepth - 1) v"
proof -
  obtain v vs where v: "rev (field_members f ms) = v # vs" using assms(2) by (auto simp: field_raw_def split: list.splits)
  then have "v \<in> set (field_members f ms)" by (metis list.set_intros(1) set_rev)
  moreover have "field_raw f ms = raw_of v" by (simp add: field_raw_def v)
  ultimately show ?thesis using unmarshal_struct_members [OF assms(1)] that by (auto simp: field_members_def)
qed

lemma unmarshal_struct_object:
  assumes "\<forall>(k, v) \<in> set ms. str_lit k \<and> node d v" "d < maxNestingDepth"
  shows "unmarshal_struct (''{'' @ join '','' (map (\<lambda>(k, v). k @ '':'' @ raw_of v) ms) @ ''}'') = Some ms"
  using node_json_parse [OF node_object [OF assms(1)]] assms(2) by (simp add: unmarshal_struct_def)

subsection \<open>Printed integers\<close>

lemma digit_chars: "n < 10 \<Longrightarrow> is_digit (char_of (48 + n))" "n < 10 \<Longrightarrow> byte (char_of (48 + n)) = 48 + n"
  by (simp_all add: is_digit_def of_char_of)

lemma nat_digits_digits: "list_all is_digit (nat_digits n)"
  by (induction n rule: nat_digits.induct) (subst nat_digits.simps, simp add: digit_chars)

lemma nat_digits_ne [simp]: "nat_digits n \<noteq> []"
  by (subst nat_digits.simps) simp

lemma nat_digits_lead: "0 < n \<Longrightarrow> hd (nat_digits n) \<noteq> CHR ''0''"
proof (induction n rule: nat_digits.induct)
  case (1 n)
  show ?case
  proof (cases "n < 10")
    case True
    then have "nat_digits n = [char_of (48 + n)]" by (subst nat_digits.simps) simp
    moreover have "char_of (48 + n) \<noteq> CHR ''0''" using True 1(2) by (simp add: char_of_iff)
    ultimately show ?thesis by simp
  next
    case False
    then have "nat_digits n = nat_digits (n div 10) @ [char_of (48 + n mod 10)]" by (subst nat_digits.simps) simp
    with False 1(1) show ?thesis by (simp add: div_greater_zero_iff)
  qed
qed

lemma scan_int_digits: "scan_int (nat_digits n) = Some (nat_digits n, [])"
proof (cases "n = 0")
  case True
  then have "nat_digits n = ''0''" by (subst nat_digits.simps) (simp add: char_of_iff)
  then show ?thesis by (simp add: scan_int_def)
next
  case False
  obtain c cs where c: "nat_digits n = c # cs" by (cases "nat_digits n") auto
  have d: "is_digit c" "list_all is_digit cs" using nat_digits_digits [of n] c by simp_all
  then have "takeWhile is_digit cs = cs" "dropWhile is_digit cs = []"
    by (simp_all add: takeWhile_eq_all_conv dropWhile_eq_Nil_conv list_all_iff)
  moreover have "c \<noteq> CHR ''0''" using nat_digits_lead [of n] False c by simp
  ultimately show ?thesis using c d by (simp add: scan_int_def)
qed

lemma digits_not_minus: "hd (nat_digits n) \<noteq> CHR ''-''"
proof -
  have "is_digit (hd (nat_digits n))" using nat_digits_digits [of n] by (cases "nat_digits n") auto
  then show ?thesis by (auto simp: is_digit_def)
qed

lemma scan_num_Itoa: "scan_num (Itoa i) = Some (Itoa i, [])"
proof -
  have e: "scan_frac [] = Some ([], [])" "scan_exp [] = Some ([], [])" by (simp_all add: scan_frac_def scan_exp_def)
  show ?thesis
    using scan_int_digits [of "nat i"] scan_int_digits [of "nat (- i)"] digits_not_minus [of "nat i"] e
    by (cases "nat_digits (nat i)") (auto simp: scan_num_def Itoa_def)
qed

lemma Itoa_hd: "Itoa i \<noteq> []" "hd (Itoa i) = CHR ''-'' \<or> is_digit (hd (Itoa i))"
  using nat_digits_digits [of "nat i"] by (cases "nat_digits (nat i)"; simp add: Itoa_def)+

lemma node_Itoa: "node d (JNum (Itoa i))"
proof -
  obtain c cs where c: "Itoa i = c # cs" using Itoa_hd(1) by (cases "Itoa i") auto
  have h: "c = CHR ''-'' \<or> is_digit c" using Itoa_hd(2) [of i] c by simp
  have "\<not> is_digit CHR ''[''" "\<not> is_digit CHR ''{''" "\<not> is_digit QUOTE" "\<not> is_digit CHR ''n''" "\<not> is_digit CHR ''t''" "\<not> is_digit CHR ''f''"
    by (simp_all add: is_digit_def)
  with h have ne: "c \<noteq> CHR ''[''" "c \<noteq> CHR ''{''" "c \<noteq> QUOTE" "c \<noteq> CHR ''n''" "c \<noteq> CHR ''t''" "c \<noteq> CHR ''f''" by auto
  have s: "scan_num (c # cs) = Some (c # cs, [])" using scan_num_Itoa [of i] c by simp
  have "parse_scalar (c # cs) = Some (JNum (c # cs), [])" using h ne s by (simp add: parse_scalar_def)
  moreover have "\<not> is_open (c # cs)" using ne by (simp add: is_open_def)
  ultimately show ?thesis using c by (cases d) (simp_all add: node_def)
qed

lemma digits_val_snoc: "digits_val (ds @ [c]) = 10 * digits_val ds + (int (byte c) - 48)"
  by (simp add: digits_val_def)

lemma digits_val_nat: "digits_val (nat_digits n) = int n"
proof (induction n rule: nat_digits.induct)
  case (1 n)
  show ?case
  proof (cases "n < 10")
    case True
    then have "nat_digits n = [char_of (48 + n)]" by (subst nat_digits.simps) simp
    then show ?thesis using digit_chars(2) [OF True] by (simp add: digits_val_def)
  next
    case False
    then have "nat_digits n = nat_digits (n div 10) @ [char_of (48 + n mod 10)]" by (subst nat_digits.simps) simp
    moreover have "10 * int (n div 10) + int (n mod 10) = int n" by presburger
    ultimately show ?thesis using 1 False digit_chars(2) [of "n mod 10"] by (simp add: digits_val_snoc)
  qed
qed

lemma ParseInt_Itoa: "- (2 ^ 63) \<le> i \<Longrightarrow> i < 2 ^ 63 \<Longrightarrow> ParseInt (Itoa i) = Some i"
proof -
  assume r: "- (2 ^ 63) \<le> i" "i < 2 ^ 63"
  show ?thesis
  proof (cases "i < 0")
    case True
    then show ?thesis using r nat_digits_digits [of "nat (- i)"]
      by (simp add: ParseInt_def Itoa_def Let_def digits_val_nat)
  next
    case False
    obtain c cs where c: "nat_digits (nat i) = c # cs" by (cases "nat_digits (nat i)") auto
    then have "\<not> prefix ''-'' (nat_digits (nat i))" using digits_not_minus [of "nat i"] by simp
    with False show ?thesis using r nat_digits_digits [of "nat i"]
      by (simp add: ParseInt_def Itoa_def Let_def digits_val_nat)
  qed
qed

end
