(* ===== verification/Lock.thy ===== *)
theory Lock
  imports Config Canonical Go_Decode "HOL-Library.Multiset"
begin

text \<open>
  \<^verbatim>\<open>gateway/lock.go\<close>: tool fingerprints, their digests, reading a lockfile and verifying a
  \<^verbatim>\<open>tools/list\<close> result against it.  The file system is a parameter \<open>read_file\<close>, the error text of
  \<^verbatim>\<open>encoding/json\<close> a parameter \<open>je\<close>.  The theorems say exactly when \<open>verify\<close> passes and, for
  digests that do not collide, that what passes is what was locked.
\<close>

subsection \<open>Lockfiles\<close>

definition LockfileVersion :: int where "LockfileVersion = 1"

record lockFile =
  lfVersion :: int
  lfGeneratedBy :: bytes
  lfServers :: "(bytes \<times> bytes) list option"

record lockServer =
  lsCommand :: bytes
  lsArgs :: "bytes list option"
  lsEnvKeys :: "bytes list option"
  lsEntryHash :: bytes
  lsToolsHash :: "bytes option"
  lsURL :: bytes
  lsToolsDetail :: "(bytes \<times> bytes) list option"

datatype lock_error =
    ReadError bytes
  | LockfileUnparseable bytes
  | NoServersTable bytes
  | UnsupportedVersion bytes int
  | NoServer bytes bytes
  | RecordUnparseable bytes bytes
  | NoToolsCapture bytes bytes

definition unmarshal_lockFile :: "bytes \<Rightarrow> lockFile option" where
  "unmarshal_lockFile s =
     do { ms \<leftarrow> unmarshal_struct s;
          v \<leftarrow> assign_field int_step 0 ''lockfileVersion'' ms;
          g \<leftarrow> assign_field string_step [] ''generatedBy'' ms;
          srv \<leftarrow> assign_field raw_map_step None ''servers'' ms;
          Some \<lparr>lfVersion = v, lfGeneratedBy = g, lfServers = srv\<rparr> }"

definition unmarshal_lockServer :: "bytes \<Rightarrow> lockServer option" where
  "unmarshal_lockServer s =
     do { ms \<leftarrow> unmarshal_struct s;
          c \<leftarrow> assign_field string_step [] ''command'' ms;
          a \<leftarrow> assign_field strings_step None ''args'' ms;
          e \<leftarrow> assign_field strings_step None ''envKeys'' ms;
          eh \<leftarrow> assign_field string_step [] ''entryHash'' ms;
          th \<leftarrow> assign_field string_ptr_step None ''toolsHash'' ms;
          u \<leftarrow> assign_field string_step [] ''url'' ms;
          td \<leftarrow> assign_field string_map_step None ''toolsDetail'' ms;
          Some \<lparr>lsCommand = c, lsArgs = a, lsEnvKeys = e, lsEntryHash = eh, lsToolsHash = th,
                lsURL = u, lsToolsDetail = td\<rparr> }"

definition loadLockFile :: "(bytes \<Rightarrow> bytes option) \<Rightarrow> bytes \<Rightarrow> lock_error + lockFile" where
  "loadLockFile read_file path =
     (case read_file path of
        None \<Rightarrow> Inl (ReadError path)
      | Some data \<Rightarrow>
          (case unmarshal_lockFile data of
             None \<Rightarrow> Inl (LockfileUnparseable path)
           | Some lf \<Rightarrow>
               if lfServers lf = None then Inl (NoServersTable path)
               else if lfVersion lf \<noteq> LockfileVersion then Inl (UnsupportedVersion path (lfVersion lf))
               else Inr lf))"

subsection \<open>Tool fingerprints\<close>

record rawTool =
  rtRaw :: bytes
  rtName :: bytes
  rtHash :: bytes

definition toolFingerprint :: "bytes \<Rightarrow> (jval \<times> bytes) option" where
  "toolFingerprint raw =
     do { ms \<leftarrow> unmarshal_struct raw;
          name \<leftarrow> field_str ''name'' ms;
          desc \<leftarrow> field_str ''description'' ms;
          schema \<leftarrow> (let s0 = field_raw ''inputSchema'' ms;
                         s1 = (if s0 = [] then field_raw ''input_schema'' ms else s0)
                     in if s1 = [] then Some (VObj []) else decodeUseNumber s1);
          Some (VObj [(''name'', VStr name), (''description'', VStr desc), (''inputSchema'', schema)], name) }"

definition errReplacementChar :: bytes where
  "errReplacementChar = ''canonical: string contains U+FFFD (invalid UTF-8 or an unpaired surrogate escape); cannot guarantee a hash matching mcp-sentinel''"

fun parseLockTools :: "(bytes \<Rightarrow> bytes) \<Rightarrow> bytes list \<Rightarrow> bytes + rawTool list" where
  "parseLockTools je [] = Inr []"
| "parseLockTools je (el # els) =
     (case toolFingerprint el of
        None \<Rightarrow> Inl (''tool entry unparseable: '' @ je el)
      | Some (fp, name) \<Rightarrow>
          (case canonicalAppend [] fp of
             None \<Rightarrow> Inl errReplacementChar
           | Some buf \<Rightarrow>
               (case parseLockTools je els of
                  Inl e \<Rightarrow> Inl e
                | Inr ts \<Rightarrow> Inr (\<lparr>rtRaw = el, rtName = name, rtHash = sentinelHash buf\<rparr> # ts))))"

text \<open>\<^verbatim>\<open>fp["name"].(string)\<close>, the empty string when it is not one.\<close>

definition fp_name :: "jval \<Rightarrow> bytes" where
  "fp_name fp = (case fp of
     VObj ms \<Rightarrow> (case map_of ms ''name'' of Some (VStr s) \<Rightarrow> s | _ \<Rightarrow> [])
   | _ \<Rightarrow> [])"

fun fingerprints :: "(bytes \<Rightarrow> bytes) \<Rightarrow> bytes list \<Rightarrow> bytes + jval list" where
  "fingerprints je [] = Inr []"
| "fingerprints je (el # els) =
     (case toolFingerprint el of
        None \<Rightarrow> Inl (je el)
      | Some (fp, _) \<Rightarrow> (case fingerprints je els of Inl e \<Rightarrow> Inl e | Inr fps \<Rightarrow> Inr (fp # fps)))"

definition toolsListHash :: "(bytes \<Rightarrow> bytes) \<Rightarrow> bytes list \<Rightarrow> bytes + bytes" where
  "toolsListHash je elems =
     (case fingerprints je elems of
        Inl e \<Rightarrow> Inl e
      | Inr fps \<Rightarrow>
          (case canonicalAppend [] (VArr (sort_key fp_name fps)) of
             None \<Rightarrow> Inl errReplacementChar
           | Some buf \<Rightarrow> Inr (sentinelHash buf)))"

definition emptyEntryHash :: bytes where
  "emptyEntryHash =
     (case canonicalAppend [] (VObj [(''command'', VStr []), (''args'', VArr []), (''envKeys'', VArr [])]) of
        None \<Rightarrow> []
      | Some buf \<Rightarrow> sentinelHash buf)"

subsection \<open>Prepared locks and verification\<close>

record preparedLock =
  plFile :: bytes
  plServer :: bytes
  enforce :: bool
  wholeHash :: bytes
  detail :: "(bytes \<times> bytes) list option"

type_synonym lock_cache = "bytes \<rightharpoonup> lockFile"

definition prepareLock ::
  "(bytes \<Rightarrow> bytes option) \<Rightarrow> Upstream \<Rightarrow> lock_cache \<Rightarrow> (lock_error + preparedLock option) \<times> lock_cache" where
  "prepareLock read_file u cache0 =
     (case ToolsLock u of
        None \<Rightarrow> (Inr None, cache0)
      | Some lc \<Rightarrow>
          (case (case cache0 (lcFile lc) of
                   Some lf \<Rightarrow> Inr (lf, cache0)
                 | None \<Rightarrow>
                     (case loadLockFile read_file (lcFile lc) of
                        Inl e \<Rightarrow> Inl e
                      | Inr lf \<Rightarrow> Inr (lf, cache0(lcFile lc \<mapsto> lf)))) of
             Inl e \<Rightarrow> (Inl e, cache0)
           | Inr (lf, cache) \<Rightarrow>
               (let server = (if lcServer lc = [] then Name u else lcServer lc) in
                case Option.bind (lfServers lf) (\<lambda>m. map_of m server) of
                  None \<Rightarrow> (Inl (NoServer (lcFile lc) server), cache)
                | Some raw \<Rightarrow>
                    (case unmarshal_lockServer raw of
                       None \<Rightarrow> (Inl (RecordUnparseable (lcFile lc) server), cache)
                     | Some rec \<Rightarrow>
                         if lsToolsHash rec = None \<and> (lsToolsDetail rec = None \<or> lsToolsDetail rec = Some [])
                         then (Inl (NoToolsCapture (lcFile lc) server), cache)
                         else (Inr (Some \<lparr>plFile = lcFile lc, plServer = server, enforce = (lcMode lc \<noteq> ''warn''),
                                 wholeHash = (case lsToolsHash rec of None \<Rightarrow> [] | Some h \<Rightarrow> h),
                                 detail = lsToolsDetail rec\<rparr>), cache)))))"

fun verify_tools :: "(bytes \<times> bytes) list \<Rightarrow> rawTool list \<Rightarrow> bytes" where
  "verify_tools m [] = []"
| "verify_tools m (t # ts) =
     (case map_of m (rtName t) of
        None \<Rightarrow> ''tool not in lock: '' @ rtName t
      | Some locked \<Rightarrow>
          if locked \<noteq> rtHash t then ''tool schema drifted from lock: '' @ rtName t
          else verify_tools m ts)"

definition verify :: "(bytes \<Rightarrow> bytes) \<Rightarrow> preparedLock \<Rightarrow> bytes list \<Rightarrow> bytes" where
  "verify je l elems =
     (if detail l \<noteq> None \<and> detail l \<noteq> Some [] then
        (case parseLockTools je elems of
           Inl e \<Rightarrow> ''tools drift check failed: '' @ e
         | Inr tools \<Rightarrow> verify_tools (the (detail l)) tools)
      else
        (case toolsListHash je elems of
           Inl e \<Rightarrow> ''tools drift check failed: '' @ e
         | Inr h \<Rightarrow>
             if h \<noteq> wholeHash l then
               ''tools/list drifted from locked hash (locked '' @ wholeHash l @ '', got '' @ h @ '')''
             else []))"

subsection \<open>What takes part in a fingerprint\<close>

definition fp_of :: "bytes \<Rightarrow> bytes \<Rightarrow> jval \<Rightarrow> jval" where
  "fp_of n d s = VObj [(''name'', VStr n), (''description'', VStr d), (''inputSchema'', s)]"

definition fp_sorted :: "bytes \<Rightarrow> bytes \<Rightarrow> jval \<Rightarrow> (bytes \<times> jval) list" where
  "fp_sorted n d s = [(''description'', VStr d), (''inputSchema'', s), (''name'', VStr n)]"

lemma fp_sorted_wf: "map_wf (fp_sorted n d s)"
proof -
  have "sorted_wrt (<) [''description'', ''inputSchema'', ''name'']" by code_simp
  then show ?thesis by (simp only: map_wf_def fp_sorted_def list.map fst_conv)
qed

lemma canonical_fp: "canonical (fp_of n d s) = canonical (VObj (fp_sorted n d s))"
  unfolding fp_of_def by (rule canonical_obj_perm [OF _ fp_sorted_wf]) (auto simp: fp_sorted_def)

lemma field_str_utf8:
  assumes "\<forall>(k, v) \<in> set ms. node d v" "field_str f ms = Some n"
  shows "valid_utf8 n"
proof -
  have "assign_strings cur vs = Some n \<Longrightarrow> valid_utf8 cur \<Longrightarrow> \<forall>v \<in> set vs. node d v \<Longrightarrow> valid_utf8 n" for cur vs
    by (induction cur vs rule: assign_strings.induct)
      (auto split: json.splits dest: str_lit_JStr valid_utf8_unquote)
  moreover have "\<forall>v \<in> set (field_members f ms). node d v" using assms(1) by (auto simp: field_members_def)
  moreover have "valid_utf8 []" by (simp add: valid_utf8_def)
  ultimately show ?thesis using assms(2) unfolding field_str_def by blast
qed

lemma toolFingerprintE:
  assumes "toolFingerprint el = Some (fp, n)"
  obtains d s j where "fp = fp_of n d s" "valid_utf8 n" "valid_utf8 d" "s = to_any j" "node maxNestingDepth j"
proof -
  from assms obtain ms d s where ms: "unmarshal_struct el = Some ms" and
    n: "field_str ''name'' ms = Some n" and d: "field_str ''description'' ms = Some d" and
    s: "s = VObj [] \<or> (\<exists>r. decodeUseNumber r = Some s)" and fp: "fp = fp_of n d s"
    by (auto simp: toolFingerprint_def fp_of_def Let_def split: if_splits)
  have nd: "\<forall>(k, v) \<in> set ms. node maxNestingDepth v"
    using unmarshal_struct_members [OF ms] node_Suc [of "maxNestingDepth - 1"] maxNestingDepth_Suc by auto
  have "node (Suc 0) (JObj ''{}'' [])" using node_object [of "[]" 0] by simp
  then have "node maxNestingDepth (JObj ''{}'' [])" by (rule node_mono) (simp add: maxNestingDepth_def)
  moreover have "to_any (JObj ''{}'' []) = VObj []" by (simp add: build_map_def)
  ultimately obtain j where "s = to_any j" "node maxNestingDepth j"
    using s decodeUseNumber_node by metis
  with that fp field_str_utf8 [OF nd n] field_str_utf8 [OF nd d] show ?thesis by blast
qed

text \<open>Each fingerprint that can be encoded is, up to key order, the value of a JSON node.\<close>

lemma fp_node:
  assumes "valid_utf8 n" "valid_utf8 d" "node h j" "canonical (fp_of n d (to_any j)) = Some c"
  obtains J where "node (Suc h) J" "to_any J = VObj (fp_sorted n d (to_any j))" "canonical (to_any J) = Some c"
proof -
  let ?k1 = "marshal_string ''description''" and ?k2 = "marshal_string ''inputSchema''" and ?k3 = "marshal_string ''name''"
  have keys: "unquote ?k1 = ''description''" "unquote ?k2 = ''inputSchema''" "unquote ?k3 = ''name''" by code_simp+
  define ms where "ms = [(?k1, JStr (marshal_string d)), (?k2, j), (?k3, JStr (marshal_string n))]"
  have "\<forall>(k, v) \<in> set ms. str_lit k \<and> node h v"
    using assms(3) by (simp add: ms_def str_lit_marshal str_lit_node)
  from node_object [OF this] obtain t where J: "node (Suc h) (JObj t ms)" by blast
  have "map (\<lambda>(k, v). (unquote k, to_any v)) ms = fp_sorted n d (to_any j)"
    by (simp add: ms_def keys fp_sorted_def unquote_marshal assms(1,2))
  then have "to_any (JObj t ms) = VObj (fp_sorted n d (to_any j))"
    by (simp add: build_map_id [OF fp_sorted_wf])
  with that [OF J] assms(4) canonical_fp show ?thesis by simp
qed

text \<open>Equal encodings come from equal fingerprints.\<close>

lemma toolFingerprint_inj:
  assumes "toolFingerprint a = Some (fp, n)" "toolFingerprint b = Some (fp', n')"
    "canonical fp = Some c" "canonical fp' = Some c"
  shows "fp = fp' \<and> n = n'"
proof -
  from assms(1) obtain d s j where a: "fp = fp_of n d s" "valid_utf8 n" "valid_utf8 d" "s = to_any j"
    "node maxNestingDepth j" by (rule toolFingerprintE)
  from assms(2) obtain d' s' j' where b: "fp' = fp_of n' d' s'" "valid_utf8 n'" "valid_utf8 d'" "s' = to_any j'"
    "node maxNestingDepth j'" by (rule toolFingerprintE)
  obtain J where J: "node (Suc maxNestingDepth) J" "to_any J = VObj (fp_sorted n d s)" "canonical (to_any J) = Some c"
    using fp_node [OF a(2,3,5)] assms(3) a(1,4) by blast
  obtain K where K: "node (Suc maxNestingDepth) K" "to_any K = VObj (fp_sorted n' d' s')" "canonical (to_any K) = Some c"
    using fp_node [OF b(2,3,5)] assms(4) b(1,4) by blast
  have "VObj (fp_sorted n d s) = VObj (fp_sorted n' d' s')"
    using canonical_inj [OF J(1) K(1) J(3) K(3)] J(2) K(2) by simp
  then show ?thesis using a(1) b(1) by (simp add: fp_sorted_def fp_of_def)
qed

subsection \<open>Verification against per-tool digests\<close>

text \<open>The name and digest of one tool entry, \<open>None\<close> when it cannot be fingerprinted.\<close>

definition tool_digest :: "bytes \<Rightarrow> (bytes \<times> bytes) option" where
  "tool_digest el = (case toolFingerprint el of
     None \<Rightarrow> None
   | Some (fp, n) \<Rightarrow> map_option (\<lambda>c. (n, sentinelHash c)) (canonical fp))"

definition digest_tool :: "bytes \<Rightarrow> rawTool" where
  "digest_tool el = \<lparr>rtRaw = el, rtName = fst (the (tool_digest el)), rtHash = snd (the (tool_digest el))\<rparr>"

lemma parseLockTools_Inr:
  "parseLockTools je els = Inr ts \<longleftrightarrow> (\<forall>el \<in> set els. tool_digest el \<noteq> None) \<and> ts = map digest_tool els"
proof (induction els arbitrary: ts)
  case (Cons el els)
  show ?case
  proof (cases "tool_digest el")
    case None
    then show ?thesis by (auto simp: tool_digest_def canonicalAppend_def split: option.splits prod.splits)
  next
    case (Some nh)
    then obtain fp c where "toolFingerprint el = Some (fp, fst nh)" "canonical fp = Some c" "snd nh = sentinelHash c"
      by (auto simp: tool_digest_def split: option.splits prod.splits)
    with Some Cons.IH show ?thesis
      by (cases "parseLockTools je els") (auto simp: canonicalAppend_def digest_tool_def)
  qed
qed auto

lemma verify_tools_Nil:
  "verify_tools m ts = [] \<longleftrightarrow> (\<forall>t \<in> set ts. map_of m (rtName t) = Some (rtHash t))"
  by (induction m ts rule: verify_tools.induct) (auto split: option.splits)

lemma verify_detail:
  assumes "detail l = Some m" "m \<noteq> []"
  shows "verify je l elems = [] \<longleftrightarrow>
    (\<forall>el \<in> set elems. \<exists>n h. tool_digest el = Some (n, h) \<and> map_of m n = Some h)"
proof (cases "parseLockTools je elems")
  case (Inl e)
  then have "\<not> (\<forall>el \<in> set elems. tool_digest el \<noteq> None)"
    using parseLockTools_Inr [of je elems "map digest_tool elems"] by auto
  with Inl assms show ?thesis by (auto simp: verify_def)
next
  case (Inr ts)
  then have "\<forall>el \<in> set elems. tool_digest el \<noteq> None" "ts = map digest_tool elems" by (simp_all add: parseLockTools_Inr)
  with Inr assms show ?thesis by (fastforce simp: verify_def verify_tools_Nil digest_tool_def)
qed

text \<open>
  C24. With per-tool digests a listing passes exactly when every entry of it can be
  fingerprinted and its digest is the one locked under its name; unknown names, changed
  schemas, unparseable entries and strings with U+FFFD are all drift.
\<close>

theorem verify_detail_exact:
  assumes "detail l = Some m" "m \<noteq> []"
  shows "verify je l elems = [] \<longleftrightarrow>
    (\<forall>el \<in> set elems. \<exists>fp n c. toolFingerprint el = Some (fp, n) \<and> canonicalAppend [] fp = Some c \<and>
       map_of m n = Some (sentinelHash c))"
  unfolding verify_detail [OF assms]
  by (intro ball_cong refl) (auto simp: tool_digest_def canonicalAppend_def split: option.splits prod.splits)

definition demo_lock :: preparedLock where
  "demo_lock = \<lparr>plFile = ''l'', plServer = ''s'', enforce = True, wholeHash = [], detail = Some [(''a'', ''sha256:0'')]\<rparr>"

theorem verify_detail_exact_witness: "verify (\<lambda>_. []) demo_lock [''7''] \<noteq> []"
proof -
  have 1: "detail demo_lock = Some [(''a'', ''sha256:0'')]" by (simp add: demo_lock_def)
  have "toolFingerprint ''7'' = None" by code_simp
  with verify_detail_exact [OF 1, of "\<lambda>_. []" "[''7'']"] show ?thesis by simp
qed

text \<open>
  Per-tool verification is compositional: a paginated listing passes page by page exactly
  when the whole listing passes, in any split.
\<close>

theorem verify_pages:
  assumes "detail l = Some m" "m \<noteq> []"
  shows "verify je l (concat pages) = [] \<longleftrightarrow> list_all (\<lambda>p. verify je l p = []) pages"
  unfolding verify_detail [OF assms] by (simp add: list_all_iff)

theorem verify_pages_witness:
  "verify (\<lambda>_. []) demo_lock (concat [[], []]) = []"
proof -
  have 1: "detail demo_lock = Some [(''a'', ''sha256:0'')]" by (simp add: demo_lock_def)
  have 2: "list_all (\<lambda>p. verify (\<lambda>_. []) demo_lock p = []) [[], []]" by code_simp
  from verify_pages [OF 1, of "\<lambda>_. []" "[[], []]"] 2 show ?thesis by simp
qed

subsection \<open>Verification against the whole-list digest\<close>

lemma fingerprints_Inr:
  "fingerprints je els = Inr fps \<longleftrightarrow>
     (\<forall>el \<in> set els. toolFingerprint el \<noteq> None) \<and> fps = map (\<lambda>el. fst (the (toolFingerprint el))) els"
proof (induction els arbitrary: fps)
  case (Cons el els)
  then show ?case
    by (cases "toolFingerprint el"; cases "fingerprints je els") auto
qed auto

lemma fp_name_of [simp]: "fp_name (fp_of n d s) = n"
  by (simp add: fp_name_def fp_of_def)

lemma toolFingerprint_name: "toolFingerprint el = Some (fp, n) \<Longrightarrow> fp_name fp = n"
  by (auto elim: toolFingerprintE)

lemma sort_key_perm:
  assumes "mset xs = mset ys" "distinct (map f xs)"
  shows "sort_key f xs = sort_key f ys"
proof (rule map_sorted_distinct_set_unique [of f])
  have m: "mset (map f xs) = mset (map f ys)" using assms(1) by simp
  have dy: "distinct (map f ys)" using assms(2) mset_eq_imp_distinct_iff [OF m] by simp
  have s: "set xs = set ys" using assms(1) by (rule mset_eq_setD)
  show "inj_on f (set (sort_key f xs) \<union> set (sort_key f ys))" using assms(2) s by (simp add: distinct_map)
  show "distinct (map f (sort_key f xs))" "distinct (map f (sort_key f ys))"
    using assms(2) dy by (simp_all add: distinct_map)
  show "set (sort_key f xs) = set (sort_key f ys)" using s by simp
qed simp_all

text \<open>
  The whole-list digest does not depend on the order in which the server lists its tools,
  as long as their names are distinct.
\<close>

theorem toolsListHash_order:
  assumes "toolsListHash je elems = Inr h" "mset elems' = mset elems"
    and "distinct (map (\<lambda>el. map_option snd (toolFingerprint el)) elems)"
  shows "toolsListHash je elems' = Inr h"
proof -
  let ?fp = "\<lambda>el. fst (the (toolFingerprint el))"
  from assms(1) have f: "fingerprints je elems = Inr (map ?fp elems)" and all: "\<forall>el \<in> set elems. toolFingerprint el \<noteq> None"
    by (cases "fingerprints je elems"; simp add: toolsListHash_def fingerprints_Inr)+
  have s: "set elems' = set elems" using assms(2) by (rule mset_eq_setD)
  then have f': "fingerprints je elems' = Inr (map ?fp elems')" using all by (simp add: fingerprints_Inr)
  have "map_option snd (toolFingerprint el) = Some (fp_name (?fp el))" if "el \<in> set elems" for el
    using all that toolFingerprint_name by fastforce
  then have "map (\<lambda>el. map_option snd (toolFingerprint el)) elems = map Some (map fp_name (map ?fp elems))" by simp
  with assms(3) have "distinct (map fp_name (map ?fp elems))" by (simp only: distinct_map [of Some])
  then have "sort_key fp_name (map ?fp elems) = sort_key fp_name (map ?fp elems')"
    using assms(2) by (intro sort_key_perm) simp_all
  with assms(1) f f' show ?thesis by (simp add: toolsListHash_def)
qed

definition tool_text :: "bytes \<Rightarrow> bytes" where
  "tool_text n = ''{'' @ marshal_string ''name'' @ '':'' @ marshal_string n @ ''}''"

theorem toolsListHash_order_witness:
  "\<exists>h. toolsListHash (\<lambda>_. []) [tool_text ''b'', tool_text ''a''] = Inr h \<and>
     toolsListHash (\<lambda>_. []) [tool_text ''a'', tool_text ''b''] = Inr h"
proof -
  have c: "map_option (\<lambda>fps. canonicalAppend [] (VArr (sort_key fp_name fps)) \<noteq> None)
      (case fingerprints (\<lambda>_. []) [tool_text ''b'', tool_text ''a''] of Inl _ \<Rightarrow> None | Inr f \<Rightarrow> Some f) = Some True"
    by code_simp
  then obtain h where 1: "toolsListHash (\<lambda>_. []) [tool_text ''b'', tool_text ''a''] = Inr h"
    by (auto simp: toolsListHash_def split: sum.splits)
  have 2: "distinct (map (\<lambda>el. map_option snd (toolFingerprint el)) [tool_text ''b'', tool_text ''a''])"
    by code_simp
  have "mset [tool_text ''a'', tool_text ''b''] = mset [tool_text ''b'', tool_text ''a'']" by simp
  from toolsListHash_order [OF 1 this 2] 1 show ?thesis by blast
qed

text \<open>Digests render injectively, so equal hashes of different texts are SHA-256 collisions.\<close>

lemma hex_digit_byte_inj: "a < 16 \<Longrightarrow> b < 16 \<Longrightarrow> hex_digit_byte a = hex_digit_byte b \<Longrightarrow> a = b"
  by (auto simp: hex_digit_byte_def char_of_iff of_char_of split: if_splits)

lemma hex_inj: "hex_EncodeToString a = hex_EncodeToString b \<Longrightarrow> a = b"
proof (induction a arbitrary: b)
  case Nil
  then show ?case by (cases b) (simp_all add: hex_EncodeToString_def)
next
  case (Cons x a)
  then obtain y b' where b: "b = y # b'" by (cases b) (auto simp: hex_EncodeToString_def)
  with Cons.prems have e: "hex_digit_byte (byte x div 16) = hex_digit_byte (byte y div 16)"
    "hex_digit_byte (byte x mod 16) = hex_digit_byte (byte y mod 16)" "hex_EncodeToString a = hex_EncodeToString b'"
    by (simp_all add: hex_EncodeToString_def)
  have "byte z div 16 < 16" "byte z mod 16 < 16" for z :: char
    using nat_of_char_less_256 [of z] by linarith+
  with e(1,2) have "byte x div 16 = byte y div 16" "byte x mod 16 = byte y mod 16"
    using hex_digit_byte_inj by blast+
  then have "byte x = byte y" by (metis div_mult_mod_eq)
  then have "x = y" by simp
  with Cons.IH [OF e(3)] b show ?case by simp
qed

lemma sentinelHash_collision: "sentinelHash a = sentinelHash b \<longleftrightarrow> Sum256 a = Sum256 b"
  by (auto simp: sentinelHash_def dest: hex_inj)

text \<open>The encoding that \<open>toolsListHash\<close> digests determines the sorted fingerprints.\<close>

definition fp_rotate :: "jval \<Rightarrow> jval" where
  "fp_rotate v = (case v of VObj [nm, de, sc] \<Rightarrow> VObj [de, sc, nm] | _ \<Rightarrow> v)"

lemma fp_rotate_fp [simp]: "fp_rotate (fp_of n d s) = VObj (fp_sorted n d s)"
  by (simp add: fp_rotate_def fp_of_def fp_sorted_def)

lemma canonical_fps_inj:
  assumes "\<forall>fp \<in> set fps. \<exists>el n. toolFingerprint el = Some (fp, n)"
    "\<forall>fp \<in> set gps. \<exists>el n. toolFingerprint el = Some (fp, n)"
    "canonical (VArr fps) = Some c" "canonical (VArr gps) = Some c"
  shows "fps = gps"
proof -
  have ex: "\<exists>J. node (Suc (Suc maxNestingDepth)) J \<and> to_any J = VArr (map fp_rotate xs) \<and> canonical (to_any J) = Some c"
    if x: "\<forall>fp \<in> set xs. \<exists>el n. toolFingerprint el = Some (fp, n)" and c: "canonical (VArr xs) = Some c" for xs
  proof -
    from c obtain cs where cs: "those (map canonical xs) = Some cs" by auto
    have one: "\<exists>K. node (Suc maxNestingDepth) K \<and> to_any K = fp_rotate x \<and> canonical (to_any K) = canonical x"
      if xs: "x \<in> set xs" for x
    proof -
      from cs xs obtain b where b: "canonical x = Some b" by (metis those_eq_Some_iff image_eqI set_map imageE)
      from x xs obtain el n where "toolFingerprint el = Some (x, n)" by blast
      then obtain d s j where f: "x = fp_of n d s" "valid_utf8 n" "valid_utf8 d" "s = to_any j" "node maxNestingDepth j"
        by (rule toolFingerprintE)
      from fp_node [OF f(2,3,5)] b f(1,4) obtain K where "node (Suc maxNestingDepth) K"
        "to_any K = VObj (fp_sorted n d s)" "canonical (to_any K) = Some b" by blast
      with b f(1) show ?thesis by auto
    qed
    then obtain g where g: "\<forall>x \<in> set xs. node (Suc maxNestingDepth) (g x) \<and> to_any (g x) = fp_rotate x \<and>
        canonical (to_any (g x)) = canonical x" by metis
    from node_array [of "map g xs" "Suc maxNestingDepth"] g obtain t where
      "node (Suc (Suc maxNestingDepth)) (JArr t (map g xs))" by auto
    moreover have "to_any (JArr t (map g xs)) = VArr (map fp_rotate xs)" using g by simp
    moreover have "\<forall>x \<in> set xs. canonical (fp_rotate x) = canonical x" using g by metis
    then have "map canonical (map fp_rotate xs) = map canonical xs" by simp
    then have "canonical (VArr (map fp_rotate xs)) = canonical (VArr xs)" by (simp only: canonical.simps)
    ultimately show ?thesis using c by metis
  qed
  from ex [OF assms(1,3)] obtain J where J: "node (Suc (Suc maxNestingDepth)) J" "to_any J = VArr (map fp_rotate fps)"
    "canonical (to_any J) = Some c" by blast
  from ex [OF assms(2,4)] obtain K where K: "node (Suc (Suc maxNestingDepth)) K" "to_any K = VArr (map fp_rotate gps)"
    "canonical (to_any K) = Some c" by blast
  have eq: "map fp_rotate fps = map fp_rotate gps" using canonical_inj [OF J(1) K(1) J(3) K(3)] J(2) K(2) by simp
  have "inj_on fp_rotate (set fps \<union> set gps)"
  proof (rule inj_onI)
    fix x y assume "x \<in> set fps \<union> set gps" "y \<in> set fps \<union> set gps" "fp_rotate x = fp_rotate y"
    moreover from this assms(1,2) obtain n d s n' d' s' where "x = fp_of n d s" "y = fp_of n' d' s'"
      by (metis Un_iff toolFingerprintE)
    ultimately show "x = y" by (simp add: fp_sorted_def)
  qed
  then show ?thesis using eq inj_on_map_eq_map by blast
qed

text \<open>The text that \<open>toolsListHash\<close> digests.\<close>

definition list_encoding :: "bytes list \<Rightarrow> bytes option" where
  "list_encoding elems = (case fingerprints (\<lambda>_. []) elems of
     Inl _ \<Rightarrow> None
   | Inr fps \<Rightarrow> canonical (VArr (sort_key fp_name fps)))"

lemma toolsListHash_encoding: "toolsListHash je elems = Inr h \<longleftrightarrow> (\<exists>c. list_encoding elems = Some c \<and> h = sentinelHash c)"
proof (cases "\<forall>el \<in> set elems. toolFingerprint el \<noteq> None")
  case True
  then have "fingerprints e elems = Inr (map (\<lambda>el. fst (the (toolFingerprint el))) elems)" for e
    by (simp add: fingerprints_Inr)
  then show ?thesis
    by (cases "canonical (VArr (sort_key fp_name (map (\<lambda>el. fst (the (toolFingerprint el))) elems)))")
      (auto simp: toolsListHash_def list_encoding_def canonicalAppend_def)
next
  case False
  then have "\<exists>x. fingerprints e elems = Inl x" for e
    using fingerprints_Inr [of e elems] by (cases "fingerprints e elems") auto
  then obtain x y where "fingerprints je elems = Inl x" "fingerprints (\<lambda>_. []) elems = Inl y" by blast
  then show ?thesis by (simp add: toolsListHash_def list_encoding_def)
qed

lemma list_encoding_fps:
  assumes "list_encoding elems = Some c"
  obtains "\<forall>el \<in> set elems. toolFingerprint el \<noteq> None"
    "canonical (VArr (sort_key fp_name (map (\<lambda>el. fst (the (toolFingerprint el))) elems))) = Some c"
  using assms by (auto simp: list_encoding_def fingerprints_Inr split: sum.splits)

text \<open>
  C7. With a whole-list digest, a listing that passes has exactly the locked fingerprints (name,
  description and schema of every tool), unless the two encodings are a SHA-256 collision.
\<close>

theorem whole_hash_no_drift:
  assumes "toolsListHash je locked = Inr (wholeHash l)" "detail l = None \<or> detail l = Some []"
    and "verify je' l listed = []"
    and collision_free: "\<And>a b. list_encoding locked = Some a \<Longrightarrow> list_encoding listed = Some b \<Longrightarrow>
          Sum256 a = Sum256 b \<Longrightarrow> a = b"
  shows "mset (map toolFingerprint listed) = mset (map toolFingerprint locked)"
proof -
  let ?fp = "\<lambda>el. fst (the (toolFingerprint el))"
  obtain h where "toolsListHash je' listed = Inr h" "h = wholeHash l"
    using assms(2,3) by (cases "toolsListHash je' listed") (auto simp: verify_def split: if_splits)
  then obtain a b where a: "list_encoding locked = Some a" and b: "list_encoding listed = Some b"
    and "sentinelHash a = sentinelHash b"
    using assms(1) by (auto simp: toolsListHash_encoding)
  then have ab: "a = b" using collision_free by (simp add: sentinelHash_collision)
  from a obtain la: "\<forall>el \<in> set locked. toolFingerprint el \<noteq> None"
    "canonical (VArr (sort_key fp_name (map ?fp locked))) = Some a" by (rule list_encoding_fps)
  from b obtain lb: "\<forall>el \<in> set listed. toolFingerprint el \<noteq> None"
    "canonical (VArr (sort_key fp_name (map ?fp listed))) = Some b" by (rule list_encoding_fps)
  have "sort_key fp_name (map ?fp locked) = sort_key fp_name (map ?fp listed)"
    using la lb ab by (intro canonical_fps_inj [where c = a]) fastforce+
  then have "mset (map ?fp locked) = mset (map ?fp listed)" by (metis mset_sort)
  then have m: "mset (map (\<lambda>fp. Some (fp, fp_name fp)) (map ?fp locked)) =
      mset (map (\<lambda>fp. Some (fp, fp_name fp)) (map ?fp listed))"
    by (simp only: mset_map [of "\<lambda>fp. Some (fp, fp_name fp)"])
  have full: "map (\<lambda>fp. Some (fp, fp_name fp)) (map ?fp xs) = map toolFingerprint xs"
    if "\<forall>el \<in> set xs. toolFingerprint el \<noteq> None" for xs
    using that toolFingerprint_name by fastforce
  show ?thesis using m unfolding full [OF la(1)] full [OF lb(1)] by simp
qed

theorem whole_hash_no_drift_witness:
  "mset (map toolFingerprint [tool_text ''a'', tool_text ''b'']) =
     mset (map toolFingerprint [tool_text ''b'', tool_text ''a''])"
proof -
  let ?ba = "[tool_text ''b'', tool_text ''a'']" and ?ab = "[tool_text ''a'', tool_text ''b'']"
  have e: "list_encoding ?ab = list_encoding ?ba \<and> list_encoding ?ba \<noteq> None" by code_simp
  then obtain c where c: "list_encoding ?ba = Some c" "list_encoding ?ab = Some c" by auto
  let ?l = "\<lparr>plFile = [], plServer = [], enforce = True, wholeHash = sentinelHash c, detail = None\<rparr>"
  have h: "toolsListHash (\<lambda>_. []) ?ba = Inr (wholeHash ?l)" "toolsListHash (\<lambda>_. []) ?ab = Inr (wholeHash ?l)"
    using c unfolding toolsListHash_encoding by simp_all
  have d: "detail ?l = None \<or> detail ?l = Some []" by simp
  have v: "verify (\<lambda>_. []) ?l ?ab = []" using h(2) by (simp add: verify_def)
  show ?thesis by (rule whole_hash_no_drift [OF h(1) d v]) (use c in simp)
qed

end
