(* ===== verification/Promptproof.thy ===== *)
theory Promptproof
  imports Config Go_Decode
begin

text \<open>
  \<^verbatim>\<open>gateway/promptproof.go\<close>: verdicts, the scanner's settings, the coprocess' report, the
  strings of a tool result, and the coprocess pool under concurrent \<^verbatim>\<open>Scan\<close> and \<^verbatim>\<open>Close\<close> calls.
  What a coprocess answers is the parameter \<open>scan_answer\<close> of \<open>go_rt\<close>.
\<close>

subsection \<open>Verdicts and settings\<close>

definition promptProofBlockCode :: int where "promptProofBlockCode = -32005"

definition defaultScanPool :: int where "defaultScanPool = 2"

definition verdictRank :: "bytes \<Rightarrow> nat" where
  "verdictRank v = (if v = ''suspicious'' then 1 else if v = ''dangerous'' then 2 else 0)"

record scanResult =
  Verdict :: bytes
  Score :: int
  Categories :: "bytes list"

text \<open>The fields of a \<^verbatim>\<open>Scanner\<close> that do not change; the pool is modelled below.\<close>

record Scanner =
  bin :: bytes
  scArgs :: "bytes list"
  threshold :: nat
  action :: bytes
  poolSize :: nat

definition scanner_of :: "PromptProofConfig \<Rightarrow> Scanner" where
  "scanner_of c =
     (let a1 = (if ppSuspiciousAt c > 0 then [''--suspicious-at'', Itoa (ppSuspiciousAt c)] else []);
          a2 = (if ppDangerousAt c > 0 then [''--dangerous-at'', Itoa (ppDangerousAt c)] else []);
          th = verdictRank (ppThreshold c);
          size = (if ppPool c \<le> 0 then defaultScanPool else ppPool c)
      in \<lparr>bin = (if ppBinary c = [] then ''promptproof'' else ppBinary c),
          scArgs = ''serve'' # a1 @ a2,
          threshold = (if th = 0 then verdictRank ''dangerous'' else th),
          action = (if ppAction c = [] then ''block'' else ppAction c),
          poolSize = nat size\<rparr>)"

definition triggers :: "Scanner \<Rightarrow> bytes \<Rightarrow> bool" where
  "triggers s verdict \<longleftrightarrow> verdictRank verdict \<ge> threshold s"

subsection \<open>Reports\<close>

text \<open>
  The \<^verbatim>\<open>findings\<close> slice: decoding an array into a slice decodes each element into what the
  backing array holds there, so the state is the backing array and the length.
\<close>

fun finding_elem :: "bytes \<Rightarrow> json \<Rightarrow> bytes option" where
  "finding_elem cur (JObj _ ms) = assign_field string_step cur ''category'' ms"
| "finding_elem cur JNull = Some cur"
| "finding_elem cur _ = None"

fun finding_elems :: "bytes list \<Rightarrow> json list \<Rightarrow> bytes list option" where
  "finding_elems old [] = Some old"
| "finding_elems old (v # vs) =
     (let cur = (case old of [] \<Rightarrow> [] | c # _ \<Rightarrow> c) in
      do { c \<leftarrow> finding_elem cur v; cs \<leftarrow> finding_elems (tl old) vs; Some (c # cs) })"

fun findings_step :: "bytes list \<times> nat \<Rightarrow> json \<Rightarrow> (bytes list \<times> nat) option" where
  "findings_step st (JArr _ vs) =
     (if vs = [] then Some ([], 0) else map_option (\<lambda>b. (b, length vs)) (finding_elems (fst st) vs))"
| "findings_step st JNull = Some ([], 0)"
| "findings_step st _ = None"

fun dedup :: "bytes list \<Rightarrow> bytes list \<Rightarrow> bytes list" where
  "dedup seen [] = []"
| "dedup seen (c # cs) =
     (if c \<noteq> [] \<and> c \<notin> set seen then c # dedup (c # seen) cs else dedup seen cs)"

definition unmarshal_report :: "bytes \<Rightarrow> (bytes \<times> int \<times> bytes list) option" where
  "unmarshal_report s =
     do { ms \<leftarrow> unmarshal_struct s;
          v \<leftarrow> assign_field string_step [] ''verdict'' ms;
          sc \<leftarrow> assign_field int_step 0 ''score'' ms;
          (b, n) \<leftarrow> assign_field findings_step ([], 0) ''findings'' ms;
          Some (v, sc, take n b) }"

definition parseReport :: "go_rt \<Rightarrow> bytes \<Rightarrow> bytes + scanResult" where
  "parseReport rt line0 =
     (let line = TrimSpace line0 in
      if line = [] then Inl ''promptproof: empty response''
      else case unmarshal_report line of
             None \<Rightarrow> Inl (''promptproof: bad response '' @ Quote (is_print rt) line @ '': '' @ json_err rt line)
           | Some (v, sc, cats) \<Rightarrow> Inr \<lparr>Verdict = v, Score = sc, Categories = dedup [] cats\<rparr>)"

text \<open>\<^verbatim>\<open>Scan\<close> as its caller sees it: the \<open>n\<close>-th exchange with a coprocess of the pool.\<close>

definition Scan :: "go_rt \<Rightarrow> nat \<Rightarrow> bytes \<Rightarrow> bytes + scanResult" where
  "Scan rt n content = (case scan_answer rt n content of Inl e \<Rightarrow> Inl e | Inr line \<Rightarrow> parseReport rt line)"

subsection \<open>The strings of a result\<close>

text \<open>
  \<^verbatim>\<open>collectStrings\<close> decodes the same bytes as a string, an array and an object in turn; on a
  parsed value this is a case distinction, and \<^verbatim>\<open>null\<close> decodes as the empty string.
\<close>

fun strings_of :: "(bytes list \<Rightarrow> bytes list) \<Rightarrow> json \<Rightarrow> bytes list" where
  "strings_of ord (JStr l) = [unquote l]"
| "strings_of ord JNull = [[]]"
| "strings_of ord (JArr _ vs) = concat (map (strings_of ord) vs)"
| "strings_of ord (JObj _ ms) =
     (let m = build_map (map (\<lambda>(k, v). (unquote k, strings_of ord v)) ms)
      in concat (map (\<lambda>k. case map_of m k of Some ss \<Rightarrow> ss | None \<Rightarrow> []) (ord (map fst m))))"
| "strings_of ord _ = []"

definition collectStrings :: "go_rt \<Rightarrow> bytes \<Rightarrow> bytes list \<Rightarrow> bytes list" where
  "collectStrings rt raw out =
     out @ (case json_parse raw of None \<Rightarrow> [] | Some v \<Rightarrow> strings_of (map_order rt) v)"

end
