(* ===== verification/Responsefilter.thy ===== *)
theory Responsefilter
  imports Policy Lock Promptproof
begin

text \<open>
  \<^verbatim>\<open>gateway/responsefilter.go\<close>: verification and filtering of \<^verbatim>\<open>tools/list\<close> results, scanning of
  \<^verbatim>\<open>tools/call\<close> results, and the replacement of JSON response bodies.  The mutable
  \<^verbatim>\<open>*rewriteState\<close> is passed and returned.
\<close>

subsection \<open>Per-request state\<close>

text \<open>
  The fields of \<^verbatim>\<open>rewriteState\<close>; \<open>scanCalls\<close> counts the scans of this request and is the index
  under which \<open>scan_answer\<close> gives the coprocess' reply.
\<close>

record rewriteState =
  ids :: "bytes list"
  policy :: "toolPolicy option"
  lock :: "preparedLock option"
  strict :: bool
  filtered :: nat
  drift :: bool
  stNote :: bytes
  scanner :: "Scanner option"
  scanIDs :: "bytes list"
  scanVerdict :: bytes
  scanScore :: int
  scanCategories :: "bytes list"
  scanBlocked :: bool
  scanFlagged :: bool
  scanErr :: bytes
  scanCalls :: nat

definition noteOnce :: "bytes \<Rightarrow> rewriteState \<Rightarrow> rewriteState" where
  "noteOnce reason st = (if stNote st = [] then st\<lparr>stNote := reason\<rparr> else st)"

definition strictCode :: "rewriteState \<Rightarrow> int" where
  "strictCode st =
     (if (case policy st of None \<Rightarrow> False | Some p \<Rightarrow> allow p \<noteq> None) then -32003
      else if (case lock st of None \<Rightarrow> False | Some l \<Rightarrow> enforce l) then -32004
      else -32003)"

definition hasID :: "rewriteState \<Rightarrow> bytes \<Rightarrow> bool" where
  "hasID st raw \<longleftrightarrow> raw \<in> set (ids st)"

definition hasScanID :: "rewriteState \<Rightarrow> bytes \<Rightarrow> bool" where
  "hasScanID st raw \<longleftrightarrow> raw \<in> set (scanIDs st)"

datatype msgOutcome =
    msgPass (invalid: bool)
  | msgRewrite (rewritten: bytes)
  | msgBlock (blockId: bytes) (blockCode: int) (blockWhy: bytes)

record rpcResponseProbe =
  prJSONRPC :: bytes
  prID :: bytes
  prResult :: bytes
  prError :: bytes

definition unmarshal_response :: "bytes \<Rightarrow> rpcResponseProbe option" where
  "unmarshal_response m =
     map_option (\<lambda>ms. \<lparr>prJSONRPC = field_raw ''jsonrpc'' ms, prID = field_raw ''id'' ms,
         prResult = field_raw ''result'' ms, prError = field_raw ''error'' ms\<rparr>) (unmarshal_struct m)"

definition has_error :: "rpcResponseProbe \<Rightarrow> bool" where
  "has_error p \<longleftrightarrow> prError p \<noteq> [] \<and> prError p \<noteq> ''null''"

subsection \<open>Scanning tool results\<close>

fun containsString :: "bytes list \<Rightarrow> bytes \<Rightarrow> bool" where
  "containsString [] s = False"
| "containsString (x # xs) s = (if x = s then True else containsString xs s)"

definition add_category :: "bytes list \<Rightarrow> bytes \<Rightarrow> bytes list" where
  "add_category cs c = (if containsString cs c then cs else cs @ [c])"

definition recordScan :: "scanResult \<Rightarrow> rewriteState \<Rightarrow> rewriteState" where
  "recordScan res st =
     (if verdictRank (Verdict res) = 0 then st
      else
        (let st1 = (if verdictRank (Verdict res) > verdictRank (scanVerdict st)
                    then st\<lparr>scanVerdict := Verdict res, scanScore := Score res\<rparr> else st)
         in st1\<lparr>scanCategories := foldl add_category (scanCategories st1) (Categories res)\<rparr>))"

definition scan_reason :: "scanResult \<Rightarrow> bytes" where
  "scan_reason res =
     ''tool result blocked by promptproof: '' @ Verdict res @ '' (score '' @ Itoa (Score res) @ '')''"

definition scanMessage :: "go_rt \<Rightarrow> Scanner \<Rightarrow> rewriteState \<Rightarrow> bytes \<Rightarrow> msgOutcome \<times> rewriteState" where
  "scanMessage rt sc st m =
     (case unmarshal_response m of
        None \<Rightarrow> (msgPass True, st)
      | Some probe \<Rightarrow>
          if has_error probe then (msgPass False, st)
          else if prResult probe = [] then (msgPass False, st)
          else
            (let content = join [LF] (collectStrings rt (prResult probe) []);
                 st0 = st\<lparr>scanCalls := Suc (scanCalls st)\<rparr>
             in case Scan rt (scanCalls st) content of
                  Inl err \<Rightarrow>
                    (let st1 = (if scanErr st0 = [] then st0\<lparr>scanErr := err\<rparr> else st0)
                     in (msgPass False, noteOnce (''promptproof scan error: '' @ err) st1))
                | Inr res \<Rightarrow>
                    (let st1 = recordScan res st0 in
                     if \<not> triggers sc (Verdict res) then (msgPass False, st1)
                     else if action sc = ''flag'' then (msgPass False, st1\<lparr>scanFlagged := True\<rparr>)
                     else (msgBlock (prID probe) promptProofBlockCode (scan_reason res),
                           noteOnce (scan_reason res) (st1\<lparr>scanBlocked := True\<rparr>)))))"

subsection \<open>Filtering tool listings\<close>

text \<open>The \<^verbatim>\<open>name\<close> of a tools array element, \<open>None\<close> when it has no usable one.\<close>

definition elem_name :: "bytes \<Rightarrow> bytes option" where
  "elem_name el = (case Option.bind (unmarshal_struct el) (field_str ''name'') of
     None \<Rightarrow> None
   | Some n \<Rightarrow> if n = [] then None else Some n)"

text \<open>The loop over the elements: kept elements and number removed; \<open>None\<close> is the strict return.\<close>

fun filter_tools :: "toolPolicy option \<Rightarrow> bool \<Rightarrow> bytes list \<Rightarrow> (bytes list \<times> nat) option" where
  "filter_tools pol str [] = Some ([], 0)"
| "filter_tools pol str (el # els) =
     (case elem_name el of
        None \<Rightarrow> if str then None else map_option (\<lambda>(k, r). (el # k, r)) (filter_tools pol str els)
      | Some n \<Rightarrow>
          map_option (\<lambda>(k, r). if allows pol n then (el # k, r) else (k, Suc r)) (filter_tools pol str els))"

definition rebuilt_message :: "rpcResponseProbe \<Rightarrow> bytes \<Rightarrow> bytes" where
  "rebuilt_message probe newResult =
     ''{'' @ marshal_string ''jsonrpc'' @ '':'' @
       (if prJSONRPC probe \<noteq> [] then prJSONRPC probe else marshal_string ''2.0'') @
     '','' @ marshal_string ''id'' @ '':'' @ prID probe @
     '','' @ marshal_string ''result'' @ '':'' @ newResult @ ''}''"

definition examineMessage :: "go_rt \<Rightarrow> rewriteState \<Rightarrow> bytes \<Rightarrow> msgOutcome \<times> rewriteState" where
  "examineMessage rt st m =
     (case unmarshal_response m of
        None \<Rightarrow> (msgPass True, st)
      | Some probe \<Rightarrow>
          if prID probe = [] \<or> \<not> hasID st (prID probe) then (msgPass False, st)
          else if has_error probe then (msgPass False, st)
          else
            (let block = (\<lambda>reason s. (msgBlock (prID probe) (strictCode s) reason, s));
                 lax = (\<lambda>reason. if strict st then block reason st else (msgPass False, st)) in
             case unmarshal_map (prResult probe) of
               None \<Rightarrow> lax ''tools/list result is not an object''
             | Some None \<Rightarrow> lax ''tools/list result is not an object''
             | Some (Some result) \<Rightarrow>
                 (case map_of result ''tools'' of
                    None \<Rightarrow> lax ''tools/list result has no tools array''
                  | Some toolsRaw \<Rightarrow>
                      (case unmarshal_raws toolsRaw of
                         None \<Rightarrow> lax ''tools/list result tools is not an array''
                       | Some elems \<Rightarrow>
                           (let reason = (case lock st of None \<Rightarrow> [] | Some l \<Rightarrow> verify (json_err rt) l elems);
                                st1 = (if reason \<noteq> [] then noteOnce reason (st\<lparr>drift := True\<rparr>) else st)
                            in if reason \<noteq> [] \<and> (case lock st of None \<Rightarrow> False | Some l \<Rightarrow> enforce l)
                               then (msgBlock (prID probe) (-32004) reason, st1)
                               else
                                 (case filter_tools (policy st1) (strict st1) elems of
                                    None \<Rightarrow> block ''tools/list entry without a tool name'' st1
                                  | Some (kept, removed) \<Rightarrow>
                                      if removed = 0 then (msgPass False, st1)
                                      else
                                        (let st2 = st1\<lparr>filtered := filtered st1 + removed\<rparr> in
                                         case marshal_raws kept of
                                           None \<Rightarrow> block ''tools/list result could not be rebuilt'' st2
                                         | Some newTools \<Rightarrow>
                                             (case marshal_raw_map (map_set ''tools'' newTools result) of
                                                None \<Rightarrow> block ''tools/list result could not be rebuilt'' st2
                                              | Some newResult \<Rightarrow>
                                                  (msgRewrite (rebuilt_message probe newResult), st2)))))))))"

definition handleMessage :: "go_rt \<Rightarrow> rewriteState \<Rightarrow> bytes \<Rightarrow> msgOutcome \<times> rewriteState" where
  "handleMessage rt st m =
     (case (scanner st, unmarshal_struct m) of
        (Some sc, Some ms) \<Rightarrow>
          if scanIDs st \<noteq> [] \<and> field_raw ''id'' ms \<noteq> [] \<and> hasScanID st (field_raw ''id'' ms)
          then scanMessage rt sc st m else examineMessage rt st m
      | _ \<Rightarrow> examineMessage rt st m)"

subsection \<open>Response bodies\<close>

text \<open>
  Headers: the values under a canonical name, in order.  \<open>rBodyErr\<close> says that reading the body
  fails after \<open>rBody\<close>.
\<close>

type_synonym header = "bytes \<Rightarrow> bytes list"

definition header_get :: "header \<Rightarrow> bytes \<Rightarrow> bytes" where
  "header_get h k = (case h k of [] \<Rightarrow> [] | v # _ \<Rightarrow> v)"

record httpResponse =
  rStatusCode :: int
  rStatus :: bytes
  rHeader :: header
  rBody :: bytes
  rBodyErr :: bool
  rContentLength :: int
  rTransferEncoding :: "bytes list"

definition StatusText :: "int \<Rightarrow> bytes" where
  "StatusText code =
     (if code = 200 then ''OK'' else if code = 403 then ''Forbidden'' else if code = 404 then ''Not Found''
      else if code = 413 then ''Request Entity Too Large'' else if code = 429 then ''Too Many Requests''
      else if code = 502 then ''Bad Gateway'' else [])"

definition maxRPCPeek :: nat where "maxRPCPeek = 1048576"

definition jsonrpcError :: "bytes \<Rightarrow> int \<Rightarrow> bytes \<Rightarrow> bytes" where
  "jsonrpcError id0 code msg =
     (let i = (if id0 = [] then ''null'' else id0) in
      ''{'' @ marshal_string ''jsonrpc'' @ '':'' @ marshal_string ''2.0'' @ '','' @
      marshal_string ''id'' @ '':'' @ i @ '','' @
      marshal_string ''error'' @ '':{'' @ marshal_string ''code'' @ '':'' @ Itoa code @ '','' @
      marshal_string ''message'' @ '':'' @ marshal_string msg @ ''}}'')"

definition swapBody :: "httpResponse \<Rightarrow> int \<Rightarrow> bytes \<Rightarrow> httpResponse" where
  "swapBody resp status body =
     resp\<lparr>rBody := body, rBodyErr := False, rStatusCode := status,
       rStatus := Itoa status @ '' '' @ StatusText status, rContentLength := int (length body),
       rHeader := (rHeader resp)(''Content-Length'' := [Itoa (int (length body))],
         ''Content-Type'' := [''application/json''], ''Content-Encoding'' := []),
       rTransferEncoding := []\<rparr>"

definition blockResponseCode ::
  "rewriteState \<Rightarrow> httpResponse \<Rightarrow> int \<Rightarrow> bytes \<Rightarrow> httpResponse \<times> rewriteState" where
  "blockResponseCode st resp code reason =
     (swapBody resp 403 (jsonrpcError [] code reason @ [LF]), noteOnce reason st)"

definition blockResponse :: "rewriteState \<Rightarrow> httpResponse \<Rightarrow> bytes \<Rightarrow> httpResponse \<times> rewriteState" where
  "blockResponse st resp reason = blockResponseCode st resp (strictCode st) reason"

text \<open>
  The loop over a batch: \<open>Inl (code, reason)\<close> is the early return of a blocked batch, otherwise
  the messages to send and whether one of them changed.
\<close>

fun handle_batch ::
  "go_rt \<Rightarrow> rewriteState \<Rightarrow> bytes list \<Rightarrow> ((int \<times> bytes) + (bytes list \<times> bool)) \<times> rewriteState" where
  "handle_batch rt st [] = (Inr ([], False), st)"
| "handle_batch rt st (m # ms) =
     (case handleMessage rt st m of
        (msgBlock _ code reason, st1) \<Rightarrow> (Inl (code, reason), st1)
      | (msgRewrite out, st1) \<Rightarrow>
          (case handle_batch rt st1 ms of
             (Inl b, st2) \<Rightarrow> (Inl b, st2)
           | (Inr (outs, chg), st2) \<Rightarrow> (Inr (out # outs, True), st2))
      | (msgPass bad, st1) \<Rightarrow>
          if bad \<and> strict st1 then
            (Inl (strictCode st1, ''tools/list response batch entry is not an object''), st1)
          else
            (case handle_batch rt st1 ms of
               (Inl b, st2) \<Rightarrow> (Inl b, st2)
             | (Inr (outs, chg), st2) \<Rightarrow> (Inr (m # outs, chg), st2)))"

text \<open>\<open>None\<close> is a returned error (the body could not be read), which the proxy turns into a 502.\<close>

definition processJSONBody ::
  "go_rt \<Rightarrow> rewriteState \<Rightarrow> httpResponse \<Rightarrow> httpResponse option \<times> rewriteState" where
  "processJSONBody rt st resp =
     (let ok = (\<lambda>(r, s). (Some r, s)); same = (\<lambda>s. (Some resp, s)) in
      if rBodyErr resp \<and> length (rBody resp) \<le> maxRPCPeek then (None, st)
      else if length (rBody resp) > maxRPCPeek then
        (if strict st then ok (blockResponse st resp ''tools/list response exceeded the processing cap'')
         else same st)
      else
        (case TrimSpace (rBody resp) of
           [] \<Rightarrow> same st
         | c # cs \<Rightarrow>
             if c = CHR ''['' then
               (case unmarshal_raws (c # cs) of
                  None \<Rightarrow>
                    if strict st then ok (blockResponse st resp ''tools/list response is not parseable JSON'')
                    else same st
                | Some msgs \<Rightarrow>
                    (case handle_batch rt st msgs of
                       (Inl (code, reason), st1) \<Rightarrow> ok (blockResponseCode st1 resp code reason)
                     | (Inr (outs, changed), st1) \<Rightarrow>
                         if changed then
                           (case marshal_raws outs of
                              None \<Rightarrow> (None, st1)
                            | Some joined \<Rightarrow> (Some (swapBody resp 200 joined), st1))
                         else same st1))
             else
               (case handleMessage rt st (c # cs) of
                  (msgBlock _ code reason, st1) \<Rightarrow> ok (blockResponseCode st1 resp code reason)
                | (msgRewrite out, st1) \<Rightarrow> (Some (swapBody resp 200 out), st1)
                | (msgPass bad, st1) \<Rightarrow>
                    if bad \<and> strict st1 then
                      ok (blockResponse st1 resp ''tools/list response is not parseable JSON'')
                    else same st1)))"

end
