(* ===== verification/Filtering.thy ===== *)
theory Filtering
  imports Responsefilter
begin

text \<open>
  What the response filter of \<^verbatim>\<open>gateway/responsefilter.go\<close> delivers: the JSON-RPC errors it writes
  decode to what was put in, a rewritten \<^verbatim>\<open>tools/list\<close> result decodes to the allowed tools in
  their order, strict processing lets no other tool through, an enforced lock lets no drift
  through, and messages for other ids pass untouched.
\<close>

subsection \<open>Field lookup in objects written by the gateway\<close>

lemma key_matches_marshal: "valid_utf8 k \<Longrightarrow> key_matches f (marshal_string k) \<longleftrightarrow> foldName k = foldName f"
  by (simp add: key_matches_def unquote_marshal)

lemma field_raw_Nil: "field_raw f [] = []"
  by (simp add: field_raw_def field_members_def)

lemma field_members_Cons:
  "field_members f ((k, v) # ms) = (if key_matches f k then v # field_members f ms else field_members f ms)"
  by (simp add: field_members_def)

lemma field_members_Nil: "field_members f [] = []"
  by (simp add: field_members_def)

text \<open>The names the gateway reads and writes, compared the way \<^verbatim>\<open>encoding/json\<close> compares them.\<close>

lemma response_keys:
  "key_matches ''jsonrpc'' (marshal_string ''jsonrpc'')" "\<not> key_matches ''jsonrpc'' (marshal_string ''id'')"
  "\<not> key_matches ''jsonrpc'' (marshal_string ''result'')" "\<not> key_matches ''jsonrpc'' (marshal_string ''error'')"
  "\<not> key_matches ''id'' (marshal_string ''jsonrpc'')" "key_matches ''id'' (marshal_string ''id'')"
  "\<not> key_matches ''id'' (marshal_string ''result'')" "\<not> key_matches ''id'' (marshal_string ''error'')"
  "\<not> key_matches ''result'' (marshal_string ''jsonrpc'')" "\<not> key_matches ''result'' (marshal_string ''id'')"
  "key_matches ''result'' (marshal_string ''result'')" "\<not> key_matches ''result'' (marshal_string ''error'')"
  "\<not> key_matches ''error'' (marshal_string ''jsonrpc'')" "\<not> key_matches ''error'' (marshal_string ''id'')"
  "\<not> key_matches ''error'' (marshal_string ''result'')" "key_matches ''error'' (marshal_string ''error'')"
  "key_matches ''code'' (marshal_string ''code'')" "\<not> key_matches ''code'' (marshal_string ''message'')"
  "\<not> key_matches ''message'' (marshal_string ''code'')" "key_matches ''message'' (marshal_string ''message'')"
  by code_simp+

lemmas response_fields = field_raw_def field_members_Cons field_members_Nil response_keys

subsection \<open>JSON-RPC errors\<close>

definition error_object :: "int \<Rightarrow> bytes \<Rightarrow> (bytes \<times> json) list" where
  "error_object code msg = [(marshal_string ''code'', JNum (Itoa code)), (marshal_string ''message'', JStr (marshal_string msg))]"

lemma error_object_nodes: "\<forall>(k, v) \<in> set (error_object code msg). str_lit k \<and> node d v"
  by (simp add: error_object_def str_lit_marshal node_Itoa str_lit_node)

text \<open>The members of an error response, given an id that was read from a message or none.\<close>

lemma jsonrpcError_struct:
  assumes "id0 = [] \<or> (\<exists>m p. unmarshal_response m = Some p \<and> id0 = prID p)"
  obtains i e where "(if id0 = [] then ''null'' else id0) = raw_of i" "e = ''{'' @ join '','' (map (\<lambda>(k, v). k @ '':'' @ raw_of v) (error_object code msg)) @ ''}''"
    "unmarshal_struct (jsonrpcError id0 code msg) = Some [(marshal_string ''jsonrpc'', JStr (marshal_string ''2.0'')),
       (marshal_string ''id'', i), (marshal_string ''error'', JObj e (error_object code msg))]"
proof -
  have dep: "Suc 0 < maxNestingDepth - 1" "maxNestingDepth - 1 < maxNestingDepth" by (simp_all add: maxNestingDepth_def)
  have "\<exists>i. (if id0 = [] then ''null'' else id0) = raw_of i \<and> node (maxNestingDepth - 1) i"
  proof (cases "id0 = []")
    case True
    have "node 0 JNull" by (simp add: node_def parse_simps)
    with True show ?thesis using node_mono [of 0 JNull] by (intro exI [of _ JNull]) simp
  next
    case False
    with assms obtain m ms where "unmarshal_struct m = Some ms" "id0 = field_raw ''id'' ms" "id0 \<noteq> []"
      by (auto simp: unmarshal_response_def)
    then obtain v where "id0 = raw_of v" "node (maxNestingDepth - 1) v" by (metis field_rawE)
    then show ?thesis using False by (intro exI [of _ v]) simp
  qed
  then obtain i where i: "(if id0 = [] then ''null'' else id0) = raw_of i" "node (maxNestingDepth - 1) i" by blast
  let ?eo = "error_object code msg"
  define e where "e = ''{'' @ join '','' (map (\<lambda>(k, v). k @ '':'' @ raw_of v) ?eo) @ ''}''"
  have ne: "node (Suc 0) (JObj e ?eo)" unfolding e_def by (rule node_object [OF error_object_nodes])
  define ms where "ms = [(marshal_string ''jsonrpc'', JStr (marshal_string ''2.0'')), (marshal_string ''id'', i),
      (marshal_string ''error'', JObj e ?eo)]"
  have "\<forall>(k, v) \<in> set ms. str_lit k \<and> node (maxNestingDepth - 1) v"
    using i(2) node_mono [OF ne less_imp_le [OF dep(1)]] by (simp add: ms_def str_lit_marshal str_lit_node)
  from unmarshal_struct_object [OF this dep(2)]
  have "unmarshal_struct (jsonrpcError id0 code msg) = Some ms"
    using i(1) by (simp add: jsonrpcError_def ms_def e_def error_object_def Let_def)
  with that i(1) show ?thesis unfolding ms_def e_def by blast
qed

text \<open>
  Whatever the reason text, a JSON-RPC error written for a message the gateway has parsed
  is well-formed JSON; it carries that message's id (or \<^verbatim>\<open>null\<close>), the code, and the reason as a
  string, in which only bytes that are not UTF-8 are replaced.
\<close>

lemma jsonrpcError_decodes:
  assumes "id0 = [] \<or> (\<exists>m p. unmarshal_response m = Some p \<and> id0 = prID p)"
    and "- (2 ^ 63) \<le> code" "code < 2 ^ 63"
  obtains e ems where "unmarshal_response (jsonrpcError id0 code msg) =
      Some \<lparr>prJSONRPC = marshal_string ''2.0'', prID = (if id0 = [] then ''null'' else id0), prResult = [], prError = e\<rparr>"
    "unmarshal_struct e = Some ems" "assign_field int_step 0 ''code'' ems = Some code"
    "field_str ''message'' ems = Some (unquote (marshal_string msg))"
proof -
  let ?eo = "error_object code msg"
  from assms(1) obtain i e where i: "(if id0 = [] then ''null'' else id0) = raw_of i"
    and e: "e = ''{'' @ join '','' (map (\<lambda>(k, v). k @ '':'' @ raw_of v) ?eo) @ ''}''"
    and u: "unmarshal_struct (jsonrpcError id0 code msg) = Some [(marshal_string ''jsonrpc'', JStr (marshal_string ''2.0'')),
       (marshal_string ''id'', i), (marshal_string ''error'', JObj e ?eo)]" by (rule jsonrpcError_struct)
  have "unmarshal_struct e = Some ?eo"
    unfolding e by (rule unmarshal_struct_object [OF error_object_nodes, of 0]) (simp add: maxNestingDepth_def)
  moreover have "assign_field int_step 0 ''code'' ?eo = Some code"
    using ParseInt_Itoa [OF assms(2,3)] by (simp add: assign_field_def error_object_def response_fields)
  moreover have "field_str ''message'' ?eo = Some (unquote (marshal_string msg))"
    by (simp add: field_str_def error_object_def response_fields)
  moreover have "unmarshal_response (jsonrpcError id0 code msg) =
      Some \<lparr>prJSONRPC = marshal_string ''2.0'', prID = raw_of i, prResult = [], prError = e\<rparr>"
    using u by (simp add: unmarshal_response_def response_fields)
  ultimately show ?thesis using that unfolding i by blast
qed

subsection \<open>Names survive rebuilding\<close>

lemma elem_name_squash:
  assumes "node d v" "d \<le> maxNestingDepth"
  shows "elem_name (raw_of (squash v)) = elem_name (raw_of v)"
proof -
  have p: "json_parse (raw_of v) = Some v" "json_parse (raw_of (squash v)) = Some (squash v)"
    using node_json_parse [OF assms] node_json_parse [OF squash_node [OF assms(1)] assms(2)] .
  show ?thesis
  proof (cases v)
    case (JObj t ms)
    from assms(1) [unfolded JObj] obtain d' where "\<forall>(k, v) \<in> set ms. str_lit k \<and> node d' v" by (rule node_objectD)
    from field_str_squash [OF this] p show ?thesis by (simp add: elem_name_def unmarshal_struct_def JObj)
  qed (use p in \<open>simp_all add: elem_name_def unmarshal_struct_def\<close>)
qed

definition keeps :: "toolPolicy option \<Rightarrow> bytes \<Rightarrow> bool" where
  "keeps pol el = (case elem_name el of None \<Rightarrow> True | Some n \<Rightarrow> allows pol n)"

lemma filter_tools_spec:
  "filter_tools pol str els = Some (kept, removed) \<Longrightarrow>
     kept = filter (keeps pol) els \<and> removed + length kept = length els \<and>
     (str \<longrightarrow> (\<forall>el \<in> set els. elem_name el \<noteq> None))"
  by (induction els arbitrary: kept removed)
    (auto simp: keeps_def split: option.splits if_splits prod.splits)

lemma filter_tools_none: "filter_tools pol str els = None \<longleftrightarrow> str \<and> (\<exists>el \<in> set els. elem_name el = None)"
proof (induction els)
  case (Cons el els)
  then show ?case by (cases "elem_name el"; cases str) (simp_all del: not_None_eq)
qed simp

lemma filter_tools_zero:
  assumes "filter_tools pol str els = Some (kept, 0)"
  shows "\<forall>el \<in> set els. keeps pol el"
proof -
  have "length (filter (keeps pol) els) = length els" using filter_tools_spec [OF assms] by auto
  then show ?thesis by (metis filter_id_conv filter_True length_filter_less linorder_neqE_nat nat_neq_iff)
qed

lemma map_set_map: "map_set k (f v) (map (\<lambda>(k, v). (k, f v)) m) = map (\<lambda>(k, v). (k, f v)) (map_set k v m)"
  by (induction k v m rule: map_set.induct) auto

text \<open>The members of a parsed object as a map from keys to nodes.\<close>

definition node_map :: "(bytes \<times> json) list \<Rightarrow> (bytes \<times> json) list" where
  "node_map ms = build_map (map (\<lambda>(k, v). (unquote k, v)) ms)"

lemma raw_map_nodes: "raw_map ms = map (\<lambda>(k, v). (k, raw_of v)) (node_map ms)"
proof -
  have "map (\<lambda>(k, v). (unquote k, raw_of v)) ms = map (\<lambda>(k, v). (k, raw_of v)) (map (\<lambda>(k, v). (unquote k, v)) ms)"
    by (simp add: comp_def case_prod_unfold)
  then show ?thesis unfolding raw_map_def node_map_def build_map_map [symmetric] by (rule arg_cong)
qed

lemma node_map_members:
  assumes "\<forall>(k, v) \<in> set ms. str_lit k \<and> node d v"
  shows "map_wf (node_map ms) \<and> (\<forall>(k, v) \<in> set (node_map ms). valid_utf8 k \<and> node d v)"
proof -
  have "set (node_map ms) \<subseteq> set (map (\<lambda>(k, v). (unquote k, v)) ms)" unfolding node_map_def by (rule build_map_values)
  with assms valid_utf8_unquote show ?thesis by (fastforce simp: node_map_def map_wf_build)
qed

lemma map_of_raw: "map_of (map (\<lambda>(k, v). (k, f v)) m) k = map_option f (map_of m k)"
  by (induction m) auto

subsection \<open>A rebuilt listing\<close>

lemma squash_array_raw: "squash (JArr t vs) = squash (JArr [] vs)"
  by simp

lemma unmarshal_raws_nodes:
  assumes "unmarshal_raws (raw_of v) = Some els" "node d v" "d \<le> maxNestingDepth"
  obtains vs where "els = map raw_of vs" "\<forall>w \<in> set vs. node (d - 1) w" "vs \<noteq> [] \<Longrightarrow> 0 < d"
proof -
  from assms have s: "map_option (map raw_of) (slice_of v) = Some els"
    by (simp add: unmarshal_raws_def node_json_parse)
  show ?thesis
  proof (cases v)
    case (JArr t vs)
    from assms(2) [unfolded JArr] obtain d' where "d = Suc d'" "\<forall>w \<in> set vs. node d' w" by (rule node_arrayD)
    with that [of vs] s JArr show ?thesis by simp
  qed (use s that [of "[]"] in simp_all)
qed

lemma marshalled_tools:
  assumes "\<forall>w \<in> set vs. node d w" "Suc d \<le> maxNestingDepth"
  obtains tv where "marshal_raws (map raw_of vs) = Some (raw_of tv)" "node (Suc d) tv" "tv = squash (JArr [] vs)"
proof -
  have "node (Suc d) (squash (JArr [] vs))" using squash_node [OF node_array [OF assms(1)]] by simp
  with marshal_raws_nodes [OF assms(1)] assms(2) that show ?thesis by simp
qed

text \<open>
  Writing the map \<open>jm\<close> of nodes as an object and reading it again gives the same keys, each with
  the compacted text of its node.
\<close>

lemma marshalled_map:
  assumes wf: "map_wf jm" and jm: "\<forall>(k, v) \<in> set jm. valid_utf8 k \<and> node d v" and d: "Suc d \<le> maxNestingDepth"
  obtains nr J where "marshal_raw_map (map (\<lambda>(k, v). (k, raw_of v)) jm) = Some nr" "raw_of J = nr" "node (Suc d) J"
    "unmarshal_map nr = Some (Some (map (\<lambda>(k, v). (k, compact v)) jm))"
proof -
  let ?nr = "''{'' @ join '','' (map (\<lambda>(k, v). marshal_string k @ '':'' @ compact v) jm) @ ''}''"
  let ?ms = "map (\<lambda>(k, v). (marshal_string k, squash v)) jm"
  have nd: "\<forall>(k, v) \<in> set jm. node d v" using jm by auto
  have m: "marshal_raw_map (map (\<lambda>(k, v). (k, raw_of v)) jm) = Some ?nr"
    using marshal_raw_map_nodes [OF nd] d by simp
  have n: "node (Suc d) (JObj ?nr ?ms)" by (rule marshalled_object_node [OF nd])
  have "map (\<lambda>(k, v). (unquote k, raw_of v)) ?ms = map (\<lambda>(k, v). (k, compact v)) jm"
    using jm by (auto simp: unquote_marshal)
  moreover have "map_wf (map (\<lambda>(k, v). (k, compact v)) jm)"
    using wf by (simp add: map_wf_def comp_def case_prod_unfold)
  ultimately have "raw_map ?ms = map (\<lambda>(k, v). (k, compact v)) jm"
    unfolding raw_map_def by (simp only: build_map_id)
  moreover have "json_parse ?nr = Some (JObj ?nr ?ms)" using node_json_parse [OF n d] by simp
  ultimately have "unmarshal_map ?nr = Some (Some (map (\<lambda>(k, v). (k, compact v)) jm))"
    by (simp only: unmarshal_map_def bind.bind_lunit map_of_json.simps)
  with that [OF m _ n] show ?thesis by simp
qed

lemma map_set_members: "(\<forall>(k, v) \<in> set m. P k v) \<Longrightarrow> P k v \<Longrightarrow> \<forall>(k, v) \<in> set (map_set k v m). P k v"
  using map_set_values [of k v m] by fastforce

lemma rebuilt_response:
  assumes "unmarshal_response m = Some probe" "prID probe \<noteq> []" "node (maxNestingDepth - 1) J" "raw_of J = nr"
  shows "\<exists>j. unmarshal_response (rebuilt_message probe nr) =
    Some \<lparr>prJSONRPC = j, prID = prID probe, prResult = nr, prError = []\<rparr>"
proof -
  from assms(1) obtain ms0 where ms0: "unmarshal_struct m = Some ms0"
    "probe = \<lparr>prJSONRPC = field_raw ''jsonrpc'' ms0, prID = field_raw ''id'' ms0,
       prResult = field_raw ''result'' ms0, prError = field_raw ''error'' ms0\<rparr>"
    by (auto simp: unmarshal_response_def)
  from assms(2) ms0 obtain i where i: "prID probe = raw_of i" "node (maxNestingDepth - 1) i"
    by (metis field_rawE rpcResponseProbe.select_convs(2))
  have "\<exists>j. (if prJSONRPC probe \<noteq> [] then prJSONRPC probe else marshal_string ''2.0'') = raw_of j \<and> node (maxNestingDepth - 1) j"
  proof (cases "prJSONRPC probe = []")
    case True
    then show ?thesis by (intro exI [of _ "JStr (marshal_string ''2.0'')"]) (simp add: str_lit_node str_lit_marshal)
  next
    case False
    with ms0 obtain j where "prJSONRPC probe = raw_of j" "node (maxNestingDepth - 1) j"
      by (metis field_rawE rpcResponseProbe.select_convs(1))
    with False show ?thesis by (intro exI [of _ j]) simp
  qed
  then obtain j where j: "(if prJSONRPC probe \<noteq> [] then prJSONRPC probe else marshal_string ''2.0'') = raw_of j"
    "node (maxNestingDepth - 1) j" by blast
  define ms where "ms = [(marshal_string ''jsonrpc'', j), (marshal_string ''id'', i), (marshal_string ''result'', J)]"
  have "\<forall>(k, v) \<in> set ms. str_lit k \<and> node (maxNestingDepth - 1) v"
    using i j assms(3) by (simp add: ms_def str_lit_marshal)
  moreover have "maxNestingDepth - 1 < maxNestingDepth" by (simp add: maxNestingDepth_def)
  ultimately have u: "unmarshal_struct (rebuilt_message probe nr) = Some ms"
    using unmarshal_struct_object [of ms "maxNestingDepth - 1"] i(1) j(1) assms(4) by (simp add: rebuilt_message_def ms_def)
  then show ?thesis using i(1) assms(4) by (simp add: unmarshal_response_def ms_def response_fields)
qed

lemma json_parse_Nil [simp]: "json_parse [] = None"
proof -
  have "parse_value d [] = None" for d by (cases d) (simp_all add: parse_simps)
  then show ?thesis by (simp add: json_parse_def skip_ws_def)
qed

text \<open>The result object of a parsed response, as a map of nodes two levels below the limit.\<close>

lemma response_result:
  assumes "unmarshal_response m = Some probe" "unmarshal_map (prResult probe) = Some (Some result)"
  obtains jm where "map_wf jm" "\<forall>(k, v) \<in> set jm. valid_utf8 k \<and> node (maxNestingDepth - 2) v"
    "result = map (\<lambda>(k, v). (k, raw_of v)) jm"
proof -
  have D: "maxNestingDepth - 1 = Suc (maxNestingDepth - 2)" "maxNestingDepth - 1 \<le> maxNestingDepth"
    by (simp_all add: maxNestingDepth_def)
  from assms(1) obtain ms0 where ms0: "unmarshal_struct m = Some ms0" "prResult probe = field_raw ''result'' ms0"
    by (auto simp: unmarshal_response_def)
  have "prResult probe \<noteq> []" using assms(2) by (auto simp: unmarshal_map_def)
  with ms0 obtain v where v: "prResult probe = raw_of v" "node (maxNestingDepth - 1) v" by (metis field_rawE)
  have "map_of_json v = Some (Some result)"
    using assms(2) v node_json_parse [OF v(2) D(2)] by (simp add: unmarshal_map_def)
  then obtain tx ms where ms: "v = JObj tx ms" "result = raw_map ms" by (cases v) auto
  from v(2) [unfolded ms(1) D(1)] obtain d' where "Suc (maxNestingDepth - 2) = Suc d'" "\<forall>(k, v) \<in> set ms. str_lit k \<and> node d' v"
    by (rule node_objectD)
  then have "\<forall>(k, v) \<in> set ms. str_lit k \<and> node (maxNestingDepth - 2) v" by simp
  from that [OF conjunct1 [OF node_map_members [OF this]] conjunct2 [OF node_map_members [OF this]]]
  show ?thesis using ms(2) by (simp add: raw_map_nodes)
qed

lemma tools_utf8: "valid_utf8 ''tools''"
  by code_simp

text \<open>
  Replacing the tools of a map of nodes by some of them: the new tools text, the new result
  text, and what it decodes to.
\<close>

lemma rebuild_map:
  assumes jm: "map_wf jm" "\<forall>(k, v) \<in> set jm. valid_utf8 k \<and> node D v" and D: "0 < D" "D < maxNestingDepth"
    and tv: "map_of jm ''tools'' = Some tv" "unmarshal_raws (raw_of tv) = Some elems"
  obtains nt nr J jm' elems' where "marshal_raws (filter P elems) = Some nt"
    "marshal_raw_map (map_set ''tools'' nt (map (\<lambda>(k, v). (k, raw_of v)) jm)) = Some nr"
    "raw_of J = nr" "node (Suc D) J" "unmarshal_map nr = Some (Some (map (\<lambda>(k, v). (k, compact v)) jm'))"
    "\<forall>k. k \<noteq> ''tools'' \<longrightarrow> map_of jm' k = map_of jm k"
    "Option.bind (map_of (map (\<lambda>(k, v). (k, compact v)) jm') ''tools'') unmarshal_raws = Some elems'"
    "map elem_name elems' = map elem_name (filter P elems)"
proof -
  have D': "D \<le> maxNestingDepth" "Suc (D - 1) = D" "D - 1 \<le> maxNestingDepth" "Suc D \<le> maxNestingDepth" using D by simp_all
  have "(''tools'', tv) \<in> set jm" using tv(1) by (rule map_of_SomeD)
  with jm(2) have ntv: "node D tv" by auto
  obtain vs where vs: "elems = map raw_of vs" "\<forall>w \<in> set vs. node (D - 1) w"
    by (rule unmarshal_raws_nodes [OF tv(2) ntv D'(1)])
  define ks where "ks = filter (P \<circ> raw_of) vs"
  have ks: "filter P elems = map raw_of ks" "\<forall>w \<in> set ks. node (D - 1) w" using vs by (simp_all add: ks_def filter_map)
  obtain nv where nv: "marshal_raws (map raw_of ks) = Some (raw_of nv)" "node (Suc (D - 1)) nv" "nv = squash (JArr [] ks)"
    by (rule marshalled_tools [OF ks(2)]) (use D' in simp)
  note nd = nv(2) [unfolded D'(2)]
  define jm' where "jm' = map_set ''tools'' nv jm"
  have wf': "map_wf jm'" unfolding jm'_def using jm(1) by (rule map_wf_set)
  have jm': "\<forall>(k, v) \<in> set jm'. valid_utf8 k \<and> node D v"
    unfolding jm'_def using jm(2) nd tools_utf8
    by (intro map_set_members [where P = "\<lambda>k v. valid_utf8 k \<and> node D v"]) auto
  obtain nr J where nr: "marshal_raw_map (map (\<lambda>(k, v). (k, raw_of v)) jm') = Some nr" "raw_of J = nr" "node (Suc D) J"
    "unmarshal_map nr = Some (Some (map (\<lambda>(k, v). (k, compact v)) jm'))"
    by (rule marshalled_map [OF wf' jm' D'(4)])
  have set: "map_set ''tools'' (raw_of nv) (map (\<lambda>(k, v). (k, raw_of v)) jm) = map (\<lambda>(k, v). (k, raw_of v)) jm'"
    unfolding jm'_def by (rule map_set_map)
  have "map_of jm' ''tools'' = Some nv" by (simp add: jm'_def map_of_map_set)
  moreover have "unmarshal_raws (compact nv) = Some (map raw_of (map squash (map squash ks)))"
    using compact_parse [OF nd D'(1)] by (simp only: unmarshal_raws_def nv(3) bind.bind_lunit squash.simps slice_of.simps option.map)
  ultimately have el: "Option.bind (map_of (map (\<lambda>(k, v). (k, compact v)) jm') ''tools'') unmarshal_raws =
      Some (map raw_of (map squash (map squash ks)))" by (simp add: map_of_raw)
  have "elem_name (raw_of (squash (squash w))) = elem_name (raw_of w)" if "w \<in> set ks" for w
    using elem_name_squash [OF _ D'(3)] squash_node [of "D - 1" w] bspec [OF ks(2) that] by simp
  then have names: "map elem_name (map raw_of (map squash (map squash ks))) = map elem_name (filter P elems)"
    by (simp add: ks(1))
  have others: "\<forall>k. k \<noteq> ''tools'' \<longrightarrow> map_of jm' k = map_of jm k" by (simp add: jm'_def map_of_map_set)
  show ?thesis
    using that [OF _ _ nr(2,3,4) others el names] nv(1) nr(1) by (simp only: ks(1) set)
qed

lemma rebuild_listing:
  assumes "unmarshal_response m = Some probe" "prID probe \<noteq> []"
    and result: "unmarshal_map (prResult probe) = Some (Some result)" "map_of result ''tools'' = Some toolsRaw"
      "unmarshal_raws toolsRaw = Some elems"
  obtains nt nr j r' t' elems' where "marshal_raws (filter P elems) = Some nt"
    "marshal_raw_map (map_set ''tools'' nt result) = Some nr"
    "unmarshal_response (rebuilt_message probe nr) = Some \<lparr>prJSONRPC = j, prID = prID probe, prResult = nr, prError = []\<rparr>"
    "unmarshal_map nr = Some (Some r')" "map_of r' ''tools'' = Some t'" "unmarshal_raws t' = Some elems'"
    "map elem_name elems' = map elem_name (filter P elems)"
    "\<forall>k. k \<noteq> ''tools'' \<longrightarrow> map_of r' k = Option.bind (map_of result k) compact_raw"
proof -
  define D where "D = maxNestingDepth - 2"
  have D: "maxNestingDepth - 1 = Suc D" "0 < D" "D < maxNestingDepth" by (simp_all add: D_def maxNestingDepth_def)
  obtain jm where jm: "map_wf jm" "\<forall>(k, v) \<in> set jm. valid_utf8 k \<and> node D v" "result = map (\<lambda>(k, v). (k, raw_of v)) jm"
    unfolding D_def by (rule response_result [OF assms(1) result(1)])
  from result(2) obtain tv where tv: "map_of jm ''tools'' = Some tv" "toolsRaw = raw_of tv"
    by (auto simp: jm(3) map_of_raw)
  obtain nt nr J jm' elems' where r: "marshal_raws (filter P elems) = Some nt"
    "marshal_raw_map (map_set ''tools'' nt (map (\<lambda>(k, v). (k, raw_of v)) jm)) = Some nr"
    "raw_of J = nr" "node (Suc D) J" "unmarshal_map nr = Some (Some (map (\<lambda>(k, v). (k, compact v)) jm'))"
    "\<forall>k. k \<noteq> ''tools'' \<longrightarrow> map_of jm' k = map_of jm k"
    "Option.bind (map_of (map (\<lambda>(k, v). (k, compact v)) jm') ''tools'') unmarshal_raws = Some elems'"
    "map elem_name elems' = map elem_name (filter P elems)"
    by (rule rebuild_map [OF jm(1,2) D(2,3) tv(1) result(3) [unfolded tv(2)]])
  obtain t' where t': "map_of (map (\<lambda>(k, v). (k, compact v)) jm') ''tools'' = Some t'" "unmarshal_raws t' = Some elems'"
    using r(7) by auto
  obtain j where j: "unmarshal_response (rebuilt_message probe nr) =
      Some \<lparr>prJSONRPC = j, prID = prID probe, prResult = nr, prError = []\<rparr>"
    using rebuilt_response [OF assms(1,2) r(4) [folded D(1)] r(3)] by blast
  have "Option.bind (map_of result k) compact_raw = map_option compact (map_of jm k)" for k
  proof (cases "map_of jm k")
    case (Some w)
    then have "(k, w) \<in> set jm" by (rule map_of_SomeD)
    with jm(2) have "node D w" by auto
    then show ?thesis using Some compact_raw_node [of D w] D(3) by (simp add: map_of_raw jm(3))
  qed (simp add: map_of_raw jm(3))
  then have "\<forall>k. k \<noteq> ''tools'' \<longrightarrow> map_of (map (\<lambda>(k, v). (k, compact v)) jm') k = Option.bind (map_of result k) compact_raw"
    using r(6) by (simp add: map_of_raw)
  from that [OF r(1) r(2) [folded jm(3)] j r(5) t' r(8) this] show ?thesis .
qed

subsection \<open>Outcomes for one message\<close>

text \<open>
  The tools array that a response message carries for one of the given ids; \<open>None\<close> when it is
  not such a response, is an error response, or has no tools array.
\<close>

definition listing :: "bytes list \<Rightarrow> bytes \<Rightarrow> bytes list option" where
  "listing is m =
     do { p \<leftarrow> unmarshal_response m;
          (if prID p = [] \<or> prID p \<notin> set is \<or> has_error p then None
           else do { om \<leftarrow> unmarshal_map (prResult p); r \<leftarrow> om; t \<leftarrow> map_of r ''tools''; unmarshal_raws t }) }"

lemma listingE:
  assumes "listing is m = Some elems"
  obtains p r t where "unmarshal_response m = Some p" "prID p \<noteq> []" "prID p \<in> set is" "\<not> has_error p"
    "unmarshal_map (prResult p) = Some (Some r)" "map_of r ''tools'' = Some t" "unmarshal_raws t = Some elems"
  using assms by (auto simp: listing_def split: if_splits)

definition drift_reason :: "go_rt \<Rightarrow> rewriteState \<Rightarrow> bytes list \<Rightarrow> bytes" where
  "drift_reason rt st elems = (case lock st of None \<Rightarrow> [] | Some l \<Rightarrow> verify (json_err rt) l elems)"

definition enforcing :: "rewriteState \<Rightarrow> bool" where
  "enforcing st = (case lock st of None \<Rightarrow> False | Some l \<Rightarrow> enforce l)"

lemma noteOnce_sel [simp]:
  "policy (noteOnce r st) = policy st" "strict (noteOnce r st) = strict st" "lock (noteOnce r st) = lock st"
  "ids (noteOnce r st) = ids st" "scanIDs (noteOnce r st) = scanIDs st" "scanner (noteOnce r st) = scanner st"
  "drift (noteOnce r st) = drift st" "filtered (noteOnce r st) = filtered st"
  "scanVerdict (noteOnce r st) = scanVerdict st" "scanBlocked (noteOnce r st) = scanBlocked st"
  "scanFlagged (noteOnce r st) = scanFlagged st"
  by (simp_all add: noteOnce_def)

text \<open>How a tools listing is examined: verification first, then the policy.\<close>

lemma examine_listing:
  assumes l: "listing (ids st) m = Some elems"
  obtains p where "unmarshal_response m = Some p"
    "drift_reason rt st elems \<noteq> [] \<Longrightarrow> enforcing st \<Longrightarrow> \<exists>st'. drift st' \<and>
       examineMessage rt st m = (msgBlock (prID p) (-32004) (drift_reason rt st elems), st')"
    "\<lbrakk>drift_reason rt st elems = [] \<or> \<not> enforcing st; filter_tools (policy st) (strict st) elems = None\<rbrakk> \<Longrightarrow>
       \<exists>c r st'. examineMessage rt st m = (msgBlock (prID p) c r, st')"
    "\<And>kept. \<lbrakk>drift_reason rt st elems = [] \<or> \<not> enforcing st; filter_tools (policy st) (strict st) elems = Some (kept, 0)\<rbrakk> \<Longrightarrow>
       \<exists>st'. examineMessage rt st m = (msgPass False, st')"
    "\<And>kept k. \<lbrakk>drift_reason rt st elems = [] \<or> \<not> enforcing st; filter_tools (policy st) (strict st) elems = Some (kept, Suc k)\<rbrakk> \<Longrightarrow>
       \<exists>out st' elems'. examineMessage rt st m = (msgRewrite out, st') \<and> filtered st' = filtered st + Suc k \<and>
         listing (ids st) out = Some elems' \<and> map elem_name elems' = map elem_name (filter (keeps (policy st)) elems)"
proof -
  from l obtain p r t where p: "unmarshal_response m = Some p" "prID p \<noteq> []" "prID p \<in> set (ids st)" "\<not> has_error p"
    "unmarshal_map (prResult p) = Some (Some r)" "map_of r ''tools'' = Some t" "unmarshal_raws t = Some elems" by (rule listingE)
  define st1 where "st1 = (if drift_reason rt st elems \<noteq> [] then noteOnce (drift_reason rt st elems) (st\<lparr>drift := True\<rparr>) else st)"
  have st1: "policy st1 = policy st" "strict st1 = strict st" "filtered st1 = filtered st" by (simp_all add: st1_def)
  have ex: "examineMessage rt st m =
     (if drift_reason rt st elems \<noteq> [] \<and> enforcing st then (msgBlock (prID p) (-32004) (drift_reason rt st elems), st1)
      else case filter_tools (policy st) (strict st) elems of
        None \<Rightarrow> (msgBlock (prID p) (strictCode st1) ''tools/list entry without a tool name'', st1)
      | Some (kept, removed) \<Rightarrow>
          if removed = 0 then (msgPass False, st1)
          else (let st2 = st1\<lparr>filtered := filtered st1 + removed\<rparr>;
                    fail = (msgBlock (prID p) (strictCode st2) ''tools/list result could not be rebuilt'', st2)
                in case marshal_raws kept of
             None \<Rightarrow> fail
           | Some nt \<Rightarrow> (case marshal_raw_map (map_set ''tools'' nt r) of
               None \<Rightarrow> fail
             | Some nr \<Rightarrow> (msgRewrite (rebuilt_message p nr), st2))))"
    using p unfolding examineMessage_def st1_def drift_reason_def enforcing_def hasID_def
    by (cases "lock st"; cases "filter_tools (policy st) (strict st) elems") (simp_all add: Let_def split: prod.split)
  show ?thesis
  proof (rule that [OF p(1)])
    assume "drift_reason rt st elems \<noteq> []" "enforcing st"
    then show "\<exists>st'. drift st' \<and> examineMessage rt st m = (msgBlock (prID p) (-32004) (drift_reason rt st elems), st')"
      unfolding ex by (simp add: st1_def)
  next
    assume "drift_reason rt st elems = [] \<or> \<not> enforcing st" "filter_tools (policy st) (strict st) elems = None"
    then show "\<exists>c r st'. examineMessage rt st m = (msgBlock (prID p) c r, st')" unfolding ex by auto
  next
    fix kept assume "drift_reason rt st elems = [] \<or> \<not> enforcing st" "filter_tools (policy st) (strict st) elems = Some (kept, 0)"
    then show "\<exists>st'. examineMessage rt st m = (msgPass False, st')" unfolding ex by auto
  next
    fix kept k assume h: "drift_reason rt st elems = [] \<or> \<not> enforcing st"
      "filter_tools (policy st) (strict st) elems = Some (kept, Suc k)"
    have kept: "kept = filter (keeps (policy st)) elems" using filter_tools_spec [OF h(2)] by simp
    obtain nt nr j r' t' elems' where n: "marshal_raws kept = Some nt" "marshal_raw_map (map_set ''tools'' nt r) = Some nr"
      "unmarshal_response (rebuilt_message p nr) = Some \<lparr>prJSONRPC = j, prID = prID p, prResult = nr, prError = []\<rparr>"
      "unmarshal_map nr = Some (Some r')" "map_of r' ''tools'' = Some t'" "unmarshal_raws t' = Some elems'"
      "map elem_name elems' = map elem_name (filter (keeps (policy st)) elems)"
      unfolding kept by (rule rebuild_listing [OF p(1,2,5,6,7)])
    have "listing (ids st) (rebuilt_message p nr) = Some elems'"
      using n(3-6) p(2,3) by (simp add: listing_def has_error_def)
    moreover have "examineMessage rt st m = (msgRewrite (rebuilt_message p nr), st1\<lparr>filtered := filtered st1 + Suc k\<rparr>)"
      using h n(1,2) unfolding ex by auto
    ultimately show "\<exists>out st' elems'. examineMessage rt st m = (msgRewrite out, st') \<and> filtered st' = filtered st + Suc k \<and>
         listing (ids st) out = Some elems' \<and> map elem_name elems' = map elem_name (filter (keeps (policy st)) elems)"
      using n(7) st1(3) by (intro exI conjI) (assumption | simp)+
  qed
qed

lemma examine_no_listing:
  assumes "listing (ids st) m = None"
  shows "snd (examineMessage rt st m) = st \<and> (\<forall>out. fst (examineMessage rt st m) \<noteq> msgRewrite out)"
proof (cases "unmarshal_response m")
  case None
  then show ?thesis by (simp add: examineMessage_def)
next
  case (Some p)
  show ?thesis
  proof (cases "prID p = [] \<or> prID p \<notin> set (ids st) \<or> has_error p")
    case True
    then show ?thesis using Some by (auto simp: examineMessage_def hasID_def)
  next
    case False
    have n: "do { om \<leftarrow> unmarshal_map (prResult p); r \<leftarrow> om; t \<leftarrow> map_of r ''tools''; unmarshal_raws t } = None"
      using assms Some False by (simp add: listing_def)
    consider "unmarshal_map (prResult p) = None" | "unmarshal_map (prResult p) = Some None"
      | r where "unmarshal_map (prResult p) = Some (Some r)" "map_of r ''tools'' = None"
      | r t where "unmarshal_map (prResult p) = Some (Some r)" "map_of r ''tools'' = Some t"
      by (metis not_Some_eq)
    then show ?thesis using n Some False by cases (simp_all add: examineMessage_def hasID_def Let_def)
  qed
qed

lemma scanMessage_no_rewrite: "fst (scanMessage rt sc st m) \<noteq> msgRewrite out"
  by (simp add: scanMessage_def Let_def split: option.split sum.split)

lemma handle_route:
  "handleMessage rt st m = examineMessage rt st m \<or>
     (\<exists>sc p. scanner st = Some sc \<and> unmarshal_response m = Some p \<and> prID p \<in> set (scanIDs st) \<and>
        handleMessage rt st m = scanMessage rt sc st m)"
  by (cases "scanner st"; cases "unmarshal_struct m") (auto simp: handleMessage_def unmarshal_response_def hasScanID_def)

text \<open>Requests whose list and call ids are apart, the case the routing by id is made for.\<close>

definition ids_apart :: "rewriteState \<Rightarrow> bool" where
  "ids_apart st \<longleftrightarrow> scanner st = None \<or> set (ids st) \<inter> set (scanIDs st) = {}"

lemma handle_listing:
  assumes "ids_apart st" "listing (ids st) m = Some elems"
  shows "handleMessage rt st m = examineMessage rt st m"
proof -
  from assms(2) obtain p where "unmarshal_response m = Some p" "prID p \<in> set (ids st)" by (auto elim: listingE)
  with handle_route [of rt st m] assms(1) show ?thesis by (auto simp: ids_apart_def)
qed

text \<open>The bytes the client receives for a message, \<open>None\<close> when it is blocked.\<close>

fun delivered :: "bytes \<Rightarrow> msgOutcome \<Rightarrow> bytes option" where
  "delivered m (msgPass _) = Some m"
| "delivered m (msgRewrite out) = Some out"
| "delivered m (msgBlock _ _ _) = None"

lemma rewrite_listing:
  assumes "examineMessage rt st m = (msgRewrite out, st')"
  obtains elems elems' where "listing (ids st) m = Some elems" "listing (ids st) out = Some elems'"
    "map elem_name elems' = map elem_name (filter (keeps (policy st)) elems)"
    "filtered st' = filtered st + (length elems - length elems')"
    "strict st \<Longrightarrow> \<forall>el \<in> set elems. elem_name el \<noteq> None"
    "drift_reason rt st elems = [] \<or> \<not> enforcing st"
proof -
  have "listing (ids st) m \<noteq> None" using examine_no_listing [of st m rt] assms by auto
  then obtain elems where l: "listing (ids st) m = Some elems" by blast
  note cases = examine_listing [OF l, of rt]
  have e: "drift_reason rt st elems = [] \<or> \<not> enforcing st" using cases assms by fastforce
  show ?thesis
  proof (cases "filter_tools (policy st) (strict st) elems")
    case None
    then show ?thesis using cases e assms by fastforce
  next
    case (Some kr)
    then obtain kept k where k: "filter_tools (policy st) (strict st) elems = Some (kept, k)" by (cases kr) auto
    then have "k \<noteq> 0" using cases e assms by fastforce
    then obtain k' where k': "k = Suc k'" by (cases k) auto
    obtain elems' where el: "filtered st' = filtered st + Suc k'" "listing (ids st) out = Some elems'"
      "map elem_name elems' = map elem_name (filter (keeps (policy st)) elems)"
      using cases e assms k k' by fastforce
    have "length elems' = length kept" "Suc k' + length kept = length elems"
      using arg_cong [OF el(3), of length] filter_tools_spec [OF k] k' by auto
    then have "filtered st' = filtered st + (length elems - length elems')" using el(1) by linarith
    then show ?thesis using that [OF l el(2,3)] filter_tools_spec [OF k] e by blast
  qed
qed


text \<open>Concrete data for the examples below: an allowlist of one tool and a listing of two.\<close>

definition plain_rt :: go_rt where
  "plain_rt = \<lparr>json_err = (\<lambda>_. ''bad json''), is_print = (\<lambda>_. True), map_order = (\<lambda>ks. ks),
     scan_answer = (\<lambda>_ _. Inl ''no scanner'')\<rparr>"

definition start_state :: rewriteState where
  "start_state = \<lparr>ids = [''1''], policy = newToolPolicy (zero_upstream\<lparr>ToolsAllow := [''a'']\<rparr>), lock = None,
     strict = True, filtered = 0, drift = False, stNote = [], scanner = None, scanIDs = [], scanVerdict = [],
     scanScore = 0, scanCategories = [], scanBlocked = False, scanFlagged = False, scanErr = [], scanCalls = 0\<rparr>"

definition response_text :: "bytes list \<Rightarrow> bytes" where
  "response_text names = ''{'' @ marshal_string ''id'' @ '':1, '' @ marshal_string ''result'' @ '': {'' @
     marshal_string ''tools'' @ '': ['' @ join '', '' (map tool_text names) @ ''] }}''"

definition filtered_text :: bytes where
  "filtered_text = rebuilt_message \<lparr>prJSONRPC = [], prID = ''1'', prResult = [], prError = []\<rparr>
     (''{'' @ marshal_string ''tools'' @ '':['' @ tool_text ''a'' @ '']}'')"


lemma delivered_named:
  assumes "ids_apart st" "handleMessage rt st m = (oc, st')" "delivered m oc = Some d" "listing (ids st) d = Some elems"
  shows "(\<forall>el \<in> set elems. \<forall>n. elem_name el = Some n \<longrightarrow> allows (policy st) n) \<and>
    (strict st \<longrightarrow> (\<forall>el \<in> set elems. elem_name el \<noteq> None))"
proof (cases oc)
  case (msgPass b)
  with assms have l: "listing (ids st) m = Some elems" by simp
  have h: "examineMessage rt st m = (msgPass b, st')" using handle_listing [OF assms(1) l] assms(2) msgPass by simp
  note ex = examine_listing [OF l, of rt]
  have e: "drift_reason rt st elems = [] \<or> \<not> enforcing st" using ex h by fastforce
  have "filter_tools (policy st) (strict st) elems \<noteq> None" using ex e h by fastforce
  then obtain kept k where k: "filter_tools (policy st) (strict st) elems = Some (kept, k)" by auto
  have "k \<noteq> Suc j" for j using ex e h k by fastforce
  then have "k = 0" by (cases k) auto
  with k have "\<forall>el \<in> set elems. keeps (policy st) el" "strict st \<longrightarrow> (\<forall>el \<in> set elems. elem_name el \<noteq> None)"
    using filter_tools_zero filter_tools_spec by blast+
  then show ?thesis by (auto simp: keeps_def)
next
  case (msgRewrite out)
  have "examineMessage rt st m = (msgRewrite out, st')"
    using handle_route [of rt st m] assms(2) scanMessage_no_rewrite msgRewrite by (metis fst_conv)
  then obtain es es' where r: "listing (ids st) out = Some es'"
    "map elem_name es' = map elem_name (filter (keeps (policy st)) es)"
    "strict st \<longrightarrow> (\<forall>el \<in> set es. elem_name el \<noteq> None)" by (rule rewrite_listing) blast
  have "es' = elems" using r(1) assms(3,4) msgRewrite by simp
  then have img: "elem_name ` set elems = elem_name ` set (filter (keeps (policy st)) es)" using r(2) by (metis set_map)
  have "\<exists>e \<in> set es. keeps (policy st) e \<and> elem_name el = elem_name e" if "el \<in> set elems" for el
  proof -
    have "elem_name el \<in> elem_name ` set (filter (keeps (policy st)) es)" using that img by blast
    then show ?thesis by auto
  qed
  then show ?thesis using r(3) unfolding keeps_def by (metis option.simps(5))
next
  case (msgBlock i c r)
  then show ?thesis using assms(3) by simp
qed

lemma delivered_allowed:
  "ids_apart st \<Longrightarrow> handleMessage rt st m = (oc, st') \<Longrightarrow> delivered m oc = Some d \<Longrightarrow>
     \<forall>elems. listing (ids st) d = Some elems \<longrightarrow>
       (\<forall>el \<in> set elems. \<forall>n. elem_name el = Some n \<longrightarrow> allows (policy st) n)"
  using delivered_named by blast





subsection \<open>The state across messages\<close>

lemma recordScan_frame [simp]:
  "ids (recordScan r st) = ids st" "policy (recordScan r st) = policy st" "lock (recordScan r st) = lock st"
  "strict (recordScan r st) = strict st" "scanner (recordScan r st) = scanner st" "scanIDs (recordScan r st) = scanIDs st"
  by (simp_all add: recordScan_def Let_def)

text \<open>What a request is checked against does not change while its response is processed.\<close>

definition same_checks :: "rewriteState \<Rightarrow> rewriteState \<Rightarrow> bool" where
  "same_checks st st' \<longleftrightarrow> ids st' = ids st \<and> policy st' = policy st \<and> lock st' = lock st \<and> strict st' = strict st \<and>
     scanner st' = scanner st \<and> scanIDs st' = scanIDs st"

lemma same_checks_refl [simp]: "same_checks st st"
  by (simp add: same_checks_def)

lemma same_checks_trans: "same_checks a b \<Longrightarrow> same_checks b c \<Longrightarrow> same_checks a c"
  by (simp add: same_checks_def)

lemma scanMessage_checks: "same_checks st (snd (scanMessage rt sc st m))"
  by (simp add: scanMessage_def same_checks_def Let_def split: option.split sum.split)

lemma examineMessage_checks: "same_checks st (snd (examineMessage rt st m))"
proof (cases "listing (ids st) m")
  case None
  then show ?thesis using examine_no_listing by simp
next
  case (Some elems)
  then obtain p r t where p: "unmarshal_response m = Some p" "prID p \<noteq> []" "prID p \<in> set (ids st)" "\<not> has_error p"
    "unmarshal_map (prResult p) = Some (Some r)" "map_of r ''tools'' = Some t" "unmarshal_raws t = Some elems" by (rule listingE)
  then show ?thesis
    unfolding examineMessage_def
    by (simp add: hasID_def Let_def same_checks_def split: option.split prod.split)
qed

lemma handleMessage_checks: "same_checks st (snd (handleMessage rt st m))"
  using handle_route [of rt st m] scanMessage_checks examineMessage_checks by metis

lemma handle_batch_checks: "same_checks st (snd (handle_batch rt st ms))"
proof (induction ms arbitrary: st)
  case (Cons m ms)
  obtain oc st1 where h: "handleMessage rt st m = (oc, st1)" by fastforce
  then have s: "same_checks st st1" using handleMessage_checks by (metis snd_conv)
  have r: "same_checks st (snd (handle_batch rt st1 ms))" using Cons.IH [of st1] s same_checks_trans by blast
  then show ?case using h s
    by (cases oc; cases "handle_batch rt st1 ms") (auto split: sum.split)
qed simp

lemma ids_apart_checks: "same_checks st st' \<Longrightarrow> ids_apart st \<Longrightarrow> ids_apart st'"
  by (simp add: same_checks_def ids_apart_def)

text \<open>The outcome of a batch, message by message.\<close>

lemma handle_batch_Cons:
  assumes "handle_batch rt st (m # ms) = (Inr (outs, chg), st')"
  obtains oc st1 d ds c where "handleMessage rt st m = (oc, st1)" "delivered m oc = Some d" "outs = d # ds"
    "handle_batch rt st1 ms = (Inr (ds, c), st')"
proof -
  obtain oc st1 where h: "handleMessage rt st m = (oc, st1)" by fastforce
  obtain res st2 where r: "handle_batch rt st1 ms = (res, st2)" by fastforce
  show ?thesis
    using assms h r by (cases oc; cases res) (auto split: if_splits intro!: that)
qed

text \<open>
  A batch is answered as a whole or message by message: if it is not blocked, the array sent
  to the client has one entry per upstream message, and no entry lists a tool the policy does
  not allow.
\<close>

theorem batch_tools_allowed:
  assumes "ids_apart st" "handle_batch rt st msgs = (Inr (outs, chg), st')"
  shows "list_all2 (\<lambda>m d. \<forall>elems. listing (ids st) d = Some elems \<longrightarrow>
    (\<forall>el \<in> set elems. \<forall>n. elem_name el = Some n \<longrightarrow> allows (policy st) n)) msgs outs"
  using assms
proof (induction msgs arbitrary: st outs chg)
  case (Cons m ms)
  from Cons.prems(2) obtain oc st1 d ds c where h: "handleMessage rt st m = (oc, st1)" "delivered m oc = Some d"
    "outs = d # ds" "handle_batch rt st1 ms = (Inr (ds, c), st')" by (rule handle_batch_Cons)
  have s: "same_checks st st1" using handleMessage_checks h(1) by (metis snd_conv)
  then have eq: "ids st1 = ids st" "policy st1 = policy st" by (simp_all add: same_checks_def)
  have "list_all2 (\<lambda>m d. \<forall>elems. listing (ids st) d = Some elems \<longrightarrow>
    (\<forall>el \<in> set elems. \<forall>n. elem_name el = Some n \<longrightarrow> allows (policy st) n)) ms ds"
    using Cons.IH [OF ids_apart_checks [OF s Cons.prems(1)] h(4)] by (simp only: eq)
  then show ?case using delivered_allowed [OF Cons.prems(1) h(1,2)] h(3) by simp
qed simp

theorem batch_tools_allowed_witness:
  "\<exists>outs st'. handle_batch plain_rt start_state [response_text [''a'', ''b''], ''{}''] = (Inr (outs, True), st') \<and>
     list_all2 (\<lambda>m d. \<forall>elems. listing (ids start_state) d = Some elems \<longrightarrow>
       (\<forall>el \<in> set elems. \<forall>n. elem_name el = Some n \<longrightarrow> allows (policy start_state) n))
       [response_text [''a'', ''b''], ''{}''] outs"
proof -
  have "fst (handle_batch plain_rt start_state [response_text [''a'', ''b''], ''{}'']) = Inr ([filtered_text, ''{}''], True)"
    by code_simp
  then obtain st' where h: "handle_batch plain_rt start_state [response_text [''a'', ''b''], ''{}''] =
      (Inr ([filtered_text, ''{}''], True), st')" by (metis prod.collapse)
  have a: "ids_apart start_state" by (simp add: ids_apart_def start_state_def)
  from batch_tools_allowed [OF a h] h show ?thesis by blast
qed

end
