(* ===== verification/Scanning.thy ===== *)
theory Scanning
  imports Filtering
begin

text \<open>
  Scanning of \<^verbatim>\<open>tools/call\<close> results: which strings of a result reach the scanner, when a result is
  withheld, and what the audit metadata of several scans amounts to.
\<close>

subsection \<open>The strings that are scanned\<close>

text \<open>A string value of a document: an element or a member at any depth, the last of equal keys.\<close>

inductive string_leaf :: "json \<Rightarrow> bytes \<Rightarrow> bool" where
  leaf_str [intro]: "string_leaf (JStr l) (unquote l)"
| leaf_elem [intro]: "v \<in> set vs \<Longrightarrow> string_leaf v s \<Longrightarrow> string_leaf (JArr t vs) s"
| leaf_member [intro]: "map_of (node_map ms) k = Some v \<Longrightarrow> string_leaf v s \<Longrightarrow> string_leaf (JObj t ms) s"

inductive_simps string_leaf_simps:
  "string_leaf JNull s" "string_leaf (JBool b) s" "string_leaf (JNum n) s" "string_leaf (JStr l) s"

definition strings_map :: "(bytes list \<Rightarrow> bytes list) \<Rightarrow> (bytes \<times> json) list \<Rightarrow> (bytes \<times> bytes list) list" where
  "strings_map ord ms = build_map (map (\<lambda>(k, v). (unquote k, strings_of ord v)) ms)"

lemma strings_map_nodes: "strings_map ord ms = map (\<lambda>(k, v). (k, strings_of ord v)) (node_map ms)"
proof -
  have "map (\<lambda>(k, v). (unquote k, strings_of ord v)) ms =
      map (\<lambda>(k, v). (k, strings_of ord v)) (map (\<lambda>(k, v). (unquote k, v)) ms)"
    by (simp add: comp_def case_prod_unfold)
  then show ?thesis unfolding strings_map_def node_map_def build_map_map [symmetric] by (rule arg_cong)
qed

lemma strings_of_obj:
  "strings_of ord (JObj t ms) =
     concat (map (\<lambda>k. case map_of (node_map ms) k of Some v \<Rightarrow> strings_of ord v | None \<Rightarrow> []) (ord (map fst (node_map ms))))"
proof -
  have "map_of (strings_map ord ms) k = map_option (strings_of ord) (map_of (node_map ms) k)" for k
    by (simp add: strings_map_nodes map_of_raw)
  moreover have "map fst (strings_map ord ms) = map fst (node_map ms)"
    by (simp add: strings_map_nodes comp_def case_prod_unfold)
  ultimately show ?thesis
    by (simp add: Let_def strings_map_def [symmetric]) (auto intro!: arg_cong [where f = concat] split: option.split)
qed

declare strings_of.simps(4) [simp del]

lemma leaf_scanned:
  assumes ord: "\<And>ks. set ks \<subseteq> set (ord ks)"
  shows "string_leaf v s \<Longrightarrow> s \<in> set (strings_of ord v)"
proof (induction rule: string_leaf.induct)
  case (leaf_member ms k v s t)
  have "k \<in> set (ord (map fst (node_map ms)))"
    using leaf_member(1) ord [of "map fst (node_map ms)"] by (metis (no_types) domI dom_map_of_conv_image_fst list.set_map subsetD)
  then show ?case using leaf_member by (force simp: strings_of_obj)
qed auto

lemma scanned_leaf: "s \<in> set (strings_of ord v) \<Longrightarrow> string_leaf v s \<or> s = []"
proof (induction v arbitrary: s)
  case (JObj t ms)
  from JObj.prems obtain k where "s \<in> set (case map_of (node_map ms) k of Some v \<Rightarrow> strings_of ord v | None \<Rightarrow> [])"
    unfolding strings_of_obj set_concat set_map by blast
  then obtain v where kv: "map_of (node_map ms) k = Some v" "s \<in> set (strings_of ord v)"
    by (cases "map_of (node_map ms) k") auto
  have "(k, v) \<in> set (map (\<lambda>(k, v). (unquote k, v)) ms)"
    using map_of_SomeD [OF kv(1)] build_map_values unfolding node_map_def by blast
  then obtain k0 where "(k0, v) \<in> set ms" by auto
  then have "string_leaf v s \<or> s = []" using JObj.IH [of "(k0, v)" v s] kv(2) by (auto simp: snds.simps)
  with kv(1) show ?case by blast
qed (auto simp: string_leaf_simps)

text \<open>
  C35. \<^verbatim>\<open>collectStrings\<close> is complete and adds nothing: every string value of a result, at any depth
  and decoded from its escapes, is handed to the scanner, and whatever is handed over is such a
  string or empty.
\<close>

theorem collectStrings_exact:
  assumes "\<And>ks. set (map_order rt ks) = set ks" and "json_parse raw = Some v"
  shows "{s. string_leaf v s} \<subseteq> set (collectStrings rt raw []) \<and>
    set (collectStrings rt raw []) \<subseteq> {s. string_leaf v s} \<union> {[]}"
  using leaf_scanned [of "map_order rt" v] scanned_leaf [of _ "map_order rt" v] assms
  by (auto simp: collectStrings_def)

theorem collectStrings_exact_witness:
  "{s. string_leaf (JArr ''[null]'' [JNull]) s} \<subseteq> set (collectStrings plain_rt ''[null]'' []) \<and>
     set (collectStrings plain_rt ''[null]'' []) \<subseteq> {s. string_leaf (JArr ''[null]'' [JNull]) s} \<union> {[]}"
proof (rule collectStrings_exact)
  show "set (map_order plain_rt ks) = set ks" for ks by (simp add: plain_rt_def)
  show "json_parse ''[null]'' = Some (JArr ''[null]'' [JNull])" by code_simp
qed

text \<open>The recursion of the source: the same bytes decoded as a string, an array, an object in turn.\<close>

lemma collectStrings_json: "json_parse raw = Some v \<Longrightarrow> collectStrings rt raw out = out @ strings_of (map_order rt) v"
  by (simp add: collectStrings_def)

lemma collect_fold:
  "\<forall>v \<in> set vs. node d v \<Longrightarrow> d \<le> maxNestingDepth \<Longrightarrow>
     foldl (\<lambda>o1 e. collectStrings rt e o1) out (map raw_of vs) = out @ concat (map (strings_of (map_order rt)) vs)"
  by (induction vs arbitrary: out) (auto simp: collectStrings_json [OF node_json_parse])

text \<open>
  The traversal of the parsed value is the recursion of the source, which decodes the same
  bytes again at every level.
\<close>

theorem collectStrings_recursion:
  assumes "\<And>ks. set (map_order rt ks) \<subseteq> set ks"
  shows "collectStrings rt raw out =
    (case unmarshal_string raw of
       Some s \<Rightarrow> out @ [s]
     | None \<Rightarrow>
         (case unmarshal_raws raw of
            Some es \<Rightarrow> foldl (\<lambda>o1 e. collectStrings rt e o1) out es
          | None \<Rightarrow>
              (case unmarshal_map raw of
                 Some (Some m) \<Rightarrow>
                   foldl (\<lambda>o1 k. collectStrings rt (the (map_of m k)) o1) out (map_order rt (map fst m))
               | _ \<Rightarrow> out)))"
proof (cases "json_parse raw")
  case None
  then show ?thesis by (simp add: collectStrings_def unmarshal_string_def unmarshal_raws_def unmarshal_map_def)
next
  case (Some v)
  have n: "node maxNestingDepth v" using Some by (rule json_parse_node)
  note defs = collectStrings_json [OF Some] unmarshal_string_def unmarshal_raws_def unmarshal_map_def Some
  show ?thesis
  proof (cases v)
    case (JArr t vs)
    from n [unfolded JArr] obtain d where "maxNestingDepth = Suc d" "\<forall>w \<in> set vs. node d w" by (rule node_arrayD)
    with JArr collect_fold [of vs d rt out] show ?thesis by (simp add: defs)
  next
    case (JObj t ms)
    from n [unfolded JObj] obtain d where d: "maxNestingDepth = Suc d" "\<forall>(k, w) \<in> set ms. str_lit k \<and> node d w"
      by (rule node_objectD)
    have nm: "\<forall>(k, w) \<in> set (node_map ms). node d w" using node_map_members [OF d(2)] by auto
    have keys: "map fst (raw_map ms) = map fst (node_map ms)" by (simp add: raw_map_nodes comp_def case_prod_unfold)
    have step: "collectStrings rt (the (map_of (raw_map ms) k)) o1 =
        o1 @ (case map_of (node_map ms) k of Some w \<Rightarrow> strings_of (map_order rt) w | None \<Rightarrow> [])"
      if k: "k \<in> set (map_order rt (map fst (node_map ms)))" for k o1
    proof -
      from k assms have "k \<in> set (map fst (node_map ms))" by blast
      then obtain w where w: "map_of (node_map ms) k = Some w" by (metis domD dom_map_of_conv_image_fst list.set_map)
      then have "node d w" using nm map_of_SomeD by fastforce
      then have "json_parse (raw_of w) = Some w" using d(1) node_json_parse by auto
      then show ?thesis using w by (simp add: raw_map_nodes map_of_raw collectStrings_json)
    qed
    have "foldl (\<lambda>o1 k. collectStrings rt (the (map_of (raw_map ms) k)) o1) out ks =
        out @ concat (map (\<lambda>k. case map_of (node_map ms) k of Some w \<Rightarrow> strings_of (map_order rt) w | None \<Rightarrow> []) ks)"
      if "set ks \<subseteq> set (map_order rt (map fst (node_map ms)))" for ks
      using that by (induction ks arbitrary: out) (simp_all add: step)
    then show ?thesis using JObj by (simp add: defs keys strings_of_obj)
  qed (simp_all add: defs)
qed

theorem collectStrings_recursion_witness:
  "collectStrings plain_rt ''[null]'' [] = foldl (\<lambda>o1 e. collectStrings plain_rt e o1) [] [''null'']"
proof -
  have 1: "set (map_order plain_rt ks) \<subseteq> set ks" for ks by (simp add: plain_rt_def)
  have 2: "unmarshal_string ''[null]'' = None \<and> unmarshal_raws ''[null]'' = Some [''null'']" by code_simp
  show ?thesis using collectStrings_recursion [OF 1, where raw = "''[null]''" and out = "[]"] 2 by simp
qed

subsection \<open>When a result is withheld\<close>

definition scan_content :: "go_rt \<Rightarrow> rpcResponseProbe \<Rightarrow> bytes" where
  "scan_content rt p = join [LF] (collectStrings rt (prResult p) [])"

lemma handle_scan:
  assumes "scanner st = Some sc" "unmarshal_response m = Some p" "prID p \<noteq> []" "prID p \<in> set (scanIDs st)"
  shows "handleMessage rt st m = scanMessage rt sc st m"
  using assms by (auto simp: handleMessage_def unmarshal_response_def hasScanID_def)

text \<open>
  C29. The result of a tool call is withheld exactly when the scanner answered with a verdict at
  or above the threshold and the action is not \<^verbatim>\<open>flag\<close>; then it is replaced by error \<^verbatim>\<open>-32005\<close> for
  its id and the block is recorded.  A scanner that fails lets the result pass unchanged.
\<close>

theorem scan_blocks_exactly:
  assumes "scanner st = Some sc" "unmarshal_response m = Some p" "prID p \<noteq> []" "prID p \<in> set (scanIDs st)"
    and "\<not> has_error p" "prResult p \<noteq> []" "handleMessage rt st m = (oc, st')"
  shows "(delivered m oc = Some m \<or>
      (\<exists>res. Scan rt (scanCalls st) (scan_content rt p) = Inr res \<and> triggers sc (Verdict res) \<and> action sc \<noteq> ''flag'' \<and>
         oc = msgBlock (prID p) (-32005) (scan_reason res) \<and> scanBlocked st')) \<and>
    (\<forall>res. Scan rt (scanCalls st) (scan_content rt p) = Inr res \<longrightarrow> triggers sc (Verdict res) \<longrightarrow>
       action sc \<noteq> ''flag'' \<longrightarrow> delivered m oc = None) \<and>
    (\<forall>e. Scan rt (scanCalls st) (scan_content rt p) = Inl e \<longrightarrow> delivered m oc = Some m)"
proof -
  have h: "scanMessage rt sc st m = (oc, st')" using handle_scan [OF assms(1-4)] assms(7) by simp
  show ?thesis
  proof (cases "Scan rt (scanCalls st) (scan_content rt p)")
    case (Inl e)
    then have "oc = msgPass False" using h assms(2,5,6) by (simp add: scanMessage_def scan_content_def Let_def)
    with Inl show ?thesis by simp
  next
    case (Inr res)
    note sm = h [unfolded scanMessage_def assms(2) option.case scan_content_def [symmetric] Let_def Inr sum.case]
    show ?thesis
    proof (cases "triggers sc (Verdict res) \<and> action sc \<noteq> ''flag''")
      case True
      then have "oc = msgBlock (prID p) promptProofBlockCode (scan_reason res)" "scanBlocked st'"
        using sm assms(5,6) by auto
      with True Inr show ?thesis by (simp add: promptProofBlockCode_def)
    next
      case False
      then have "oc = msgPass False" using sm assms(5,6) by (auto split: if_splits)
      with False Inr show ?thesis by auto
    qed
  qed
qed

definition alarm_rt :: go_rt where
  "alarm_rt = plain_rt\<lparr>scan_answer := (\<lambda>n c. Inr (''{'' @ marshal_string ''verdict'' @ '':'' @ marshal_string ''dangerous'' @ '','' @
     marshal_string ''score'' @ '':9}''))\<rparr>"

definition scan_state :: rewriteState where
  "scan_state = start_state\<lparr>ids := [], policy := None, strict := False, scanIDs := [''1''],
     scanner := Some (scanner_of \<lparr>ppEnabled = True, ppBinary = [], ppThreshold = [], ppAction = [], ppSuspiciousAt = 0,
       ppDangerousAt = 0, ppPool = 0\<rparr>)\<rparr>"

theorem scan_blocks_exactly_witness:
  "\<exists>st'. handleMessage alarm_rt scan_state (response_text [''x'']) =
     (msgBlock ''1'' (-32005) ''tool result blocked by promptproof: dangerous (score 9)'', st') \<and> scanBlocked st'"
proof -
  let ?m = "response_text [''x'']" and ?sc = "the (scanner scan_state)"
  obtain oc st' where h: "handleMessage alarm_rt scan_state ?m = (oc, st')" by fastforce
  have 1: "scanner scan_state = Some ?sc" by (simp add: scan_state_def)
  have u: "map_option (\<lambda>p. (prID p, has_error p, prResult p = [], map_option (\<lambda>r. (Verdict r, Score r))
       (case Scan alarm_rt (scanCalls scan_state) (scan_content alarm_rt p) of Inl _ \<Rightarrow> None | Inr r \<Rightarrow> Some r)))
     (unmarshal_response ?m) = Some (''1'', False, False, Some (''dangerous'', 9))" by code_simp
  then obtain p where p: "unmarshal_response ?m = Some p" "prID p = ''1''" "\<not> has_error p" "prResult p \<noteq> []" by auto
  with u obtain r where r: "Scan alarm_rt (scanCalls scan_state) (scan_content alarm_rt p) = Inr r" "Verdict r = ''dangerous''" "Score r = 9"
    by (auto split: sum.splits)
  have s: "scan_reason r = ''tool result blocked by promptproof: dangerous (score 9)''"
  proof -
    have "Itoa 9 = ''9''" by code_simp
    then show ?thesis by (simp add: scan_reason_def r(2,3))
  qed
  have ids: "prID p \<in> set (scanIDs scan_state)" "prID p \<noteq> []" using p(2) by (simp_all add: scan_state_def)
  have a: "triggers ?sc ''dangerous'' \<and> action ?sc \<noteq> ''flag''" by code_simp
  note sb = scan_blocks_exactly [OF 1 p(1) ids(2,1) p(3,4) h]
  have "delivered ?m oc = None" using sb r a by auto
  then have "oc = msgBlock (prID p) (-32005) (scan_reason r)" "scanBlocked st'" using sb r(1) by auto
  then show ?thesis using h p(2) s by simp
qed

subsection \<open>The recorded verdict\<close>

lemma verdictRank_recordScan:
  "verdictRank (scanVerdict (recordScan r st)) = max (verdictRank (scanVerdict st)) (verdictRank (Verdict r))"
  by (auto simp: recordScan_def Let_def)

lemma containsString_iff: "containsString xs s \<longleftrightarrow> s \<in> set xs"
  by (induction xs) auto

lemma add_category_fold:
  "distinct cs \<Longrightarrow> distinct (foldl add_category cs xs) \<and> set (foldl add_category cs xs) = set cs \<union> set xs"
  by (induction xs arbitrary: cs) (auto simp: add_category_def containsString_iff)

text \<open>
  After any number of scans the recorded verdict is the worst one seen, and the recorded
  categories are those of the scans that were not clean, each once.
\<close>

theorem recorded_verdict_worst:
  assumes "distinct (scanCategories st)"
  shows "verdictRank (scanVerdict (fold recordScan rs st)) =
      fold max (map (verdictRank \<circ> Verdict) rs) (verdictRank (scanVerdict st)) \<and>
    distinct (scanCategories (fold recordScan rs st)) \<and>
    set (scanCategories (fold recordScan rs st)) =
      set (scanCategories st) \<union> (\<Union>r \<in> {r \<in> set rs. verdictRank (Verdict r) \<noteq> 0}. set (Categories r))"
  using assms
proof (induction rs arbitrary: st)
  case (Cons r rs)
  have c: "distinct (scanCategories (recordScan r st)) \<and> set (scanCategories (recordScan r st)) =
      set (scanCategories st) \<union> (if verdictRank (Verdict r) \<noteq> 0 then set (Categories r) else {})"
    using Cons.prems add_category_fold [OF Cons.prems] by (auto simp: recordScan_def Let_def)
  then show ?case
    using Cons.IH [of "recordScan r st"] verdictRank_recordScan [of r st] by (auto simp: max.commute split: if_splits)
qed simp

theorem recorded_verdict_worst_witness:
  "verdictRank (scanVerdict (fold recordScan [\<lparr>Verdict = ''suspicious'', Score = 3, Categories = [''x'']\<rparr>,
     \<lparr>Verdict = ''dangerous'', Score = 8, Categories = [''x'']\<rparr>] start_state)) = 2"
proof -
  have "distinct (scanCategories start_state)" by (simp add: start_state_def)
  from recorded_verdict_worst [OF this, of "[\<lparr>Verdict = ''suspicious'', Score = 3, Categories = [''x'']\<rparr>,
     \<lparr>Verdict = ''dangerous'', Score = 8, Categories = [''x'']\<rparr>]"]
  show ?thesis by (simp add: start_state_def verdictRank_def)
qed

subsection \<open>Shared ids\<close>


end
