(* ===== verification/Sserewrite.thy ===== *)
theory Sserewrite
  imports Scanning
begin

text \<open>
  \<^verbatim>\<open>gateway/sserewrite.go\<close>: the state machine that rewrites \<^verbatim>\<open>text/event-stream\<close> bodies.  The
  record \<open>sseRewriter\<close> holds the fields of the Go struct that change; the output buffer is the list
  of all bytes written so far that no \<^verbatim>\<open>Read\<close> has taken.
\<close>

subsection \<open>The state machine\<close>

record sseRewriter =
  rwSt :: rewriteState
  rwOut :: bytes
  rwLine :: bytes
  evLines :: "bytes list"
  evIsData :: "bool list"
  evData :: "bytes list"
  evSize :: nat
  rwRaw :: bool
  rwDiscard :: bool
  bstate :: nat

definition newSSERewriter :: "rewriteState \<Rightarrow> sseRewriter" where
  "newSSERewriter st = \<lparr>rwSt = st, rwOut = [], rwLine = [], evLines = [], evIsData = [], evData = [],
     evSize = 0, rwRaw = False, rwDiscard = False, bstate = 0\<rparr>"

definition emit :: "bytes \<Rightarrow> sseRewriter \<Rightarrow> sseRewriter" where
  "emit b r = r\<lparr>rwOut := rwOut r @ b\<rparr>"

definition resetEvent :: "sseRewriter \<Rightarrow> sseRewriter" where
  "resetEvent r = r\<lparr>evLines := [], evIsData := [], evData := [], evSize := 0\<rparr>"

definition trimEOL :: "bytes \<Rightarrow> bytes" where
  "trimEOL l = TrimSuffix (TrimSuffix l [LF]) [CR]"

definition capReason :: bytes where
  "capReason = ''tools/list SSE event exceeded the processing cap''"

definition emitCapError :: "sseRewriter \<Rightarrow> sseRewriter" where
  "emitCapError r =
     emit (''data: '' @ jsonrpcError [] (strictCode (rwSt r)) capReason @ [LF, LF])
       (r\<lparr>rwSt := noteOnce capReason (rwSt r)\<rparr>)"

definition overflowPartial :: "sseRewriter \<Rightarrow> sseRewriter" where
  "overflowPartial r =
     (let pending = rwLine r; r1 = r\<lparr>rwLine := []\<rparr>;
          r2 = (if strict (rwSt r1) then (emitCapError r1)\<lparr>rwDiscard := True\<rparr>
                else (emit (concat (evLines r1) @ pending) r1)\<lparr>rwRaw := True\<rparr>)
      in resetEvent (r2\<lparr>bstate := 0\<rparr>))"

definition overflowLine :: "bytes \<Rightarrow> sseRewriter \<Rightarrow> sseRewriter" where
  "overflowLine l r =
     (let r2 = (if strict (rwSt r) then (emitCapError r)\<lparr>rwDiscard := True\<rparr>
                else (emit (concat (evLines r) @ l) r)\<lparr>rwRaw := True\<rparr>)
      in resetEvent (r2\<lparr>bstate := 1\<rparr>))"

text \<open>The lines that are not data lines, in their order.\<close>

definition other_lines :: "sseRewriter \<Rightarrow> bytes" where
  "other_lines r = concat (map fst (filter (\<lambda>(l, d). \<not> d) (zip (evLines r) (evIsData r))))"

definition emitReplaced :: "bytes \<Rightarrow> bytes \<Rightarrow> sseRewriter \<Rightarrow> sseRewriter" where
  "emitReplaced payload blnk r = emit (other_lines r @ ''data: '' @ payload @ [LF] @ blnk) r"

definition finishEvent :: "go_rt \<Rightarrow> bytes \<Rightarrow> sseRewriter \<Rightarrow> sseRewriter" where
  "finishEvent rt blnk r =
     (if evData r = [] then resetEvent (emit (concat (evLines r) @ blnk) r)
      else
        (case handleMessage rt (rwSt r) (join [LF] (evData r)) of
           (msgRewrite out, st1) \<Rightarrow> resetEvent (emitReplaced out blnk (r\<lparr>rwSt := st1\<rparr>))
         | (msgBlock i code reason, st1) \<Rightarrow>
             resetEvent (emitReplaced (jsonrpcError i code reason) blnk (r\<lparr>rwSt := noteOnce reason st1\<rparr>))
         | (msgPass _, st1) \<Rightarrow> resetEvent (emit (concat (evLines r) @ blnk) (r\<lparr>rwSt := st1\<rparr>))))"

definition data_value :: "bytes \<Rightarrow> bytes" where
  "data_value stripped = (case drop 5 stripped of [] \<Rightarrow> [] | c # v \<Rightarrow> if c = CHR '' '' then v else c # v)"

definition completeLine :: "go_rt \<Rightarrow> bytes \<Rightarrow> sseRewriter \<Rightarrow> sseRewriter" where
  "completeLine rt l r =
     (let stripped = trimEOL l in
      if stripped = [] then finishEvent rt l r
      else
        (let r1 = r\<lparr>evSize := evSize r + length l\<rparr> in
         if evSize r1 > maxRPCPeek then overflowLine l r1
         else
           (let isData = HasPrefix stripped ''data:'';
                r2 = r1\<lparr>evLines := evLines r1 @ [l], evIsData := evIsData r1 @ [isData]\<rparr>
            in if isData then r2\<lparr>evData := evData r2 @ [data_value stripped]\<rparr> else r2)))"

text \<open>
  The boundary detector of the raw and discard modes: \<open>None\<close> when the byte completes a boundary,
  otherwise the next detector state.  \<open>scan_loop\<close> gives the final detector state, the bytes
  consumed, and the remainder when a boundary was found.
\<close>

definition boundary_step :: "nat \<Rightarrow> char \<Rightarrow> nat option" where
  "boundary_step bs c =
     (if bs = 0 then Some (if c = LF then 1 else 0)
      else if bs = 1 then (if c = LF then None else if c = CR then Some 2 else Some 0)
      else (if c = LF then None else Some 0))"

fun scan_loop :: "nat \<Rightarrow> bytes \<Rightarrow> nat \<times> bytes \<times> bytes option" where
  "scan_loop bs [] = (bs, [], None)"
| "scan_loop bs (c # cs) =
     (case boundary_step bs c of
        None \<Rightarrow> (0, [c], Some cs)
      | Some bs' \<Rightarrow> (case scan_loop bs' cs of (b, pre, rest) \<Rightarrow> (b, c # pre, rest)))"

definition scanBoundary :: "sseRewriter \<Rightarrow> bytes \<Rightarrow> sseRewriter \<times> bytes" where
  "scanBoundary r b =
     (case scan_loop (bstate r) b of (bs, pre, rest) \<Rightarrow>
        (let r1 = (if rwRaw r then emit pre r else r) in
         case rest of
           None \<Rightarrow> (r1\<lparr>bstate := bs\<rparr>, [])
         | Some b' \<Rightarrow> (r1\<lparr>rwRaw := False, rwDiscard := False, bstate := 0\<rparr>, b')))"

lemma scan_loop_rest: "scan_loop bs b = (bs', pre, rest) \<Longrightarrow> b = pre @ (case rest of None \<Rightarrow> [] | Some r \<Rightarrow> r) \<and> (b \<noteq> [] \<longrightarrow> pre \<noteq> [])"
  by (induction bs b arbitrary: bs' pre rest rule: scan_loop.induct)
    (fastforce split: option.splits prod.splits)+

lemma scanBoundary_shorter: "b \<noteq> [] \<Longrightarrow> scanBoundary r b = (r', b') \<Longrightarrow> length b' < length b"
  by (cases "scan_loop (bstate r) b") (auto simp: scanBoundary_def Let_def dest!: scan_loop_rest split: option.splits)

lemma dropWhile_rest_shorter: "dropWhile P xs = y # ys \<Longrightarrow> length ys < length xs"
  using dropWhile_length_le [of P xs] by simp

function ingest :: "go_rt \<Rightarrow> sseRewriter \<Rightarrow> bytes \<Rightarrow> sseRewriter" where
  "ingest rt r b =
     (if b = [] then r
      else if rwRaw r \<or> rwDiscard r then (case scanBoundary r b of (r', b') \<Rightarrow> ingest rt r' b')
      else
        (case dropWhile (\<lambda>c. c \<noteq> LF) b of
           [] \<Rightarrow>
             (let r1 = r\<lparr>rwLine := rwLine r @ b\<rparr> in
              if length (rwLine r1) + evSize r1 > maxRPCPeek then overflowPartial r1 else r1)
         | _ # rest \<Rightarrow>
             ingest rt (completeLine rt (rwLine r @ takeWhile (\<lambda>c. c \<noteq> LF) b @ [LF]) (r\<lparr>rwLine := []\<rparr>)) rest))"
  by pat_completeness auto
termination
  by (relation "measure (\<lambda>(rt, r, b). length b)")
    (auto split: prod.splits dest: scanBoundary_shorter dropWhile_rest_shorter)

declare ingest.simps [simp del]

definition finish :: "sseRewriter \<Rightarrow> sseRewriter" where
  "finish r =
     (if rwRaw r \<or> rwDiscard r then r
      else resetEvent ((emit (concat (evLines r) @ rwLine r) r)\<lparr>rwLine := []\<rparr>))"

subsection \<open>Reading\<close>

text \<open>
  \<^verbatim>\<open>Read\<close>: the source delivers \<open>chunks\<close> and then ends; a caller that asks for \<open>n\<close> bytes gets at
  most \<open>n\<close>, \<open>None\<close> is the end of the stream.
\<close>

record sseSource =
  rw :: sseRewriter
  chunks :: "bytes list"
  srcDone :: bool

function read_loop :: "go_rt \<Rightarrow> sseSource \<Rightarrow> sseSource" where
  "read_loop rt s =
     (if rwOut (rw s) = [] \<and> \<not> srcDone s then
        (case chunks s of
           [] \<Rightarrow> read_loop rt (s\<lparr>srcDone := True, rw := finish (rw s)\<rparr>)
         | c # cs \<Rightarrow> read_loop rt (s\<lparr>rw := ingest rt (rw s) c, chunks := cs\<rparr>))
      else s)"
  by pat_completeness auto
termination
  by (relation "measure (\<lambda>(rt, s). length (chunks s) + (if srcDone s then 0 else 1))") auto

declare read_loop.simps [simp del]

definition Read :: "go_rt \<Rightarrow> nat \<Rightarrow> sseSource \<Rightarrow> bytes option \<times> sseSource" where
  "Read rt n s =
     (let s1 = read_loop rt s; o1 = rwOut (rw s1) in
      if o1 \<noteq> [] then (Some (take n o1), s1\<lparr>rw := (rw s1)\<lparr>rwOut := drop n o1\<rparr>\<rparr>)
      else (None, s1))"

subsection \<open>Chunk boundaries\<close>

lemma scan_loop_append:
  "scan_loop bs (p @ q) =
     (case scan_loop bs p of
        (b, pre, Some r) \<Rightarrow> (b, pre, Some (r @ q))
      | (b, pre, None) \<Rightarrow> (case scan_loop b q of (b', pre', rest) \<Rightarrow> (b', pre @ pre', rest)))"
  by (induction bs p rule: scan_loop.induct) (auto split: option.splits prod.splits)

text \<open>The state after \<open>p\<close> was consumed in raw or discard mode without reaching a boundary.\<close>

definition advance :: "bytes \<Rightarrow> nat \<Rightarrow> sseRewriter \<Rightarrow> sseRewriter" where
  "advance p bs r = (if rwRaw r then emit p r else r)\<lparr>bstate := bs\<rparr>"

lemma emit_emit [simp]: "emit b (emit a r) = emit (a @ b) r"
  by (simp add: emit_def)

lemma emit_Nil [simp]: "emit [] r = r"
  by (simp add: emit_def)

lemma emit_sel [simp]:
  "rwSt (emit b r) = rwSt r" "rwLine (emit b r) = rwLine r" "evLines (emit b r) = evLines r"
  "evIsData (emit b r) = evIsData r" "evData (emit b r) = evData r" "evSize (emit b r) = evSize r"
  "rwRaw (emit b r) = rwRaw r" "rwDiscard (emit b r) = rwDiscard r" "bstate (emit b r) = bstate r"
  "rwOut (emit b r) = rwOut r @ b"
  by (simp_all add: emit_def)

lemma emit_updates [simp]:
  "emit b (r\<lparr>bstate := n\<rparr>) = (emit b r)\<lparr>bstate := n\<rparr>" "emit b (r\<lparr>rwRaw := x\<rparr>) = (emit b r)\<lparr>rwRaw := x\<rparr>"
  "emit b (r\<lparr>rwLine := l\<rparr>) = (emit b r)\<lparr>rwLine := l\<rparr>" "emit b (r\<lparr>rwDiscard := x\<rparr>) = (emit b r)\<lparr>rwDiscard := x\<rparr>"
  "emit b (resetEvent r) = resetEvent (emit b r)"
  by (simp_all add: emit_def resetEvent_def)

lemma scan_loop_consumed: "scan_loop bs p = (b, pre, None) \<Longrightarrow> pre = p"
  using scan_loop_rest by fastforce

lemma ingest_Nil [simp]: "ingest rt r [] = r"
  by (simp add: ingest.simps)

lemma ingest_mode:
  "rwRaw r \<or> rwDiscard r \<Longrightarrow> b \<noteq> [] \<Longrightarrow> ingest rt r b = (case scanBoundary r b of (r', b') \<Rightarrow> ingest rt r' b')"
  by (subst ingest.simps) simp

lemma advance_mode: "rwRaw r \<or> rwDiscard r \<Longrightarrow> rwRaw (advance p bs r) \<or> rwDiscard (advance p bs r)"
  by (auto simp: advance_def)

lemma ingest_advance:
  assumes "rwRaw r \<or> rwDiscard r" "scan_loop (bstate r) p = (bs, p, None)"
  shows "ingest rt r (p @ q) = ingest rt (advance p bs r) q"
proof (cases "p = []")
  case True
  then show ?thesis using assms by (cases r) (auto simp: advance_def)
next
  case p: False
  show ?thesis
  proof (cases "q = []")
    case True
    then show ?thesis using assms p by (simp add: ingest_mode scanBoundary_def advance_def)
  next
    case False
    obtain b pre rest where q: "scan_loop bs q = (b, pre, rest)" by (metis prod_cases3)
    have pq: "p @ q \<noteq> []" using p by simp
    show ?thesis
      unfolding ingest_mode [OF advance_mode [OF assms(1)] False] ingest_mode [OF assms(1) pq]
      using assms q by (simp add: scanBoundary_def advance_def scan_loop_append Let_def split: option.split)
  qed
qed

lemma resetEvent_sel [simp]:
  "rwRaw (resetEvent r) = rwRaw r" "rwDiscard (resetEvent r) = rwDiscard r" "bstate (resetEvent r) = bstate r"
  "rwOut (resetEvent r) = rwOut r" "rwSt (resetEvent r) = rwSt r" "rwLine (resetEvent r) = rwLine r"
  "evSize (resetEvent r) = 0" "evLines (resetEvent r) = []" "evData (resetEvent r) = []" "evIsData (resetEvent r) = []"
  by (simp_all add: resetEvent_def)

lemma no_LF_scan: "LF \<notin> set y \<Longrightarrow> scan_loop 0 y = (0, y, None)"
  by (induction y) (auto simp: boundary_step_def)

lemma line_scan: "LF \<notin> set y \<Longrightarrow> scan_loop 0 (y @ [LF]) = (1, y @ [LF], None)"
  by (induction y) (auto simp: boundary_step_def)

lemma overflowPartial_mode:
  "rwRaw (overflowPartial r) \<or> rwDiscard (overflowPartial r)" "bstate (overflowPartial r) = 0"
  by (simp_all add: overflowPartial_def Let_def)

text \<open>
  An overflow noticed in the middle of a line and then continued to the end of the line is the
  overflow noticed at the end of the line.
\<close>

lemma overflow_continue:
  assumes "\<not> rwRaw r" "\<not> rwDiscard r" "rwLine r = l"
  shows "advance (y @ [LF]) 1 (overflowPartial r) = overflowLine (l @ y @ [LF]) (r\<lparr>rwLine := [], evSize := n\<rparr>)"
  using assms
  by (simp add: advance_def overflowPartial_def overflowLine_def emitCapError_def emit_def resetEvent_def Let_def)

lemma overflow_extend:
  assumes "\<not> rwRaw r" "\<not> rwDiscard r"
  shows "advance y 0 (overflowPartial (r\<lparr>rwLine := l\<rparr>)) = overflowPartial (r\<lparr>rwLine := l @ y\<rparr>)"
  using assms
  by (simp add: advance_def overflowPartial_def emitCapError_def emit_def resetEvent_def Let_def)

lemma TrimSuffix_snoc: "TrimSuffix (x @ [c]) [c] = x" "c \<noteq> d \<Longrightarrow> TrimSuffix (x @ [c]) [d] = x @ [c]" "TrimSuffix [] [d] = []"
  by (simp_all add: TrimSuffix_def)

lemma trimEOL_blank: "trimEOL (x @ [LF]) = [] \<longleftrightarrow> x = [] \<or> x = [CR]"
proof (cases x rule: rev_cases)
  case (snoc y c)
  then show ?thesis by (cases "c = CR") (simp_all add: trimEOL_def TrimSuffix_snoc del: append_assoc)
qed (simp add: trimEOL_def TrimSuffix_def)

text \<open>The size of the event and of the pending line, as seen by the cap.\<close>

definition load :: "sseRewriter \<Rightarrow> nat" where
  "load r = evSize r + length (rwLine r)"

lemma finishEvent_reset:
  "evSize (finishEvent rt b r) = 0" "rwLine (finishEvent rt b r) = rwLine r"
  by (auto simp: finishEvent_def emitReplaced_def split: prod.split msgOutcome.split)

lemma completeLine_load: "load (completeLine rt l (r\<lparr>rwLine := []\<rparr>)) \<le> evSize r + length l"
  by (simp add: completeLine_def load_def finishEvent_reset overflowLine_def emitCapError_def Let_def)

lemma scanBoundary_load: "scanBoundary r b = (r', b') \<Longrightarrow> load r' = load r"
  by (auto simp: scanBoundary_def load_def Let_def split: prod.splits option.splits if_splits)

definition split_safe :: "sseRewriter \<Rightarrow> bytes \<Rightarrow> bool" where
  "split_safe r a \<longleftrightarrow> a = [] \<or> last a \<noteq> CR \<or> load r + length a \<le> maxRPCPeek"

lemma ingest_no_LF:
  "\<lbrakk>\<not> rwRaw r; \<not> rwDiscard r; LF \<notin> set a; a \<noteq> []\<rbrakk> \<Longrightarrow> ingest rt r a =
     (if length (rwLine r @ a) + evSize r > maxRPCPeek then overflowPartial (r\<lparr>rwLine := rwLine r @ a\<rparr>)
      else r\<lparr>rwLine := rwLine r @ a\<rparr>)"
proof -
  assume h: "\<not> rwRaw r" "\<not> rwDiscard r" "LF \<notin> set a" "a \<noteq> []"
  then have "dropWhile (\<lambda>c. c \<noteq> LF) a = []" by (auto simp: dropWhile_eq_Nil_conv)
  with h show ?thesis by (subst ingest.simps) (simp add: Let_def del: dropWhile_eq_Nil_conv)
qed

lemma ingest_LF:
  "\<lbrakk>\<not> rwRaw r; \<not> rwDiscard r; LF \<notin> set y\<rbrakk> \<Longrightarrow> ingest rt r (y @ LF # rest) =
     ingest rt (completeLine rt (rwLine r @ y @ [LF]) (r\<lparr>rwLine := []\<rparr>)) rest"
proof -
  assume h: "\<not> rwRaw r" "\<not> rwDiscard r" "LF \<notin> set y"
  have "takeWhile (\<lambda>c. c \<noteq> LF) (y @ LF # rest) = y" "dropWhile (\<lambda>c. c \<noteq> LF) (y @ LF # rest) = LF # rest"
    using h(3) by (auto intro!: takeWhile_append_stop dropWhile_append_stop)
  with h show ?thesis by (subst ingest.simps) simp
qed

text \<open>The first chunk ends inside a line.\<close>

lemma ingest_append_partial:
  assumes mode: "\<not> rwRaw r" "\<not> rwDiscard r" and a: "LF \<notin> set a" "a \<noteq> []" and b: "b \<noteq> []" and safe: "split_safe r a"
  shows "ingest rt (ingest rt r a) b = ingest rt r (a @ b)"
proof -
  let ?r1 = "r\<lparr>rwLine := rwLine r @ a\<rparr>"
  obtain y rest where "LF \<notin> set b \<or> (b = y @ LF # rest \<and> LF \<notin> set y)" using split_list_first [of LF b] by blast
  then consider "LF \<notin> set b" | "b = y @ LF # rest" "LF \<notin> set y" by blast
  then show ?thesis
  proof cases
    case 1
    then show ?thesis using mode a b ingest_advance [of "overflowPartial ?r1" b 0 rt "[]"] overflowPartial_mode [of ?r1]
      no_LF_scan [OF 1] overflow_extend [OF mode, of b "rwLine r @ a"]
      by (auto simp: ingest_no_LF ingest.simps [of rt _ "[]"])
  next
    case 2
    have l: "LF \<notin> set (a @ y)" using a(1) 2(2) by simp
    show ?thesis
    proof (cases "length (rwLine r @ a) + evSize r > maxRPCPeek")
      case False
      then show ?thesis
        using mode a ingest_LF [of ?r1 y rt rest] ingest_LF [OF mode l, of rt rest] 2 by (simp add: ingest_no_LF)
    next
      case True
      then have cr: "last a \<noteq> CR" using safe a(2) by (simp add: split_safe_def load_def)
      have "rwLine r @ a @ y \<noteq> [CR]"
        using a(2) cr by (cases "rwLine r"; cases a; cases y) auto
      then have "trimEOL ((rwLine r @ a @ y) @ [LF]) \<noteq> []" unfolding trimEOL_blank using a(2) by simp
      then have "completeLine rt (rwLine r @ (a @ y) @ [LF]) (r\<lparr>rwLine := []\<rparr>) =
          overflowLine (rwLine r @ a @ y @ [LF]) (r\<lparr>rwLine := [], evSize := evSize r + length (rwLine r @ a @ y @ [LF])\<rparr>)"
        using True by (simp add: completeLine_def Let_def)
      moreover have "advance (y @ [LF]) 1 (overflowPartial ?r1) =
          overflowLine (rwLine r @ a @ y @ [LF]) (r\<lparr>rwLine := [], evSize := evSize r + length (rwLine r @ a @ y @ [LF])\<rparr>)"
        using overflow_continue [of ?r1 "rwLine r @ a" y] mode by simp
      moreover have "ingest rt (overflowPartial ?r1) ((y @ [LF]) @ rest) = ingest rt (advance (y @ [LF]) 1 (overflowPartial ?r1)) rest"
        using ingest_advance [of "overflowPartial ?r1" "y @ [LF]" 1] overflowPartial_mode line_scan [OF 2(2)] by metis
      ultimately show ?thesis
        using mode a True ingest_LF [OF mode l, of rt rest] 2(1) by (simp add: ingest_no_LF)
    qed
  qed
qed

lemma first_line:
  assumes "dropWhile (\<lambda>c. c \<noteq> LF) a = c # rest"
  shows "LF \<notin> set (takeWhile (\<lambda>c. c \<noteq> LF) a)" "a = takeWhile (\<lambda>c. c \<noteq> LF) a @ LF # rest"
proof -
  show "LF \<notin> set (takeWhile (\<lambda>c. c \<noteq> LF) a)" by (auto dest: set_takeWhileD)
  have "c = LF" using assms by (metis (full_types) dropWhile_eq_Cons_conv)
  then show "a = takeWhile (\<lambda>c. c \<noteq> LF) a @ LF # rest" using takeWhile_dropWhile_id [of "\<lambda>c. c \<noteq> LF" a] assms by simp
qed

text \<open>Two reads are as good as one.\<close>

lemma ingest_append:
  "split_safe r a \<Longrightarrow> ingest rt (ingest rt r a) b = ingest rt r (a @ b)"
proof (induction rt r a rule: ingest.induct)
  case (1 rt r a)
  show ?case
  proof (cases "a = [] \<or> b = []")
    case True
    then show ?thesis by (auto simp: ingest.simps [of rt _ "[]"])
  next
    case False
    then have a: "a \<noteq> []" and b: "b \<noteq> []" by auto
    show ?thesis
    proof (cases "rwRaw r \<or> rwDiscard r")
      case mode: True
      obtain bs pre rest where s: "scan_loop (bstate r) a = (bs, pre, rest)" by (metis prod_cases3)
      show ?thesis
      proof (cases rest)
        case None
        then have "scan_loop (bstate r) a = (bs, a, None)" using s scan_loop_consumed by blast
        from ingest_advance [OF mode this, of rt "[]"] ingest_advance [OF mode this, of rt b]
        show ?thesis by (simp add: ingest.simps [of rt _ "[]"])
      next
        case (Some a')
        obtain r' where r': "scanBoundary r a = (r', a')" "scanBoundary r (a @ b) = (r', a' @ b)"
          using s Some by (simp add: scanBoundary_def scan_loop_append)
        have apre: "a = pre @ a'" using scan_loop_rest [OF s] Some by simp
        have "split_safe r' a'"
          using "1.prems" scanBoundary_load [OF r'(1)] apre a by (cases "a' = []") (auto simp: split_safe_def)
        from "1.IH"(1) [OF a mode r'(1) [symmetric] this]
        show ?thesis using a mode r' by (simp add: ingest_mode)
      qed
    next
      case mode: False
      show ?thesis
      proof (cases "dropWhile (\<lambda>c. c \<noteq> LF) a")
        case (Cons c rest)
        define y where "y = takeWhile (\<lambda>c. c \<noteq> LF) a"
        let ?r = "completeLine rt (rwLine r @ y @ [LF]) (r\<lparr>rwLine := []\<rparr>)"
        note y = first_line(1) [OF Cons, folded y_def] and ay = first_line(2) [OF Cons, folded y_def]
        have "load ?r + length rest \<le> load r + length a"
          using completeLine_load [of rt "rwLine r @ y @ [LF]" r] ay by (simp add: load_def)
        then have "split_safe ?r rest" using "1.prems" ay by (cases "rest = []") (auto simp: split_safe_def)
        from "1.IH"(2) [OF a mode Cons, folded y_def, OF this]
        show ?thesis using mode ingest_LF [of r y rt rest] ingest_LF [of r y rt "rest @ b"] y ay by simp
      next
        case Nil
        then show ?thesis using ingest_append_partial [OF _ _ _ a b] mode "1.prems" by (auto simp: dropWhile_eq_Nil_conv)
      qed
    qed
  qed
qed

lemma ingest_load: "load (ingest rt r a) \<le> load r + length a"
proof (induction rt r a rule: ingest.induct)
  case (1 rt r a)
  show ?case
  proof (cases "a = []")
    case a: False
    show ?thesis
    proof (cases "rwRaw r \<or> rwDiscard r")
      case mode: True
      obtain r' a' where s: "scanBoundary r a = (r', a')" by fastforce
      from "1.IH"(1) [OF a mode s [symmetric]] scanBoundary_load [OF s] scanBoundary_shorter [OF a s]
      show ?thesis using a mode s by (simp add: ingest_mode)
    next
      case mode: False
      obtain y rest where "LF \<notin> set a \<or> (a = y @ LF # rest \<and> LF \<notin> set y)" using split_list_first [of LF a] by blast
      then consider "LF \<notin> set a" | "a = y @ LF # rest" "LF \<notin> set y" by blast
      then show ?thesis
      proof cases
        case 1
        then show ?thesis using mode a
          by (simp add: ingest_no_LF load_def overflowPartial_def emitCapError_def Let_def)
      next
        case 2
        have d: "dropWhile (\<lambda>c. c \<noteq> LF) a = LF # rest" "takeWhile (\<lambda>c. c \<noteq> LF) a = y"
          using 2 by (auto intro!: takeWhile_append_stop dropWhile_append_stop)
        from "1.IH"(2) [OF a mode d(1), unfolded d(2)] completeLine_load [of rt "rwLine r @ y @ [LF]" r]
        show ?thesis using mode ingest_LF [of r y rt rest] 2 by (simp add: load_def)
      qed
    qed
  qed simp
qed

lemma ingest_chunks:
  "(\<forall>c \<in> set cs. c = [] \<or> last c \<noteq> CR) \<or> load r + length (concat cs) \<le> maxRPCPeek \<Longrightarrow>
     foldl (ingest rt) r cs = ingest rt r (concat cs)"
proof (induction cs arbitrary: r)
  case (Cons c cs)
  have "foldl (ingest rt) (ingest rt r c) cs = ingest rt (ingest rt r c) (concat cs)"
    using Cons.prems ingest_load [of rt r c] by (intro Cons.IH) auto
  moreover have "split_safe r c" using Cons.prems by (auto simp: split_safe_def)
  ultimately show ?case using ingest_append by simp
qed simp

text \<open>
  C13. Chunk boundaries do not matter: however the upstream bytes are cut, the rewriter ends in
  the same state with the same output, as long as no cut falls right after a carriage return or
  the stream is not longer than the processing cap.
\<close>

theorem sse_chunk_invariance:
  assumes "list_all (\<lambda>c. c = [] \<or> last c \<noteq> CR) cs \<or> length (concat cs) \<le> maxRPCPeek"
  shows "foldl (ingest rt) (newSSERewriter st) cs = ingest rt (newSSERewriter st) (concat cs)"
  using assms ingest_chunks [of cs "newSSERewriter st" rt] by (simp add: load_def newSSERewriter_def list_all_iff)

theorem sse_chunk_invariance_witness:
  "foldl (ingest plain_rt) (newSSERewriter start_state) [''da'', ''ta:x'' @ [LF], [CR], [LF]] =
     ingest plain_rt (newSSERewriter start_state) (''data:x'' @ [LF, CR, LF])"
proof -
  have "length (concat [''da'', ''ta:x'' @ [LF], [CR], [LF]]) \<le> maxRPCPeek" by code_simp
  then show ?thesis using sse_chunk_invariance [of "[''da'', ''ta:x'' @ [LF], [CR], [LF]]" plain_rt start_state] by simp
qed

text \<open>
  C36. The exception is real: for an event of exactly the cap's size, ended by a CRLF blank line
  that arrives in two chunks, the rewriter takes the event for oversized and keeps streaming or
  discarding, while the same bytes in one chunk end the event.
\<close>

theorem sse_split_crlf_diverges:
  "\<exists>a. let whole = ingest rt (newSSERewriter st) (a @ [CR, LF]);
           split = foldl (ingest rt) (newSSERewriter st) [a @ [CR], [LF]]
       in (rwRaw split \<or> rwDiscard split) \<and> \<not> rwRaw whole \<and> \<not> rwDiscard whole"
proof -
  define y where "y = replicate (maxRPCPeek - 1) CHR ''x''"
  define s where "s = ingest rt (newSSERewriter st) (y @ [LF])"
  let ?new = "newSSERewriter st"
  have m: "maxRPCPeek = Suc (Suc (maxRPCPeek - 2))" by (simp add: maxRPCPeek_def)
  have y: "LF \<notin> set y" "length y = maxRPCPeek - 1" "y \<noteq> []" "hd y = CHR ''x''" using m by (simp_all add: y_def)
  have mode: "\<not> rwRaw ?new" "\<not> rwDiscard ?new" "rwLine ?new = []" "evSize ?new = 0" by (simp_all add: newSSERewriter_def)
  have "y \<noteq> [CR]" using y(4) by auto
  then have "trimEOL (y @ [LF]) \<noteq> []" unfolding trimEOL_blank using y(3) by simp
  then have s: "\<not> rwRaw s" "\<not> rwDiscard s" "rwLine s = []" "evSize s = maxRPCPeek"
    using ingest_LF [OF mode(1,2) y(1), of rt "[]"] mode y(2) m by (auto simp: s_def completeLine_def Let_def)
  have safe: "split_safe ?new (y @ [LF])" by (simp add: split_safe_def)
  have app: "ingest rt ?new ((y @ [LF]) @ b) = ingest rt s b" for b
    using ingest_append [OF safe] by (simp add: s_def)
  have "ingest rt s ([CR] @ LF # []) = completeLine rt [CR, LF] (s\<lparr>rwLine := []\<rparr>)"
    using ingest_LF [OF s(1,2), of "[CR]" rt "[]"] s(3) by simp
  moreover have "trimEOL [CR, LF] = []" using trimEOL_blank [of "[CR]"] by simp
  ultimately have whole: "\<not> rwRaw (ingest rt s [CR, LF])" "\<not> rwDiscard (ingest rt s [CR, LF])"
    using s by (auto simp: completeLine_def finishEvent_def emitReplaced_def split: prod.split msgOutcome.split)
  have "ingest rt s [CR] = overflowPartial (s\<lparr>rwLine := [CR]\<rparr>)" using ingest_no_LF [OF s(1,2), of "[CR]"] s(3,4) by simp
  then have "ingest rt (ingest rt s [CR]) ([LF] @ []) = ingest rt (advance [LF] 1 (overflowPartial (s\<lparr>rwLine := [CR]\<rparr>))) []"
    using ingest_advance [OF overflowPartial_mode(1) ] line_scan [of "[]"] overflowPartial_mode(2) by (metis append_Nil empty_iff empty_set)
  then have "rwRaw (ingest rt (ingest rt s [CR]) [LF]) \<or> rwDiscard (ingest rt (ingest rt s [CR]) [LF])"
    using advance_mode [OF overflowPartial_mode(1)] by simp
  with whole app show ?thesis by (intro exI [of _ "y @ [LF]"]) (simp add: Let_def)
qed

subsection \<open>Pass-through\<close>

text \<open>
  The bytes taken in and not yet written.  In raw and discard mode nothing is held back.
\<close>

definition held :: "sseRewriter \<Rightarrow> bytes" where
  "held r = concat (evLines r) @ rwLine r"

definition idle :: "rewriteState \<Rightarrow> bool" where
  "idle st \<longleftrightarrow> ids st = [] \<and> (scanner st = None \<or> scanIDs st = [])"

lemma idle_handle: "idle st \<Longrightarrow> \<exists>b. handleMessage rt st m = (msgPass b, st)"
proof -
  assume i: "idle st"
  then have "handleMessage rt st m = examineMessage rt st m"
    using handle_route [of rt st m] by (auto simp: idle_def)
  moreover have "\<exists>b. examineMessage rt st m = (msgPass b, st)"
    using i by (cases "unmarshal_response m") (auto simp: examineMessage_def idle_def hasID_def)
  ultimately show ?thesis by simp
qed

definition quiet :: "sseRewriter \<Rightarrow> bool" where
  "quiet r \<longleftrightarrow> idle (rwSt r) \<and> \<not> rwDiscard r \<and> (rwRaw r \<longrightarrow> evLines r = [] \<and> rwLine r = [])"

lemma completeLine_quiet:
  assumes "quiet r" "\<not> rwRaw r" "rwLine r = []" "\<not> strict (rwSt r) \<or> load r + length l \<le> maxRPCPeek"
  shows "quiet (completeLine rt l r) \<and> strict (rwSt (completeLine rt l r)) = strict (rwSt r) \<and>
    rwOut (completeLine rt l r) @ held (completeLine rt l r) = rwOut r @ held r @ l"
proof -
  obtain b where h: "handleMessage rt (rwSt r) (join [LF] (evData r)) = (msgPass b, rwSt r)"
    using assms(1) idle_handle by (metis quiet_def)
  show ?thesis
    using assms h
    by (auto simp: completeLine_def finishEvent_def overflowLine_def quiet_def held_def load_def Let_def)
qed

lemma ingest_quiet:
  assumes "quiet r" "\<not> strict (rwSt r) \<or> load r + length b \<le> maxRPCPeek"
  shows "quiet (ingest rt r b) \<and> rwOut (ingest rt r b) @ held (ingest rt r b) = rwOut r @ held r @ b"
  using assms
proof (induction rt r b rule: ingest.induct)
  case (1 rt r a)
  show ?case
  proof (cases "a = []")
    case a: False
    have nd: "\<not> rwDiscard r" using "1.prems"(1) by (simp add: quiet_def)
    show ?thesis
    proof (cases "rwRaw r")
      case mode: True
      obtain r' a' where s: "scanBoundary r a = (r', a')" by fastforce
      have "quiet r' \<and> strict (rwSt r') = strict (rwSt r) \<and> rwOut r' @ held r' @ a' = rwOut r @ held r @ a"
        using s mode "1.prems"(1) by (auto simp: scanBoundary_def quiet_def held_def Let_def dest!: scan_loop_rest split: prod.splits option.splits)
      then show ?thesis
        using "1.IH"(1) [OF a _ s [symmetric]] "1.prems"(2) mode a s scanBoundary_load [OF s] scanBoundary_shorter [OF a s]
        by (auto simp: ingest_mode)
    next
      case mode: False
      obtain y rest where "LF \<notin> set a \<or> (a = y @ LF # rest \<and> LF \<notin> set y)" using split_list_first [of LF a] by blast
      then consider "LF \<notin> set a" | "a = y @ LF # rest" "LF \<notin> set y" by blast
      then show ?thesis
      proof cases
        case 1
        then show ?thesis using mode nd a "1.prems"
          by (auto simp: ingest_no_LF quiet_def held_def load_def overflowPartial_def Let_def)
      next
        case 2
        let ?l = "rwLine r @ y @ [LF]"
        have d: "dropWhile (\<lambda>c. c \<noteq> LF) a = LF # rest" "takeWhile (\<lambda>c. c \<noteq> LF) a = y"
          using 2 by (auto intro!: takeWhile_append_stop dropWhile_append_stop)
        have c: "quiet (completeLine rt ?l (r\<lparr>rwLine := []\<rparr>)) \<and>
            strict (rwSt (completeLine rt ?l (r\<lparr>rwLine := []\<rparr>))) = strict (rwSt r) \<and>
            rwOut (completeLine rt ?l (r\<lparr>rwLine := []\<rparr>)) @ held (completeLine rt ?l (r\<lparr>rwLine := []\<rparr>)) =
              rwOut r @ held r @ y @ [LF]"
          using completeLine_quiet [of "r\<lparr>rwLine := []\<rparr>" ?l rt] "1.prems" mode 2(1)
          by (auto simp: quiet_def held_def load_def)
        have "\<not> strict (rwSt r) \<or> load (completeLine rt ?l (r\<lparr>rwLine := []\<rparr>)) + length rest \<le> maxRPCPeek"
          using completeLine_load [of rt ?l r] "1.prems"(2) 2(1) by (auto simp: load_def)
        from "1.IH"(2) [OF a _ d(1), unfolded d(2)] this c mode nd
        show ?thesis using ingest_LF [of r y rt rest] 2 by auto
      qed
    qed
  qed (use 1 in simp)
qed

text \<open>
  A stream in which nothing is asked for passes byte for byte: when no id is waited for, the
  complete output is the input, in lax mode for streams of any size, in strict mode up to the cap.
\<close>

theorem sse_passthrough:
  assumes "ids st = []" "scanner st = None \<or> scanIDs st = []" "\<not> strict st \<or> length s \<le> maxRPCPeek"
  shows "rwOut (finish (ingest rt (newSSERewriter st) s)) = s"
proof -
  let ?r = "ingest rt (newSSERewriter st) s"
  have "quiet (newSSERewriter st)" using assms(1,2) by (auto simp: quiet_def idle_def newSSERewriter_def)
  from ingest_quiet [OF this, of s rt] assms(3)
  have "quiet ?r" "rwOut ?r @ held ?r = s" by (auto simp: load_def newSSERewriter_def held_def)
  then show ?thesis by (auto simp: finish_def quiet_def held_def)
qed

theorem sse_passthrough_witness:
  "rwOut (finish (ingest plain_rt (newSSERewriter (start_state\<lparr>ids := []\<rparr>)) (''data:x'' @ [LF, LF]))) = ''data:x'' @ [LF, LF]"
proof (rule sse_passthrough)
  show "\<not> strict (start_state\<lparr>ids := []\<rparr>) \<or> length (''data:x'' @ [LF, LF]) \<le> maxRPCPeek" by code_simp
qed (simp_all add: start_state_def)

end
