(* ===== verification/Proxy.thy ===== *)
theory Proxy
  imports Sserewrite
begin

text \<open>
  The reverse proxy of one upstream: \<^verbatim>\<open>newProxy\<close>, \<^verbatim>\<open>joinPath\<close>, \<^verbatim>\<open>countingWriter\<close> and
  \<^verbatim>\<open>writeJSONError\<close> of \<^verbatim>\<open>gateway/gateway.go\<close>, \<^verbatim>\<open>modifyResponse\<close> of
  \<^verbatim>\<open>gateway/responsefilter.go\<close>, and of \<^verbatim>\<open>net/http/httputil.ReverseProxy\<close> what the gateway relies
  on: the order of its hooks and what it does when the copy of a response body fails.
\<close>

subsection \<open>Requests\<close>

text \<open>\<open>rqBody = None\<close> is a request without a body; \<open>rqBodyErr\<close> is the error met when reading past \<open>rqBody\<close>.\<close>

record httpRequest =
  rqMethod :: bytes
  rqPath :: bytes
  rqRawQuery :: bytes
  rqHost :: bytes
  rqRemoteAddr :: bytes
  rqHeader :: header
  rqBody :: "bytes option"
  rqBodyErr :: "bytes option"

record outRequest =
  oMethod :: bytes
  oScheme :: bytes
  oURLHost :: bytes
  oPath :: bytes
  oRawQuery :: bytes
  oHost :: bytes
  oHeader :: header
  oBody :: bytes

definition joinPath :: "bytes \<Rightarrow> bytes \<Rightarrow> bytes" where
  "joinPath base0 suffix0 =
     (let base = TrimSuffix base0 ''/'' in
      if suffix0 = [] \<or> suffix0 = ''/'' then (if base = [] then ''/'' else base)
      else
        (let suffix1 = (if \<not> HasPrefix suffix0 ''/'' then ''/'' @ suffix0 else suffix0)
         in if base = [] then suffix1 else base @ suffix1))"

text \<open>
  The \<^verbatim>\<open>Rewrite\<close> hook.  \<open>hdr\<close> are the headers \<^verbatim>\<open>ReverseProxy\<close> and \<^verbatim>\<open>SetXForwarded\<close> prepare: those
  of the request without the hop-by-hop ones and with \<^verbatim>\<open>X-Forwarded-*\<close>.
\<close>

definition proxy_rewrite :: "parsed_url \<Rightarrow> bytes \<Rightarrow> header \<Rightarrow> bool \<Rightarrow> httpRequest \<Rightarrow> bytes \<Rightarrow> outRequest" where
  "proxy_rewrite target name hdr rewriting rq body =
     \<lparr>oMethod = rqMethod rq, oScheme = urlScheme target, oURLHost = urlHost target,
      oPath = joinPath (urlPath target) (TrimPrefix (rqPath rq) (''/mcp/'' @ name)),
      oRawQuery = rqRawQuery rq, oHost = urlHost target,
      oHeader = (if rewriting then hdr(''Accept-Encoding'' := []) else hdr), oBody = body\<rparr>"

subsection \<open>Response writers\<close>

text \<open>
  The client's side of a request: the header map under construction, what was sent, and how many
  more bytes the client takes before it is gone (\<open>None\<close>: all of them).  A status below 200 is
  informational and leaves the final one open.
\<close>

record clientConn =
  ccHeader :: header
  ccInfo :: "int list"
  ccFinal :: "(int \<times> header) option"
  ccBody :: bytes
  ccRoom :: "nat option"

definition new_conn :: "nat option \<Rightarrow> clientConn" where
  "new_conn room = \<lparr>ccHeader = (\<lambda>_. []), ccInfo = [], ccFinal = None, ccBody = [], ccRoom = room\<rparr>"

definition conn_Set :: "bytes \<Rightarrow> bytes \<Rightarrow> clientConn \<Rightarrow> clientConn" where
  "conn_Set k v c = c\<lparr>ccHeader := (ccHeader c)(k := [v])\<rparr>"

definition conn_WriteHeader :: "int \<Rightarrow> clientConn \<Rightarrow> clientConn" where
  "conn_WriteHeader code c =
     (if ccFinal c \<noteq> None then c
      else if 100 \<le> code \<and> code \<le> 199 \<and> code \<noteq> 101 then c\<lparr>ccInfo := ccInfo c @ [code]\<rparr>
      else c\<lparr>ccFinal := Some (code, ccHeader c)\<rparr>)"

definition conn_Write :: "bytes \<Rightarrow> clientConn \<Rightarrow> (nat \<times> bool) \<times> clientConn" where
  "conn_Write b c0 =
     (let c = (if ccFinal c0 = None then conn_WriteHeader 200 c0 else c0);
          n = (case ccRoom c of None \<Rightarrow> length b | Some k \<Rightarrow> min k (length b))
      in ((n, n = length b),
          c\<lparr>ccBody := ccBody c @ take n b, ccRoom := map_option (\<lambda>k. k - n) (ccRoom c)\<rparr>))"

record countingWriter =
  cwConn :: clientConn
  cwStatus :: int
  cwWritten :: nat

definition cw_WriteHeader :: "int \<Rightarrow> countingWriter \<Rightarrow> countingWriter" where
  "cw_WriteHeader code w =
     (let w1 = (if cwStatus w = 0 then w\<lparr>cwStatus := code\<rparr> else w)
      in w1\<lparr>cwConn := conn_WriteHeader code (cwConn w1)\<rparr>)"

text \<open>The number of bytes accepted is added up; the flag says that the write succeeded.\<close>

definition cw_Write :: "bytes \<Rightarrow> countingWriter \<Rightarrow> bool \<times> countingWriter" where
  "cw_Write b w =
     (let w1 = (if cwStatus w = 0 then w\<lparr>cwStatus := 200\<rparr> else w) in
      case conn_Write b (cwConn w1) of
        ((n, ok), c) \<Rightarrow> (ok, w1\<lparr>cwConn := c, cwWritten := cwWritten w1 + n\<rparr>))"

definition writeJSONError :: "int \<Rightarrow> int \<Rightarrow> bytes \<Rightarrow> clientConn \<Rightarrow> clientConn" where
  "writeJSONError status code msg c =
     (let c1 = conn_WriteHeader status (conn_Set ''Content-Type'' ''application/json'' c)
      in snd (conn_Write (jsonrpcError [] code msg @ [LF]) c1))"

subsection \<open>The response hook\<close>

text \<open>
  \<^verbatim>\<open>modifyResponse\<close>: the response to send and whether its body is read through an \<^verbatim>\<open>sseRewriter\<close>;
  \<open>None\<close> is a returned error.
\<close>

definition modifyResponse ::
  "go_rt \<Rightarrow> rewriteState option \<Rightarrow> httpResponse \<Rightarrow> (httpResponse \<times> bool) option \<times> rewriteState option" where
  "modifyResponse rt ost resp =
     (case ost of
        None \<Rightarrow> (Some (resp, False), None)
      | Some st \<Rightarrow>
          if rStatusCode resp \<noteq> 200 then (Some (resp, False), Some st)
          else
            (let ct = header_get (rHeader resp) ''Content-Type'' in
             if HasPrefix ct ''application/json'' then
               (case processJSONBody rt st resp of
                  (r, st1) \<Rightarrow>
                    (map_option (\<lambda>r1. (if scanFlagged st1 \<and> scanVerdict st1 \<noteq> []
                        then r1\<lparr>rHeader := (rHeader r1)(''X-Promptproof-Verdict'' := [scanVerdict st1])\<rparr> else r1, False)) r,
                     Some st1))
             else if HasPrefix ct ''text/event-stream'' then
               (Some (resp\<lparr>rHeader := (rHeader resp)(''Content-Length'' := []), rContentLength := - 1\<rparr>, True), Some st)
             else if strict st then
               (case blockResponse st resp (''tools/list response has unexpected content type '' @ Quote (is_print rt) ct) of
                  (r, st1) \<Rightarrow> (Some (r, False), Some st1))
             else (Some (resp, False), Some st)))"

subsection \<open>Serving a request\<close>

text \<open>
  What one exchange with an upstream depends on: the prepared headers, the informational statuses
  and the response the upstream sends (or a transport error), the removal of hop-by-hop headers from
  it, how its body arrives in chunks, the text of a body read error, and how much of the request
  body the transport has read.
\<close>

record exchange =
  exHeader :: "httpRequest \<Rightarrow> header"
  exRoundTrip :: "outRequest \<Rightarrow> bytes + (int list \<times> httpResponse)"
  exHop :: "header \<Rightarrow> header"
  exChunks :: "bytes \<Rightarrow> bytes list"
  exReadErr :: bytes
  exBodyRead :: "outRequest \<Rightarrow> nat"

definition ErrorHandler :: "bytes \<Rightarrow> countingWriter \<Rightarrow> countingWriter" where
  "ErrorHandler err w =
     (if cwStatus w \<noteq> 0 then w
      else
        (let w1 = w\<lparr>cwConn := conn_Set ''Content-Type'' ''application/json'' (cwConn w)\<rparr>;
             w2 = cw_WriteHeader 502 w1
         in snd (cw_Write (jsonrpcError [] (- 32001) ''upstream unavailable'' @ [LF]) w2)))"

text \<open>The complete body: read through the rewriter or as it is; with it the state of the rewriting.\<close>

definition stream_body :: "go_rt \<Rightarrow> (bytes \<Rightarrow> bytes list) \<Rightarrow> rewriteState \<Rightarrow> bytes \<Rightarrow> bytes \<times> rewriteState" where
  "stream_body rt chk st b =
     (let r = finish (foldl (ingest rt) (newSSERewriter st) (chk b)) in (rwOut r, rwSt r))"

record proxied =
  pxWriter :: countingWriter
  pxState :: "rewriteState option"
  pxErr :: bytes
  pxAborted :: bool
  pxOut :: outRequest

definition proxy_ServeHTTP ::
  "go_rt \<Rightarrow> exchange \<Rightarrow> parsed_url \<Rightarrow> bytes \<Rightarrow> rewriteState option \<Rightarrow> httpRequest \<Rightarrow> bytes \<Rightarrow> countingWriter \<Rightarrow> proxied" where
  "proxy_ServeHTTP rt ex target name ost rq body w =
     (let out = proxy_rewrite target name (exHeader ex rq) (ost \<noteq> None) rq body;
          failed = (\<lambda>err w st. \<lparr>pxWriter = ErrorHandler err w, pxState = st, pxErr = err, pxAborted = False, pxOut = out\<rparr>) in
      case exRoundTrip ex out of
        Inl err \<Rightarrow> failed err w ost
      | Inr (infos, resp0) \<Rightarrow>
          (let w1 = fold cw_WriteHeader infos w;
               resp = resp0\<lparr>rHeader := exHop ex (rHeader resp0)\<rparr> in
           case modifyResponse rt ost resp of
             (None, st) \<Rightarrow> failed (exReadErr ex) w1 st
           | (Some (r, sse), st) \<Rightarrow>
               (let (b, st1) = (case st of
                       Some s \<Rightarrow> if sse then (case stream_body rt (exChunks ex) s (rBody r) of (b, s1) \<Rightarrow> (b, Some s1))
                                 else (rBody r, Some s)
                     | None \<Rightarrow> (rBody r, None));
                    w2 = w1\<lparr>cwConn := (cwConn w1)\<lparr>ccHeader := (\<lambda>k. ccHeader (cwConn w1) k @ rHeader r k)\<rparr>\<rparr>;
                    w3 = cw_WriteHeader (rStatusCode r) w2;
                    (ok, w4) = (if b = [] then (True, w3) else cw_Write b w3)
                in \<lparr>pxWriter = w4, pxState = st1, pxErr = [], pxAborted = \<not> ok \<or> rBodyErr r, pxOut = out\<rparr>)))"

end
