(* ===== verification/Go_Marshal.thy ===== *)
theory Go_Marshal
  imports Go_Decode
begin

text \<open>
  Structs written by \<^verbatim>\<open>json.Marshal\<close>: the members in field order, those tagged \<^verbatim>\<open>omitempty\<close>
  only when not empty, no white space, the texts of strings and integers as \<^verbatim>\<open>encoding/json\<close>
  prints them.  The lemmas read a struct field back from such a text.
\<close>

subsection \<open>Writing\<close>

definition text_node :: "bytes \<Rightarrow> json" where
  "text_node s = JStr (marshal_string s)"

definition int_node :: "int \<Rightarrow> json" where
  "int_node i = JNum (Itoa i)"

definition array_node :: "json list \<Rightarrow> json" where
  "array_node vs = JArr (''['' @ join '','' (map raw_of vs) @ '']'') vs"

definition named :: "(bytes \<times> json) list \<Rightarrow> (bytes \<times> json) list" where
  "named ms = map (\<lambda>(k, v). (marshal_string k, v)) ms"

definition object_node :: "(bytes \<times> json) list \<Rightarrow> json" where
  "object_node ms = JObj (''{'' @ join '','' (map (\<lambda>(k, v). k @ '':'' @ raw_of v) (named ms)) @ ''}'') (named ms)"

text \<open>The fields of a struct: whether the field is omitted, its name and its value.\<close>

definition struct_fields :: "(bool \<times> bytes \<times> json) list \<Rightarrow> (bytes \<times> json) list" where
  "struct_fields fs = map snd (filter (\<lambda>f. \<not> fst f) fs)"

lemma text_node_node [simp]: "node d (text_node s)"
  by (simp add: text_node_def str_lit_marshal str_lit_node)

lemma int_node_node [simp]: "node d (int_node i)"
  by (simp add: int_node_def node_Itoa)

lemma bool_node_node [simp]: "node d (JBool b)"
  by (cases d; cases b) (simp_all add: node_def parse_simps)

lemma array_node_node: "\<forall>v \<in> set vs. node d v \<Longrightarrow> node (Suc d) (array_node vs)"
  unfolding array_node_def by (rule node_array)

lemma named_nodes: "\<forall>(k, v) \<in> set ms. node d v \<Longrightarrow> \<forall>(k, v) \<in> set (named ms). str_lit k \<and> node d v"
  by (auto simp: named_def str_lit_marshal)

lemma object_node_node: "\<forall>(k, v) \<in> set ms. node d v \<Longrightarrow> node (Suc d) (object_node ms)"
  unfolding object_node_def by (rule node_object) (rule named_nodes)

lemma unmarshal_object_node:
  "\<forall>(k, v) \<in> set ms. node d v \<Longrightarrow> d < maxNestingDepth \<Longrightarrow> unmarshal_struct (raw_of (object_node ms)) = Some (named ms)"
  unfolding object_node_def raw_of.simps by (rule unmarshal_struct_object [OF named_nodes])

lemma struct_fields_nodes: "\<forall>(om, k, v) \<in> set fs. node d v \<Longrightarrow> \<forall>(k, v) \<in> set (struct_fields fs). node d v"
  by (fastforce simp: struct_fields_def)

subsection \<open>Reading back\<close>

text \<open>The names of a struct's fields do not collide, in the case-insensitive sense of the decoder.\<close>

definition names_apart :: "bytes list \<Rightarrow> bool" where
  "names_apart ks \<longleftrightarrow> distinct (map foldName ks) \<and> list_all valid_utf8 ks"

lemma field_members_named:
  "list_all valid_utf8 (map fst ms) \<Longrightarrow>
     field_members f (named ms) = map snd (filter (\<lambda>(k, v). foldName k = foldName f) ms)"
  by (induction ms) (auto simp: field_members_def named_def key_matches_def unquote_marshal)

lemma field_members_struct:
  assumes "names_apart (map (fst \<circ> snd) fs)" "(om, f, v) \<in> set fs"
  shows "field_members f (named (struct_fields fs)) = (if om then [] else [v])"
proof -
  have u: "list_all valid_utf8 (map fst (struct_fields fs))"
    using assms(1) by (auto simp: names_apart_def struct_fields_def list_all_iff)
  have "filter (\<lambda>(k, v). foldName k = foldName f) (struct_fields fs) = (if om then [] else [(f, v)])"
    using assms
  proof (induction fs)
    case (Cons x fs)
    obtain om' f' v' where x: "x = (om', f', v')" by (metis prod_cases3)
    have na: "names_apart (map (fst \<circ> snd) fs)" using Cons.prems(1) by (simp add: names_apart_def comp_def)
    show ?case
    proof (cases "(om, f, v) = x")
      case True
      have "foldName f \<notin> foldName ` fst ` snd ` set fs" using Cons.prems(1) True x by (force simp: names_apart_def)
      then have "filter (\<lambda>(k, v). foldName k = foldName f) (struct_fields fs) = []"
        by (auto simp: struct_fields_def filter_empty_conv image_iff)
      then show ?thesis using True x by (auto simp: struct_fields_def)
    next
      case False
      then have mem: "(om, f, v) \<in> set fs" using Cons.prems(2) by simp
      then have "foldName f' \<noteq> foldName f" using Cons.prems(1) x by (force simp: names_apart_def)
      then show ?thesis using Cons.IH [OF na mem] x by (simp add: struct_fields_def)
    qed
  qed simp
  then show ?thesis by (simp add: field_members_named [OF u])
qed

lemma assign_struct_field:
  assumes "names_apart (map (fst \<circ> snd) fs)" "(om, f, v) \<in> set fs"
  shows "assign_field st i f (named (struct_fields fs)) = (if om then Some i else st i v)"
  by (simp add: assign_field_def field_members_struct [OF assms])

lemma raw_struct_field:
  assumes "names_apart (map (fst \<circ> snd) fs)" "(om, f, v) \<in> set fs"
  shows "field_raw f (named (struct_fields fs)) = (if om then [] else raw_of v)"
  by (simp add: field_raw_def field_members_struct [OF assms])

fun bool_step :: "bool \<Rightarrow> json \<Rightarrow> bool option" where
  "bool_step cur (JBool b) = Some b"
| "bool_step cur JNull = Some cur"
| "bool_step cur _ = None"

lemma string_step_text [simp]: "valid_utf8 s \<Longrightarrow> string_step c (text_node s) = Some s"
  by (simp add: text_node_def unquote_marshal)

lemma int_step_int [simp]: "- (2 ^ 63) \<le> i \<Longrightarrow> i < 2 ^ 63 \<Longrightarrow> int_step c (int_node i) = Some i"
  by (simp add: int_node_def ParseInt_Itoa)

lemma strings_step_texts [simp]:
  "list_all valid_utf8 ss \<Longrightarrow> strings_step c (array_node (map text_node ss)) = Some (Some ss)"
proof -
  assume "list_all valid_utf8 ss"
  then have "those (map string_of (map text_node ss)) = Some (map (\<lambda>x. x) ss)"
    unfolding map_map by (intro those_map_cong) (auto simp: list_all_iff text_node_def unquote_marshal)
  then show ?thesis by (simp add: array_node_def)
qed

subsection \<open>One line\<close>

lemma LF_not_hex: "hex_val LF = None" "\<not> simple_escape LF"
  by code_simp+

lemma str_body_no_LF: "str_body b \<Longrightarrow> LF \<notin> set b"
  by (induction rule: str_body.induct) (auto simp: LF_not_hex is_hex_def)

lemma marshal_string_no_LF [simp]: "LF \<notin> set (marshal_string s)"
  using str_body_no_LF [OF str_body_encode [of s]] by (simp add: marshal_string_def)

lemma Itoa_no_LF [simp]: "LF \<notin> set (Itoa i)"
proof -
  have "LF \<notin> set (nat_digits n)" for n using nat_digits_digits [of n] by (auto simp: list_all_iff is_digit_def)
  then show ?thesis by (simp add: Itoa_def)
qed

definition one_line :: "json \<Rightarrow> bool" where
  "one_line v \<longleftrightarrow> LF \<notin> set (raw_of v)"

lemma one_line_simps [simp]: "one_line (text_node s)" "one_line (int_node i)" "one_line (JBool b)"
  by (simp_all add: one_line_def text_node_def int_node_def)

lemma one_line_array: "\<forall>v \<in> set vs. one_line v \<Longrightarrow> one_line (array_node vs)"
  using set_join [of "'',''" "map raw_of vs"] by (auto simp: one_line_def array_node_def)

lemma one_line_object: "\<forall>(k, v) \<in> set ms. one_line v \<Longrightarrow> one_line (object_node ms)"
proof -
  assume a: "\<forall>(k, v) \<in> set ms. one_line v"
  have "LF \<notin> set (join '','' (map (\<lambda>(k, v). k @ '':'' @ raw_of v) (named ms)))"
    using set_join [of "'',''" "map (\<lambda>(k, v). k @ '':'' @ raw_of v) (named ms)"] a
    by (fastforce simp: one_line_def named_def)
  then show ?thesis by (simp add: one_line_def object_node_def)
qed

end
