(* ===== verification/Calls.thy ===== *)
theory Calls
  imports Prelude
begin

text \<open>
  Operations on shared state.  The gateway's mutexes serialise calls, so what concurrent callers
  see is some sequence of calls: \<open>run_calls\<close> runs it and collects the answers.  The locale \<open>preserves\<close> is
  the contract of an operation that keeps an invariant, \<open>refines\<close> that of an operation that
  answers like an abstract one, call by call.
\<close>

fun run_calls :: "('q \<Rightarrow> 's \<Rightarrow> 'r \<times> 's) \<Rightarrow> 'q list \<Rightarrow> 's \<Rightarrow> 'r list \<times> 's" where
  "run_calls op [] s = ([], s)"
| "run_calls op (q # qs) s =
     (case op q s of (r, s1) \<Rightarrow> (case run_calls op qs s1 of (rs, s2) \<Rightarrow> (r # rs, s2)))"

lemma run_calls_ConsE:
  assumes "run_calls op (q # qs) s = (rs, s')"
  obtains r s1 rs' where "op q s = (r, s1)" "run_calls op qs s1 = (rs', s')" "rs = r # rs'"
  using assms by (auto split: prod.splits)

lemma run_calls_length: "run_calls op qs s = (rs, s') \<Longrightarrow> length rs = length qs"
  by (induction qs arbitrary: s rs) (auto split: prod.splits)

lemma run_calls_append:
  "run_calls op (qs @ qs') s = (case run_calls op qs s of (rs, s1) \<Rightarrow> (case run_calls op qs' s1 of (rs', s2) \<Rightarrow> (rs @ rs', s2)))"
  by (induction qs arbitrary: s) (auto split: prod.splits)

locale preserves =
  fixes op :: "'q \<Rightarrow> 's \<Rightarrow> 'r \<times> 's" and ok :: "'s \<Rightarrow> bool" and allowed :: "'q \<Rightarrow> bool"
  assumes preserves_step: "ok s \<Longrightarrow> allowed q \<Longrightarrow> op q s = (r, s') \<Longrightarrow> ok s'"
begin

lemma calls_keep: "ok s \<Longrightarrow> list_all allowed qs \<Longrightarrow> run_calls op qs s = (rs, s') \<Longrightarrow> ok s'"
  by (induction qs arbitrary: s rs) (auto split: prod.splits dest: preserves_step)

end

locale refines =
  fixes op :: "'q \<Rightarrow> 's \<Rightarrow> 'r \<times> 's" and spec :: "'q \<Rightarrow> 'm \<Rightarrow> 'r \<times> 'm"
    and rel :: "'s \<Rightarrow> 'm \<Rightarrow> bool" and allowed :: "'q \<Rightarrow> bool"
  assumes refines_step: "rel s m \<Longrightarrow> allowed q \<Longrightarrow> op q s = (r, s') \<Longrightarrow> \<exists>m'. spec q m = (r, m') \<and> rel s' m'"
begin

lemma calls_refine:
  "rel s m \<Longrightarrow> list_all allowed qs \<Longrightarrow> run_calls op qs s = (rs, s') \<Longrightarrow> \<exists>m'. run_calls spec qs m = (rs, m') \<and> rel s' m'"
proof (induction qs arbitrary: s m rs)
  case (Cons q qs)
  from Cons.prems(3) obtain r s1 rs' where c: "op q s = (r, s1)" "run_calls op qs s1 = (rs', s')" "rs = r # rs'"
    by (rule run_calls_ConsE)
  from Cons.prems obtain m1 where m1: "spec q m = (r, m1)" "rel s1 m1" using refines_step [OF _ _ c(1)] by auto
  with Cons.IH [OF m1(2) _ c(2)] Cons.prems(2) obtain m' where "run_calls spec qs m1 = (rs', m')" "rel s' m'" by auto
  with m1(1) c(3) show ?case by auto
qed auto

end

end
