(* ===== verification/Audit_Log.thy ===== *)
theory Audit_Log
  imports Go_Marshal Calls
begin

text \<open>
  \<^verbatim>\<open>gateway/audit.go\<close>: the audit entry, its JSON line, and the auditor.  A write to the sink is a
  parameter that says how many bytes were accepted and which error was returned.  Marshalling an
  \<^verbatim>\<open>Entry\<close> cannot fail: it holds strings, integers, booleans and one finite float.
\<close>

subsection \<open>Entries\<close>

text \<open>\<open>eDurationUS\<close> is the duration in microseconds, which the source divides by 1000.\<close>

record Entry =
  eTime :: bytes
  eUpstream :: bytes
  eRemote :: bytes
  eHTTPMethod :: bytes
  ePath :: bytes
  eSessionID :: bytes
  eProtocolVersion :: bytes
  eRPCMethods :: "bytes list"
  eRPCIDs :: "bytes list"
  eTools :: "bytes list"
  eRPCBatch :: bool
  eRPCInvalid :: bool
  eToolsFiltered :: int
  eToolsDrift :: bool
  ePromptProofVerdict :: bytes
  ePromptProofScore :: int
  ePromptProofCategories :: "bytes list"
  ePromptProofBlocked :: bool
  ePromptProofError :: bytes
  eStatus :: int
  eSSE :: bool
  eBytesIn :: int
  eBytesOut :: int
  eDurationUS :: nat
  eError :: bytes

definition zero_entry :: Entry where
  "zero_entry = \<lparr>eTime = [], eUpstream = [], eRemote = [], eHTTPMethod = [], ePath = [], eSessionID = [],
     eProtocolVersion = [], eRPCMethods = [], eRPCIDs = [], eTools = [], eRPCBatch = False, eRPCInvalid = False,
     eToolsFiltered = 0, eToolsDrift = False, ePromptProofVerdict = [], ePromptProofScore = 0,
     ePromptProofCategories = [], ePromptProofBlocked = False, ePromptProofError = [], eStatus = 0,
     eSSE = False, eBytesIn = 0, eBytesOut = 0, eDurationUS = 0, eError = []\<rparr>"

text \<open>
  The text of the float \<open>n / 1000\<close>: its shortest decimal is the exact one for every \<open>n\<close> of at most
  15 digits, which is more than thirty years of microseconds.
\<close>

definition digits3 :: "nat \<Rightarrow> bytes" where
  "digits3 n = [char_of (48 + n div 100 mod 10), char_of (48 + n div 10 mod 10), char_of (48 + n mod 10)]"

definition format_ms :: "nat \<Rightarrow> bytes" where
  "format_ms n =
     nat_digits (n div 1000) @
     (if n mod 1000 = 0 then []
      else CHR ''.'' # rev (dropWhile (\<lambda>c. c = CHR ''0'') (rev (digits3 (n mod 1000)))))"

definition entry_fields :: "Entry \<Rightarrow> (bool \<times> bytes \<times> json) list" where
  "entry_fields e =
     [(False, ''ts'', text_node (eTime e)),
      (False, ''upstream'', text_node (eUpstream e)),
      (eRemote e = [], ''remote'', text_node (eRemote e)),
      (False, ''http_method'', text_node (eHTTPMethod e)),
      (False, ''path'', text_node (ePath e)),
      (eSessionID e = [], ''session_id'', text_node (eSessionID e)),
      (eProtocolVersion e = [], ''protocol_version'', text_node (eProtocolVersion e)),
      (eRPCMethods e = [], ''rpc_methods'', array_node (map text_node (eRPCMethods e))),
      (eRPCIDs e = [], ''rpc_ids'', array_node (map text_node (eRPCIDs e))),
      (eTools e = [], ''tools'', array_node (map text_node (eTools e))),
      (\<not> eRPCBatch e, ''rpc_batch'', JBool (eRPCBatch e)),
      (\<not> eRPCInvalid e, ''rpc_invalid'', JBool (eRPCInvalid e)),
      (eToolsFiltered e = 0, ''tools_filtered'', int_node (eToolsFiltered e)),
      (\<not> eToolsDrift e, ''tools_drift'', JBool (eToolsDrift e)),
      (ePromptProofVerdict e = [], ''promptproof_verdict'', text_node (ePromptProofVerdict e)),
      (ePromptProofScore e = 0, ''promptproof_score'', int_node (ePromptProofScore e)),
      (ePromptProofCategories e = [], ''promptproof_categories'', array_node (map text_node (ePromptProofCategories e))),
      (\<not> ePromptProofBlocked e, ''promptproof_blocked'', JBool (ePromptProofBlocked e)),
      (ePromptProofError e = [], ''promptproof_error'', text_node (ePromptProofError e)),
      (False, ''status'', int_node (eStatus e)),
      (\<not> eSSE e, ''sse'', JBool (eSSE e)),
      (False, ''bytes_in'', int_node (eBytesIn e)),
      (False, ''bytes_out'', int_node (eBytesOut e)),
      (False, ''duration_ms'', JNum (format_ms (eDurationUS e))),
      (eError e = [], ''error'', text_node (eError e))]"

definition marshal_entry :: "Entry \<Rightarrow> bytes" where
  "marshal_entry e = raw_of (object_node (struct_fields (entry_fields e)))"

subsection \<open>The auditor\<close>

text \<open>\<open>aSink\<close> is what the sink has received, \<open>aStderr\<close> the lines printed to standard error.\<close>

record Auditor =
  aSink :: bytes
  aCloser :: bool
  aFailed :: bool
  aStderr :: "bytes list"

definition NewAuditor :: "(bytes \<Rightarrow> bytes option) \<Rightarrow> bytes \<Rightarrow> bytes + Auditor" where
  "NewAuditor open_err path =
     (if path = [] \<or> path = ''-'' then Inr \<lparr>aSink = [], aCloser = False, aFailed = False, aStderr = []\<rparr>
      else case open_err path of
             Some err \<Rightarrow> Inl (''audit: open '' @ path @ '': '' @ err)
           | None \<Rightarrow> Inr \<lparr>aSink = [], aCloser = True, aFailed = False, aStderr = []\<rparr>)"

definition NewAuditorWriter :: Auditor where
  "NewAuditorWriter = \<lparr>aSink = [], aCloser = False, aFailed = False, aStderr = []\<rparr>"

definition reportFailure :: "bytes \<Rightarrow> Auditor \<Rightarrow> Auditor" where
  "reportFailure err a =
     (let first = \<not> aFailed a; a1 = a\<lparr>aFailed := True\<rparr> in
      if first
      then a1\<lparr>aStderr := aStderr a1 @
        [''mcp-gateway-lite: audit write failed (further failures suppressed): '' @ err]\<rparr>
      else a1)"

definition Log :: "(bytes \<Rightarrow> nat \<times> bytes option) \<Rightarrow> Entry \<Rightarrow> Auditor \<Rightarrow> Auditor" where
  "Log write e a =
     (let line = marshal_entry e @ [LF]; (n, err) = write line; a1 = a\<lparr>aSink := aSink a @ take n line\<rparr>
      in case err of None \<Rightarrow> a1 | Some x \<Rightarrow> reportFailure x a1)"

definition Close_auditor :: "bytes option \<Rightarrow> Auditor \<Rightarrow> bytes option" where
  "Close_auditor close_err a = (if aCloser a then close_err else None)"

subsection \<open>An entry read back\<close>

text \<open>The reference decoder: the struct fields of a line, by the names the entry was written with.\<close>

definition decode_entry :: "bytes \<Rightarrow> Entry option" where
  "decode_entry line =
     do { ms \<leftarrow> unmarshal_struct line;
          ts \<leftarrow> assign_field string_step [] ''ts'' ms;
          up \<leftarrow> assign_field string_step [] ''upstream'' ms;
          rem \<leftarrow> assign_field string_step [] ''remote'' ms;
          hm \<leftarrow> assign_field string_step [] ''http_method'' ms;
          pa \<leftarrow> assign_field string_step [] ''path'' ms;
          si \<leftarrow> assign_field string_step [] ''session_id'' ms;
          pv \<leftarrow> assign_field string_step [] ''protocol_version'' ms;
          rm \<leftarrow> assign_field strings_step None ''rpc_methods'' ms;
          ri \<leftarrow> assign_field strings_step None ''rpc_ids'' ms;
          tl \<leftarrow> assign_field strings_step None ''tools'' ms;
          rb \<leftarrow> assign_field bool_step False ''rpc_batch'' ms;
          rv \<leftarrow> assign_field bool_step False ''rpc_invalid'' ms;
          tf \<leftarrow> assign_field int_step 0 ''tools_filtered'' ms;
          td \<leftarrow> assign_field bool_step False ''tools_drift'' ms;
          vd \<leftarrow> assign_field string_step [] ''promptproof_verdict'' ms;
          sc \<leftarrow> assign_field int_step 0 ''promptproof_score'' ms;
          ca \<leftarrow> assign_field strings_step None ''promptproof_categories'' ms;
          bl \<leftarrow> assign_field bool_step False ''promptproof_blocked'' ms;
          pe \<leftarrow> assign_field string_step [] ''promptproof_error'' ms;
          st \<leftarrow> assign_field int_step 0 ''status'' ms;
          ss \<leftarrow> assign_field bool_step False ''sse'' ms;
          bi \<leftarrow> assign_field int_step 0 ''bytes_in'' ms;
          bo \<leftarrow> assign_field int_step 0 ''bytes_out'' ms;
          er \<leftarrow> assign_field string_step [] ''error'' ms;
          Some \<lparr>eTime = ts, eUpstream = up, eRemote = rem, eHTTPMethod = hm, ePath = pa, eSessionID = si,
            eProtocolVersion = pv, eRPCMethods = (case rm of None \<Rightarrow> [] | Some xs \<Rightarrow> xs),
            eRPCIDs = (case ri of None \<Rightarrow> [] | Some xs \<Rightarrow> xs), eTools = (case tl of None \<Rightarrow> [] | Some xs \<Rightarrow> xs),
            eRPCBatch = rb, eRPCInvalid = rv, eToolsFiltered = tf, eToolsDrift = td, ePromptProofVerdict = vd,
            ePromptProofScore = sc, ePromptProofCategories = (case ca of None \<Rightarrow> [] | Some xs \<Rightarrow> xs),
            ePromptProofBlocked = bl, ePromptProofError = pe, eStatus = st, eSSE = ss, eBytesIn = bi,
            eBytesOut = bo, eDurationUS = 0, eError = er\<rparr> }"

text \<open>What the Go types promise: strings that are valid UTF-8 and 64-bit integers.\<close>

definition entry_ok :: "Entry \<Rightarrow> bool" where
  "entry_ok e \<longleftrightarrow>
     list_all valid_utf8 [eTime e, eUpstream e, eRemote e, eHTTPMethod e, ePath e, eSessionID e, eProtocolVersion e,
       ePromptProofVerdict e, ePromptProofError e, eError e] \<and>
     list_all valid_utf8 (eRPCMethods e) \<and> list_all valid_utf8 (eRPCIDs e) \<and> list_all valid_utf8 (eTools e) \<and>
     list_all valid_utf8 (ePromptProofCategories e) \<and>
     list_all (\<lambda>i. - (2 ^ 63) \<le> i \<and> i < 2 ^ 63)
       [eToolsFiltered e, ePromptProofScore e, eStatus e, eBytesIn e, eBytesOut e]"

lemma scan_frac_digits:
  "list_all is_digit ds \<Longrightarrow> ds \<noteq> [] \<Longrightarrow> scan_frac (CHR ''.'' # ds) = Some (CHR ''.'' # ds, [])"
proof -
  assume "list_all is_digit ds" "ds \<noteq> []"
  then show ?thesis
    by (cases ds) (simp_all add: scan_frac_def takeWhile_eq_all_conv dropWhile_eq_Nil_conv list_all_iff)
qed

lemma scan_int_then: "scan_int (nat_digits n @ CHR ''.'' # r) = Some (nat_digits n, CHR ''.'' # r)"
proof (cases "n = 0")
  case True
  then have "nat_digits n = ''0''" by (subst nat_digits.simps) (simp add: char_of_iff)
  then show ?thesis by (simp add: scan_int_def)
next
  case False
  obtain c cs where c: "nat_digits n = c # cs" by (cases "nat_digits n") auto
  have d: "is_digit c" "\<forall>x \<in> set cs. is_digit x" using nat_digits_digits [of n] c by (simp_all add: list_all_iff)
  have "\<not> is_digit CHR ''.''" by (simp add: is_digit_def)
  then have "takeWhile is_digit (cs @ CHR ''.'' # r) = cs" "dropWhile is_digit (cs @ CHR ''.'' # r) = CHR ''.'' # r"
    using takeWhile_append_stop [OF d(2), of "CHR ''.'' # r"] dropWhile_append_stop [OF d(2), of "CHR ''.'' # r"] by simp_all
  moreover have "c \<noteq> CHR ''0''" using nat_digits_lead [of n] False c by simp
  ultimately show ?thesis using c d by (simp add: scan_int_def)
qed

definition fraction :: "nat \<Rightarrow> bytes" where
  "fraction n = rev (dropWhile (\<lambda>c. c = CHR ''0'') (rev (digits3 n)))"

lemma fraction_digits: "list_all is_digit (fraction n)"
proof -
  have "list_all is_digit (digits3 n)" by (simp add: digits3_def digit_chars)
  then show ?thesis by (auto simp: fraction_def list_all_iff dest: set_dropWhileD)
qed

lemma fraction_ne: "0 < n \<Longrightarrow> n < 1000 \<Longrightarrow> fraction n \<noteq> []"
proof
  assume n: "0 < n" "n < 1000" and "fraction n = []"
  then have "\<forall>c \<in> set (digits3 n). c = CHR ''0''" by (simp add: fraction_def dropWhile_eq_Nil_conv)
  then have z: "n div 100 mod 10 = 0" "n div 10 mod 10 = 0" "n mod 10 = 0" by (simp_all add: digits3_def char_of_iff)
  have "n div 100 < 10" using n(2) by (simp add: div_less_iff_less_mult)
  with z(1) have "n < 100" by (simp add: div_eq_0_iff)
  then have "n div 10 < 10" by (simp add: div_less_iff_less_mult)
  with z(2) have "n < 10" by (simp add: div_eq_0_iff)
  with z(3) n(1) show False by simp
qed

lemma format_ms_fraction: "format_ms n = nat_digits (n div 1000) @ (if n mod 1000 = 0 then [] else CHR ''.'' # fraction (n mod 1000))"
  by (simp add: format_ms_def fraction_def)

lemma format_ms_num: "scan_num (format_ms n) = Some (format_ms n, [])"
proof -
  have e: "scan_frac [] = Some ([], [])" "scan_exp [] = Some ([], [])" by (simp_all add: scan_frac_def scan_exp_def)
  obtain c cs where c: "nat_digits (n div 1000) = c # cs" by (cases "nat_digits (n div 1000)") auto
  have m: "c \<noteq> CHR ''-''" using digits_not_minus [of "n div 1000"] c by simp
  show ?thesis
  proof (cases "n mod 1000 = 0")
    case True
    then show ?thesis using c m e scan_int_digits [of "n div 1000"] by (simp add: format_ms_fraction scan_num_def)
  next
    case False
    then have f: "scan_frac (CHR ''.'' # fraction (n mod 1000)) = Some (CHR ''.'' # fraction (n mod 1000), [])"
      by (intro scan_frac_digits fraction_digits fraction_ne) simp_all
    show ?thesis using False c m e f scan_int_then [of "n div 1000" "fraction (n mod 1000)"]
      by (simp add: format_ms_fraction scan_num_def)
  qed
qed

lemma scan_num_node:
  assumes "scan_num l = Some (l, [])" "l \<noteq> []" "is_digit (hd l)"
  shows "node d (JNum l)"
proof -
  obtain c cs where c: "l = c # cs" using assms(2) by (cases l) auto
  have "\<not> is_digit CHR ''[''" "\<not> is_digit CHR ''{''" "\<not> is_digit QUOTE" "\<not> is_digit CHR ''n''" "\<not> is_digit CHR ''t''" "\<not> is_digit CHR ''f''"
    by (simp_all add: is_digit_def)
  with assms(3) c have ne: "c \<noteq> CHR ''[''" "c \<noteq> CHR ''{''" "c \<noteq> QUOTE" "c \<noteq> CHR ''n''" "c \<noteq> CHR ''t''" "c \<noteq> CHR ''f''" by auto
  have "parse_scalar (c # cs) = Some (JNum (c # cs), [])" using ne assms c by (simp add: parse_scalar_def)
  moreover have "\<not> is_open (c # cs)" using ne by (simp add: is_open_def)
  ultimately show ?thesis using c by (cases d) (simp_all add: node_def)
qed

lemma format_ms_node [simp]: "node d (JNum (format_ms n))"
proof (rule scan_num_node [OF format_ms_num])
  show "format_ms n \<noteq> []" by (simp add: format_ms_fraction)
  obtain c cs where "nat_digits (n div 1000) = c # cs" by (cases "nat_digits (n div 1000)") auto
  then show "is_digit (hd (format_ms n))" using nat_digits_digits [of "n div 1000"] by (simp add: format_ms_fraction)
qed

lemma format_ms_line [simp]: "one_line (JNum (format_ms n))"
proof -
  have "\<forall>c \<in> set (format_ms n). is_digit c \<or> c = CHR ''.''"
    using fraction_digits [of "n mod 1000"] nat_digits_digits [of "n div 1000"] by (auto simp: format_ms_fraction list_all_iff)
  moreover have "\<not> is_digit LF" "LF \<noteq> CHR ''.''" by (simp_all add: is_digit_def)
  ultimately show ?thesis by (auto simp: one_line_def)
qed

lemma array_text_node: "node (Suc d) (array_node (map text_node ss))"
  by (rule array_node_node) simp

lemma entry_nodes: "\<forall>(om, k, v) \<in> set (entry_fields e). node (Suc 0) v"
  by (simp add: entry_fields_def array_text_node)

lemma entry_lines: "\<forall>(om, k, v) \<in> set (entry_fields e). one_line v"
  by (simp add: entry_fields_def one_line_array)

lemma marshal_entry_line: "LF \<notin> set (marshal_entry e)"
proof -
  have "\<forall>(k, v) \<in> set (struct_fields (entry_fields e)). one_line v"
    using entry_lines [of e] by (fastforce simp: struct_fields_def)
  then show ?thesis using one_line_object by (simp add: marshal_entry_def one_line_def)
qed

lemma entry_names: "map (fst \<circ> snd) (entry_fields e) = map (fst \<circ> snd) (entry_fields zero_entry)"
  by (simp add: entry_fields_def)

lemma entry_names_apart: "names_apart (map (fst \<circ> snd) (entry_fields e))"
  unfolding entry_names [of e] by code_simp

text \<open>Each field of a line, read back.\<close>

lemma entry_member:
  "(False, ''ts'', text_node (eTime e)) \<in> set (entry_fields e)"
  "(False, ''upstream'', text_node (eUpstream e)) \<in> set (entry_fields e)"
  "(eRemote e = [], ''remote'', text_node (eRemote e)) \<in> set (entry_fields e)"
  "(False, ''http_method'', text_node (eHTTPMethod e)) \<in> set (entry_fields e)"
  "(False, ''path'', text_node (ePath e)) \<in> set (entry_fields e)"
  "(eSessionID e = [], ''session_id'', text_node (eSessionID e)) \<in> set (entry_fields e)"
  "(eProtocolVersion e = [], ''protocol_version'', text_node (eProtocolVersion e)) \<in> set (entry_fields e)"
  "(eRPCMethods e = [], ''rpc_methods'', array_node (map text_node (eRPCMethods e))) \<in> set (entry_fields e)"
  "(eRPCIDs e = [], ''rpc_ids'', array_node (map text_node (eRPCIDs e))) \<in> set (entry_fields e)"
  "(eTools e = [], ''tools'', array_node (map text_node (eTools e))) \<in> set (entry_fields e)"
  "(\<not> eRPCBatch e, ''rpc_batch'', JBool (eRPCBatch e)) \<in> set (entry_fields e)"
  "(\<not> eRPCInvalid e, ''rpc_invalid'', JBool (eRPCInvalid e)) \<in> set (entry_fields e)"
  "(eToolsFiltered e = 0, ''tools_filtered'', int_node (eToolsFiltered e)) \<in> set (entry_fields e)"
  "(\<not> eToolsDrift e, ''tools_drift'', JBool (eToolsDrift e)) \<in> set (entry_fields e)"
  "(ePromptProofVerdict e = [], ''promptproof_verdict'', text_node (ePromptProofVerdict e)) \<in> set (entry_fields e)"
  "(ePromptProofScore e = 0, ''promptproof_score'', int_node (ePromptProofScore e)) \<in> set (entry_fields e)"
  "(ePromptProofCategories e = [], ''promptproof_categories'', array_node (map text_node (ePromptProofCategories e))) \<in> set (entry_fields e)"
  "(\<not> ePromptProofBlocked e, ''promptproof_blocked'', JBool (ePromptProofBlocked e)) \<in> set (entry_fields e)"
  "(ePromptProofError e = [], ''promptproof_error'', text_node (ePromptProofError e)) \<in> set (entry_fields e)"
  "(False, ''status'', int_node (eStatus e)) \<in> set (entry_fields e)"
  "(\<not> eSSE e, ''sse'', JBool (eSSE e)) \<in> set (entry_fields e)"
  "(False, ''bytes_in'', int_node (eBytesIn e)) \<in> set (entry_fields e)"
  "(False, ''bytes_out'', int_node (eBytesOut e)) \<in> set (entry_fields e)"
  "(False, ''duration_ms'', JNum (format_ms (eDurationUS e))) \<in> set (entry_fields e)"
  "(eError e = [], ''error'', text_node (eError e)) \<in> set (entry_fields e)"
  unfolding entry_fields_def by simp_all

lemmas entry_reads = entry_member [THEN assign_struct_field [OF entry_names_apart]]

lemma omitted_empty: "(if s = [] then Some [] else Some s) = Some s" "(if i = 0 then Some 0 else Some i) = Some i"
  by simp_all

lemma omitted_bool: "(if \<not> b then Some False else bool_step False (JBool b)) = Some b"
  by simp

lemma omitted_texts:
  "list_all valid_utf8 ss \<Longrightarrow>
     (if ss = [] then Some None else strings_step None (array_node (map text_node ss))) = Some (if ss = [] then None else Some ss)"
  by simp

lemma absent_texts: "(case (if ss = [] then None else Some ss) of None \<Rightarrow> [] | Some xs \<Rightarrow> xs) = ss"
  by simp


definition sample_entry :: Entry where
  "sample_entry = zero_entry\<lparr>eTime := ''2026-01-02T03:04:05Z'', eUpstream := ''a'', eRPCMethods := [''tools/list''],
     eStatus := 200, eBytesIn := 12, eDurationUS := 1250\<rparr>"


subsection \<open>The log\<close>

text \<open>What of a line the sink accepted, and the error returned for it.\<close>

definition accepted :: "(bytes \<Rightarrow> nat \<times> bytes option) \<times> Entry \<Rightarrow> bytes" where
  "accepted q = (let line = marshal_entry (snd q) @ [LF] in take (fst (fst q line)) line)"

definition write_err :: "(bytes \<Rightarrow> nat \<times> bytes option) \<times> Entry \<Rightarrow> bytes option" where
  "write_err q = snd (fst q (marshal_entry (snd q) @ [LF]))"

definition log_op :: "(bytes \<Rightarrow> nat \<times> bytes option) \<times> Entry \<Rightarrow> Auditor \<Rightarrow> unit \<times> Auditor" where
  "log_op q a = ((), Log (fst q) (snd q) a)"

definition reported_once :: "Auditor \<Rightarrow> bool" where
  "reported_once a \<longleftrightarrow> length (aStderr a) = (if aFailed a then 1 else 0)"

interpretation auditor: preserves log_op reported_once "\<lambda>_. True"
  by unfold_locales
    (auto simp: log_op_def Log_def reported_once_def reportFailure_def Let_def split: prod.splits option.splits if_splits)

lemma log_op_effect:
  "log_op q a = (r, a') \<Longrightarrow> aSink a' = aSink a @ accepted q \<and> aFailed a' = (aFailed a \<or> write_err q \<noteq> None)"
  by (auto simp: log_op_def Log_def accepted_def write_err_def reportFailure_def Let_def split: prod.splits option.splits)

lemma log_calls_effect:
  "run_calls log_op qs a = (rs, a') \<Longrightarrow>
     aSink a' = aSink a @ concat (map accepted qs) \<and> aFailed a' = (aFailed a \<or> (\<exists>q \<in> set qs. write_err q \<noteq> None))"
  by (induction qs arbitrary: a rs) (auto elim!: run_calls_ConsE dest!: log_op_effect simp del: run_calls.simps simp add: run_calls.simps(1))

text \<open>
  A failing sink does not stop the audit: every entry is still offered to it and what it accepts is
  appended in order; standard error gets one report when some write failed, and none otherwise.
\<close>

theorem audit_failures_reported_once:
  "\<exists>a. snd (run_calls log_op qs NewAuditorWriter) = a \<and> aSink a = concat (map accepted qs) \<and>
    length (aStderr a) = (if list_all (\<lambda>q. write_err q = None) qs then 0 else 1)"
proof -
  obtain rs a where r: "run_calls log_op qs NewAuditorWriter = (rs, a)" by fastforce
  have "reported_once NewAuditorWriter" by (simp add: reported_once_def NewAuditorWriter_def)
  then have "reported_once a" using auditor.calls_keep [OF _ _ r] by (simp add: list_all_iff)
  then show ?thesis using log_calls_effect [OF r] r
    by (auto simp: reported_once_def NewAuditorWriter_def list_all_iff)
qed

text \<open>The lines of a text.\<close>

function text_lines :: "bytes \<Rightarrow> bytes list" where
  "text_lines s = (if s = [] then [] else takeWhile (\<lambda>c. c \<noteq> LF) s # text_lines (tl (dropWhile (\<lambda>c. c \<noteq> LF) s)))"
  by auto
termination
proof (relation "measure length")
  fix s :: bytes
  assume "s \<noteq> []"
  then show "(tl (dropWhile (\<lambda>c. c \<noteq> LF) s), s) \<in> measure length"
    using dropWhile_length_le [of "\<lambda>c. c \<noteq> LF" s] by (cases s) (auto simp: less_Suc_eq_le intro: le_trans [OF diff_le_self])
qed simp

declare text_lines.simps [simp del]

lemma text_lines_line: "LF \<notin> set l \<Longrightarrow> text_lines (l @ LF # s) = l # text_lines s"
proof -
  assume "LF \<notin> set l"
  then have l: "\<forall>c \<in> set l. c \<noteq> LF" by auto
  show ?thesis using takeWhile_append_stop [OF l, of "LF # s"] dropWhile_append_stop [OF l, of "LF # s"]
    by (subst text_lines.simps) simp
qed

text \<open>
  On a working sink the log is JSON Lines: its lines are the texts of the entries, one each and in
  the order of the calls.
\<close>

theorem audit_log_lines:
  assumes "list_all (\<lambda>q. \<forall>line. fst q line = (length line, None)) qs"
  shows "text_lines (aSink (snd (run_calls log_op qs NewAuditorWriter))) = map (marshal_entry \<circ> snd) qs"
proof -
  obtain rs a where r: "run_calls log_op qs NewAuditorWriter = (rs, a)" by fastforce
  have m: "map accepted qs = map (\<lambda>q. marshal_entry (snd q) @ [LF]) qs"
    using assms by (auto simp: accepted_def list_all_iff Let_def)
  have "aSink a = concat (map accepted qs)" using log_calls_effect [OF r] by (simp add: NewAuditorWriter_def)
  then have "aSink a = concat (map (\<lambda>q. marshal_entry (snd q) @ [LF]) qs)" by (simp only: m)
  moreover have "text_lines (concat (map (\<lambda>q. marshal_entry (snd q) @ [LF]) qs)) = map (marshal_entry \<circ> snd) qs"
    by (induction qs) (simp_all add: text_lines.simps [of "[]"] text_lines_line marshal_entry_line)
  ultimately show ?thesis using r by simp
qed

theorem audit_log_lines_witness:
  "text_lines (aSink (snd (run_calls log_op [(\<lambda>l. (length l, None), sample_entry), (\<lambda>l. (length l, None), zero_entry)] NewAuditorWriter))) =
     [marshal_entry sample_entry, marshal_entry zero_entry]"
  using audit_log_lines [of "[(\<lambda>l. (length l, None), sample_entry), (\<lambda>l. (length l, None), zero_entry)]"] by simp

end
