(* ===== verification/Go_Float.thy ===== *)
theory Go_Float
  imports Complex_Main "HOL-Library.Log_Nat" Prelude
begin

text \<open>
  Go's \<^verbatim>\<open>float64\<close>.  A finite value is the rational number it stands for and an operation is the
  exact operation followed by \<open>fl\<close>, rounding to nearest with ties to even, 53 bits of precision
  and gradual underflow.  The exponent is not bounded above: the rate limiter only compares an
  overflowing intermediate value with a finite bound, which gives the same answer for the
  rational number as for infinity.
\<close>

subsection \<open>Rounding\<close>

definition round_even :: "rat \<Rightarrow> int" where
  "round_even q =
     (let f = \<lfloor>q\<rfloor>; d = q - of_int f in
      if d < 1/2 then f else if d > 1/2 then f + 1 else if even f then f else f + 1)"

definition ilog2 :: "rat \<Rightarrow> int" where
  "ilog2 x =
     (case quotient_of x of (p, q) \<Rightarrow>
        (let e = bitlen p - bitlen q in if x < 2 powi e then e - 1 else e))"

definition ulp_exp :: "rat \<Rightarrow> int" where
  "ulp_exp x = max (ilog2 \<bar>x\<bar> - 52) (- 1074)"

definition fl :: "rat \<Rightarrow> rat" where
  "fl x = (if x = 0 then 0 else of_int (round_even (x / 2 powi ulp_exp x)) * 2 powi ulp_exp x)"

subsection \<open>Rounding to an integer\<close>

lemma round_even_error: "\<bar>of_int (round_even q) - q\<bar> \<le> 1 / 2"
proof -
  have "of_int \<lfloor>q\<rfloor> \<le> q" "q < of_int \<lfloor>q\<rfloor> + 1" by linarith+
  then show ?thesis by (auto simp: round_even_def Let_def abs_le_iff)
qed

lemma round_even_int [simp]: "round_even (of_int n) = n"
  by (simp add: round_even_def)

lemma round_even_mono: "x \<le> y \<Longrightarrow> round_even x \<le> round_even y"
proof -
  assume le: "x \<le> y"
  have b: "of_int \<lfloor>x\<rfloor> \<le> x" "x < of_int \<lfloor>x\<rfloor> + 1" "of_int \<lfloor>y\<rfloor> \<le> y" by linarith+
  show ?thesis
  proof (cases "\<lfloor>x\<rfloor> = \<lfloor>y\<rfloor>")
    case True
    with le show ?thesis by (auto simp: round_even_def Let_def)
  next
    case False
    with le have "\<lfloor>x\<rfloor> + 1 \<le> \<lfloor>y\<rfloor>" using floor_mono [OF le] by linarith
    moreover have "round_even x \<le> \<lfloor>x\<rfloor> + 1" "\<lfloor>y\<rfloor> \<le> round_even y" by (auto simp: round_even_def Let_def)
    ultimately show ?thesis by linarith
  qed
qed

lemma round_even_minus: "round_even (- q) = - round_even q"
proof (cases "of_int \<lfloor>q\<rfloor> = q")
  case True
  then show ?thesis by (metis of_int_minus round_even_int)
next
  case False
  then have e: "\<lfloor>- q\<rfloor> = - \<lfloor>q\<rfloor> - 1" by linarith
  then have p: "even \<lfloor>- q\<rfloor> \<longleftrightarrow> odd \<lfloor>q\<rfloor>" by simp
  show ?thesis unfolding round_even_def Let_def p unfolding e by (auto simp: field_simps)
qed

subsection \<open>Binades\<close>

lemma powi_split: "(2::rat) powi (a + b) = 2 powi a * 2 powi b"
  by (simp add: power_int_add)

lemma powi_pos [simp]: "0 < (2::rat) powi a"
  by simp

lemma powi_mono: "a \<le> b \<Longrightarrow> (2::rat) powi a \<le> 2 powi b"
  by (simp add: power_int_increasing)

lemma bitlen_bounds_rat: "0 < p \<Longrightarrow> 2 powi (bitlen p - 1) \<le> (of_int p :: rat) \<and> of_int p < (2 :: rat) powi bitlen p"
proof -
  assume p: "0 < p"
  have b: "2 ^ nat (bitlen p - 1) \<le> p \<and> p < 2 ^ nat (bitlen p)" using bitlen_bounds [OF p] .
  have n: "0 \<le> bitlen p - 1" "0 \<le> bitlen p" using p bitlen_nonneg [of p] by (simp_all add: bitlen_def floorlog_def)
  have c: "(2 :: rat) powi a = of_int (2 ^ nat a)" if "0 \<le> a" for a using that by (simp add: power_int_def)
  show ?thesis unfolding c [OF n(1)] c [OF n(2)] of_int_le_iff of_int_less_iff by (rule b)
qed

lemma ilog2_bounds:
  assumes "0 < x"
  shows "2 powi ilog2 x \<le> x" "x < 2 powi (ilog2 x + 1)"
proof -
  obtain p q where pq: "quotient_of x = (p, q)" by fastforce
  have x: "x = of_int p / of_int q" and q: "0 < q" using quotient_of_div [OF pq] quotient_of_denom_pos [OF pq] by auto
  have p: "0 < p" using assms x q by (simp add: zero_less_divide_iff)
  let ?e = "bitlen p - bitlen q"
  note bp = bitlen_bounds_rat [OF p] note bq = bitlen_bounds_rat [OF q]
  have q0: "(0 :: rat) < of_int q" using q by simp
  have up: "x < 2 powi (?e + 1)"
  proof -
    have "(2 :: rat) powi bitlen p = 2 powi (?e + 1) * 2 powi (bitlen q - 1)" by (simp add: powi_split [symmetric])
    also have "\<dots> \<le> 2 powi (?e + 1) * of_int q" using bq by (intro mult_left_mono) simp_all
    finally have "of_int p < 2 powi (?e + 1) * (of_int q :: rat)" using bp by linarith
    then show ?thesis using q0 by (simp add: x field_simps)
  qed
  have lo: "2 powi (?e - 1) \<le> x"
  proof -
    have "2 powi (?e - 1) * of_int q \<le> 2 powi (?e - 1) * (2 :: rat) powi bitlen q" using bq by (intro mult_left_mono) simp_all
    also have "\<dots> = 2 powi (bitlen p - 1)" by (simp add: powi_split [symmetric])
    finally have "2 powi (?e - 1) * of_int q \<le> (of_int p :: rat)" using bp by linarith
    then show ?thesis using q0 by (simp add: x field_simps)
  qed
  show "2 powi ilog2 x \<le> x" "x < 2 powi (ilog2 x + 1)"
    using up lo by (auto simp: ilog2_def pq Let_def)
qed

lemma ilog2_mono: "0 < x \<Longrightarrow> x \<le> y \<Longrightarrow> ilog2 x \<le> ilog2 y"
proof (rule ccontr)
  assume a: "0 < x" "x \<le> y" "\<not> ilog2 x \<le> ilog2 y"
  then have "(2 :: rat) powi (ilog2 y + 1) \<le> 2 powi ilog2 x" by (intro powi_mono) simp
  with ilog2_bounds [of x] ilog2_bounds [of y] a show False by linarith
qed

subsection \<open>The laws of rounding\<close>

lemma ulp_exp_minus [simp]: "ulp_exp (- x) = ulp_exp x"
  by (simp add: ulp_exp_def)

lemma fl_0 [simp]: "fl 0 = 0"
  by (simp add: fl_def)

lemma fl_minus: "fl (- x) = - fl x"
  by (simp add: fl_def round_even_minus)

lemma fl_eq: "fl x = of_int (round_even (x / 2 powi ulp_exp x)) * 2 powi ulp_exp x"
  using round_even_int [of 0] by (auto simp: fl_def)

text \<open>A multiple of the unit in the last place that lies below or above stays there.\<close>

lemma fl_le_grid: "x \<le> of_int n * 2 powi ulp_exp x \<Longrightarrow> fl x \<le> of_int n * 2 powi ulp_exp x"
  using round_even_mono [of "x / 2 powi ulp_exp x" "of_int n"]
  by (simp add: fl_eq pos_divide_le_eq)

lemma fl_ge_grid: "of_int n * 2 powi ulp_exp x \<le> x \<Longrightarrow> of_int n * 2 powi ulp_exp x \<le> fl x"
  using round_even_mono [of "of_int n" "x / 2 powi ulp_exp x"]
  by (simp add: fl_eq pos_le_divide_eq)

lemma fl_grid: "x = of_int n * 2 powi ulp_exp x \<Longrightarrow> fl x = x"
  using fl_le_grid [of x n] fl_ge_grid [of n x] by simp

lemma powi_grid: "k \<le> a \<Longrightarrow> \<exists>n :: int. (2 :: rat) powi a = of_int n * 2 powi k"
proof (intro exI)
  assume "k \<le> a"
  then have "(2 :: rat) powi (a - k) = of_int (2 ^ nat (a - k))" by (simp add: power_int_def)
  then show "(2 :: rat) powi a = of_int (2 ^ nat (a - k)) * 2 powi k"
    using powi_split [of "a - k" k] by simp
qed

lemma fl_mono_pos:
  assumes "0 < x" "x \<le> y"
  shows "fl x \<le> fl y"
proof (cases "ulp_exp x = ulp_exp y")
  case True
  have "round_even (x / 2 powi ulp_exp y) \<le> round_even (y / 2 powi ulp_exp y)"
    using assms(2) by (intro round_even_mono divide_right_mono) simp_all
  then show ?thesis unfolding fl_eq True by (intro mult_right_mono) simp_all
next
  case False
  with ilog2_mono [OF assms] assms have lt: "ilog2 x < ilog2 y" and k: "ulp_exp y \<le> ilog2 y"
    and kx: "ulp_exp x \<le> ilog2 y" by (auto simp: ulp_exp_def split: if_splits)
  have "x < 2 powi (ilog2 x + 1)" using ilog2_bounds(2) assms(1) by blast
  also have "\<dots> \<le> 2 powi ilog2 y" using lt by (intro powi_mono) simp
  finally have "x \<le> 2 powi ilog2 y" by simp
  then have "fl x \<le> 2 powi ilog2 y" using powi_grid [OF kx] fl_le_grid [of x] by metis
  also have "2 powi ilog2 y \<le> fl y" using powi_grid [OF k] fl_ge_grid [of _ y] ilog2_bounds(1) [of y] assms by (metis order_less_le_trans)
  finally show ?thesis .
qed

lemma fl_nonneg: "0 \<le> x \<Longrightarrow> 0 \<le> fl x"
  using fl_ge_grid [of 0 x] by simp

lemma fl_mono: "x \<le> y \<Longrightarrow> fl x \<le> fl y"
proof -
  assume le: "x \<le> y"
  consider "0 < x" | "x \<le> 0" "0 \<le> y" | "y < 0" by linarith
  then show ?thesis
  proof cases
    case 1
    then show ?thesis using le by (rule fl_mono_pos)
  next
    case 2
    then have "fl x \<le> 0" "0 \<le> fl y" using fl_nonneg [of "- x"] fl_nonneg [of y] by (simp_all add: fl_minus)
    then show ?thesis by simp
  next
    case 3
    then have "fl (- y) \<le> fl (- x)" using le by (intro fl_mono_pos) simp_all
    then show ?thesis by (simp add: fl_minus)
  qed
qed

text \<open>Half of the smallest positive number.\<close>

definition tiny :: rat where "tiny = 2 powi (- 1075)"

lemma tiny_pos: "0 < tiny"
  unfolding tiny_def by (rule powi_pos)

lemma fl_error: "\<bar>fl x - x\<bar> \<le> \<bar>x\<bar> / 2 ^ 53 + tiny"
proof (cases "x = 0")
  case False
  let ?u = "(2 :: rat) powi ulp_exp x"
  have "fl x - x = (of_int (round_even (x / ?u)) - x / ?u) * ?u" by (simp add: fl_eq left_diff_distrib)
  then have "\<bar>fl x - x\<bar> = \<bar>of_int (round_even (x / ?u)) - x / ?u\<bar> * ?u" by (simp add: abs_mult)
  also have "\<dots> \<le> 1 / 2 * ?u" using round_even_error [of "x / ?u"] by (intro mult_right_mono) simp_all
  finally have e: "\<bar>fl x - x\<bar> \<le> ?u / 2" by simp
  show ?thesis
  proof (cases "ulp_exp x = - 1074")
    case True
    have "(2 :: rat) powi (- 1075 + 1) = 2 powi (- 1075) * 2" unfolding powi_split by simp
    then have "2 powi (- 1074) = tiny * 2" unfolding tiny_def by simp
    moreover have "0 \<le> \<bar>x\<bar> / 2 ^ 53" by simp
    ultimately show ?thesis using e [unfolded True] by linarith
  next
    case False
    then have "?u = 2 powi ilog2 \<bar>x\<bar> / 2 ^ 52" by (simp add: ulp_exp_def power_int_diff split: if_splits)
    also have "\<dots> \<le> \<bar>x\<bar> / 2 ^ 52" using ilog2_bounds(1) [of "\<bar>x\<bar>"] \<open>x \<noteq> 0\<close> by (intro divide_right_mono) simp_all
    finally have "?u / 2 \<le> \<bar>x\<bar> / 2 ^ 53" by simp
    then show ?thesis using e tiny_pos by linarith
  qed
qed (simp add: tiny_pos less_imp_le)

text \<open>The numbers with at most 53 bits on the grid of \<open>2\<^sup>k\<close> are exact.\<close>

lemma fl_exact:
  assumes "x = of_int n * 2 powi k" "\<bar>n\<bar> \<le> 2 ^ 53" "- 1074 \<le> k"
  shows "fl x = x"
proof (cases "n = 0")
  case False
  show ?thesis
  proof (cases "ulp_exp x \<le> k")
    case True
    then obtain m :: int where "(2 :: rat) powi k = of_int m * 2 powi ulp_exp x" using powi_grid by blast
    then have "x = of_int (n * m) * 2 powi ulp_exp x" using assms(1) by simp
    then show ?thesis by (rule fl_grid)
  next
    case False
    then have u: "ulp_exp x = ilog2 \<bar>x\<bar> - 52" "k + 53 \<le> ilog2 \<bar>x\<bar>" using assms(3) by (auto simp: ulp_exp_def split: if_splits)
    have "0 < \<bar>x\<bar>" using assms(1) \<open>n \<noteq> 0\<close> by simp
    have "(2 :: rat) powi (k + 53) \<le> 2 powi ilog2 \<bar>x\<bar>" using u(2) by (rule powi_mono)
    also have "\<dots> \<le> \<bar>x\<bar>" using ilog2_bounds(1) \<open>0 < \<bar>x\<bar>\<close> by blast
    finally have "2 powi (k + 53) \<le> \<bar>x\<bar>" .
    moreover have "\<bar>x\<bar> = of_int \<bar>n\<bar> * 2 powi k" using assms(1) by (simp add: abs_mult)
    moreover have "of_int \<bar>n\<bar> * (2 :: rat) powi k \<le> of_int (2 ^ 53) * 2 powi k"
      using assms(2) by (intro mult_right_mono) (simp_all only: of_int_le_iff, simp)
    moreover have "of_int (2 ^ 53) * (2 :: rat) powi k = 2 powi (k + 53)" by (simp add: powi_split)
    ultimately have "\<bar>x\<bar> = 2 powi (k + 53)" by linarith
    then obtain s :: int where s: "x = of_int s * 2 powi (k + 53)" by (cases "x < 0") (force intro: that [of "- 1"], force intro: that [of 1])
    have "ulp_exp x \<le> k + 53"
    proof -
      have "\<not> k + 53 + 1 \<le> ilog2 \<bar>x\<bar>"
      proof
        assume "k + 53 + 1 \<le> ilog2 \<bar>x\<bar>"
        then have "(2::rat) powi (k + 53 + 1) \<le> 2 powi ilog2 \<bar>x\<bar>" by (rule powi_mono)
        also have "\<dots> \<le> \<bar>x\<bar>" using ilog2_bounds(1) \<open>0 < \<bar>x\<bar>\<close> by blast
        finally show False using \<open>\<bar>x\<bar> = 2 powi (k + 53)\<close> by (simp add: powi_split)
      qed
      then show ?thesis using u(1) by simp
    qed
    then obtain m :: int where "(2 :: rat) powi (k + 53) = of_int m * 2 powi ulp_exp x" using powi_grid by blast
    then have "x = of_int (s * m) * 2 powi ulp_exp x" using s by simp
    then show ?thesis by (rule fl_grid)
  qed
qed (use assms in simp)

lemma fl_of_int: "\<bar>n\<bar> \<le> 2 ^ 53 \<Longrightarrow> fl (of_int n) = of_int n"
  by (rule fl_exact [of _ n 0]) simp_all

lemma ulp_exp_bound: "\<bar>x\<bar> < 2 ^ 53 * 2 powi ulp_exp x"
proof (cases "x = 0")
  case False
  then have "\<bar>x\<bar> < 2 powi (ilog2 \<bar>x\<bar> + 1)" using ilog2_bounds(2) [of "\<bar>x\<bar>"] by simp
  also have "\<dots> \<le> 2 powi (53 + ulp_exp x)" by (intro powi_mono) (simp add: ulp_exp_def)
  finally show ?thesis by (simp add: powi_split)
qed simp

lemma fl_repr:
  obtains m :: int where "fl x = of_int m * 2 powi ulp_exp x" "\<bar>m\<bar> \<le> 2 ^ 53"
proof -
  let ?q = "x / 2 powi ulp_exp x"
  have "\<bar>?q\<bar> < 2 ^ 53" using ulp_exp_bound [of x] by (simp add: abs_div pos_divide_less_eq)
  then have "?q < 2 ^ 53" "- (2 ^ 53) < ?q" unfolding abs_less_iff by linarith+
  then have "?q \<le> of_int (2 ^ 53)" "of_int (- (2 ^ 53)) \<le> ?q" by simp_all
  then have "round_even ?q \<le> 2 ^ 53" "- (2 ^ 53) \<le> round_even ?q" by (metis round_even_int round_even_mono)+
  then show ?thesis by (intro that [of "round_even ?q"]) (simp_all add: fl_eq abs_le_iff)
qed

lemma fl_idem [simp]: "fl (fl x) = fl x"
  by (rule fl_repr [of x]) (erule fl_exact, auto simp: ulp_exp_def)

text \<open>Taking a token away is exact up to \<open>2\<^sup>5\<^sup>3\<close>.\<close>

lemma fl_minus_one:
  assumes "fl x = x" "1 \<le> x" "x \<le> 2 ^ 53"
  shows "fl (x - 1) = x - 1"
proof (cases "ulp_exp x \<le> 0")
  case True
  obtain m where m: "x = of_int m * 2 powi ulp_exp x" "\<bar>m\<bar> \<le> 2 ^ 53" using fl_repr [of x] assms(1) by metis
  obtain n :: int where n: "(2 :: rat) powi 0 = of_int n * 2 powi ulp_exp x" using powi_grid [OF True] by blast
  have x: "x - 1 = of_int (m - n) * 2 powi ulp_exp x" using m(1) n by (simp add: left_diff_distrib)
  have "0 \<le> of_int (m - n) * (2 :: rat) powi ulp_exp x" using x assms(2) by simp
  then have "0 \<le> m - n" using powi_pos [of "ulp_exp x"] by (auto simp: zero_le_mult_iff simp del: powi_pos)
  moreover have "0 < of_int n * (2 :: rat) powi ulp_exp x" using n by simp
  then have "0 < n" using powi_pos [of "ulp_exp x"] by (auto simp: zero_less_mult_iff simp del: powi_pos)
  ultimately have "\<bar>m - n\<bar> \<le> 2 ^ 53" using m(2) by linarith
  then show ?thesis using x by (intro fl_exact [of _ "m - n" "ulp_exp x"]) (simp_all add: ulp_exp_def)
next
  case False
  then have "53 \<le> ilog2 x" using assms(2) by (simp add: ulp_exp_def split: if_splits)
  then have "(2::rat) powi 53 \<le> 2 powi ilog2 x" by (rule powi_mono)
  also have "\<dots> \<le> x" using ilog2_bounds(1) [of x] assms(2) by simp
  finally have "x = of_int (2 ^ 53)" using assms(3) by simp
  then have "x - 1 = of_int (2 ^ 53 - 1)" by simp
  then show ?thesis using fl_of_int [of "2 ^ 53 - 1"] by simp
qed

end
