(* ===== verification/Ratelimit.thy ===== *)
theory Ratelimit
  imports Go_Float Go_Decode Calls
begin

text \<open>
  \<^verbatim>\<open>gateway/ratelimit.go\<close>: the token bucket and the per-session limiter.  Times and durations are
  nanoseconds; a call takes the clock readings it makes as arguments, in the order it makes them.
  Both operations run under the receiver's mutex, so concurrent calls are a sequence of calls.
\<close>

subsection \<open>Durations\<close>

text \<open>
  What the Go specification leaves to the platform: whether a product and a sum are fused into one
  rounding, and the conversion to \<^verbatim>\<open>int64\<close> of a value outside its range.
\<close>

record go_arch =
  fused :: bool
  conv :: "rat \<Rightarrow> int"

definition mul_add :: "go_arch \<Rightarrow> rat \<Rightarrow> rat \<Rightarrow> rat \<Rightarrow> rat" where
  "mul_add a x y z = (if fused a then fl (z + x * y) else fl (z + fl (x * y)))"

definition trunc :: "rat \<Rightarrow> int" where
  "trunc x = (if 0 \<le> x then \<lfloor>x\<rfloor> else \<lceil>x\<rceil>)"

definition to_int64 :: "go_arch \<Rightarrow> rat \<Rightarrow> int" where
  "to_int64 a x = (if - (2 ^ 63) \<le> trunc x \<and> trunc x < 2 ^ 63 then trunc x else conv a x)"

text \<open>\<^verbatim>\<open>Time.Sub\<close> saturates; \<^verbatim>\<open>Duration.Seconds\<close> adds whole seconds and the fraction.\<close>

definition Sub :: "int \<Rightarrow> int \<Rightarrow> int" where
  "Sub t u = max (- (2 ^ 63)) (min (2 ^ 63 - 1) (t - u))"

definition Seconds :: "int \<Rightarrow> rat" where
  "Seconds d =
     (let q = (if 0 \<le> d then d div 10 ^ 9 else - ((- d) div 10 ^ 9)); r = d - q * 10 ^ 9
      in fl (fl (of_int q) + fl (fl (of_int r) / 10 ^ 9)))"

subsection \<open>The token bucket\<close>

record tokenBucket =
  tbRps :: rat
  tbBurst :: rat
  tokens :: rat
  tbLast :: int

definition newTokenBucket :: "rat \<Rightarrow> int \<Rightarrow> int \<Rightarrow> tokenBucket" where
  "newTokenBucket rps burst t =
     \<lparr>tbRps = rps, tbBurst = fl (of_int burst), tokens = fl (of_int burst), tbLast = t\<rparr>"

definition bucket_allow :: "go_arch \<Rightarrow> int \<Rightarrow> tokenBucket \<Rightarrow> (bool \<times> int) \<times> tokenBucket" where
  "bucket_allow a t b =
     (let elapsed = Seconds (Sub t (tbLast b));
          b1 = (if elapsed > 0
                then b\<lparr>tokens := min (tbBurst b) (mul_add a elapsed (tbRps b) (tokens b)), tbLast := t\<rparr> else b)
      in if tokens b1 \<ge> 1 then ((True, 0), b1\<lparr>tokens := fl (tokens b1 - 1)\<rparr>)
         else (let need = fl (fl (1 - tokens b1) / tbRps b1) in ((False, to_int64 a (fl (need * 10 ^ 9))), b1)))"

subsection \<open>The per-session limiter\<close>

definition maxSessionBuckets :: int where "maxSessionBuckets = 4096"

record sessionLimiter =
  slRps :: rat
  slBurst :: int
  slMax :: int
  buckets :: "(bytes \<times> tokenBucket) list"
  lastSeen :: "(bytes \<times> int) list"

definition newSessionLimiter :: "rat \<Rightarrow> int \<Rightarrow> int \<Rightarrow> sessionLimiter" where
  "newSessionLimiter rps burst mx =
     \<lparr>slRps = rps, slBurst = burst, slMax = (if mx < 1 then maxSessionBuckets else mx), buckets = [], lastSeen = []\<rparr>"

text \<open>The search for the least recently seen session, in the order the map's iteration takes.\<close>

fun older :: "(bytes \<times> int) option \<Rightarrow> bytes \<times> int \<Rightarrow> (bytes \<times> int) option" where
  "older None (s, seen) = Some (s, seen)"
| "older (Some (s0, t0)) (s, seen) = (if seen < t0 then Some (s, seen) else Some (s0, t0))"

definition oldest :: "(bytes list \<Rightarrow> bytes list) \<Rightarrow> (bytes \<times> int) list \<Rightarrow> bytes" where
  "oldest ord m =
     (case foldl older None (map (\<lambda>s. (s, case map_of m s of Some t \<Rightarrow> t | None \<Rightarrow> 0)) (ord (map fst m))) of
        None \<Rightarrow> [] | Some (s, _) \<Rightarrow> s)"

definition map_delete :: "bytes \<Rightarrow> (bytes \<times> 'a) list \<Rightarrow> (bytes \<times> 'a) list" where
  "map_delete k m = filter (\<lambda>(k', _). k' \<noteq> k) m"

text \<open>The clock is read up to three times: for a new bucket, for \<^verbatim>\<open>lastSeen\<close>, and by the bucket.\<close>

record clock =
  created :: int
  seen :: int
  taken :: int

definition evict_oldest :: "go_rt \<Rightarrow> sessionLimiter \<Rightarrow> sessionLimiter" where
  "evict_oldest rt l =
     (let s = oldest (map_order rt) (lastSeen l)
      in l\<lparr>buckets := map_delete s (buckets l), lastSeen := map_delete s (lastSeen l)\<rparr>)"

definition session_bucket :: "go_rt \<Rightarrow> int \<Rightarrow> bytes \<Rightarrow> sessionLimiter \<Rightarrow> tokenBucket \<times> sessionLimiter" where
  "session_bucket rt t session l =
     (case map_of (buckets l) session of
        Some b \<Rightarrow> (b, l)
      | None \<Rightarrow>
          (let l0 = (if int (length (buckets l)) \<ge> slMax l then evict_oldest rt l else l);
               b = newTokenBucket (slRps l) (slBurst l) t
           in (b, l0\<lparr>buckets := map_set session b (buckets l0)\<rparr>)))"

text \<open>The bucket is a pointer into the table, so the call's update is visible there.\<close>

definition session_allow ::
  "go_arch \<Rightarrow> go_rt \<Rightarrow> clock \<Rightarrow> bytes \<Rightarrow> sessionLimiter \<Rightarrow> (bool \<times> int) \<times> sessionLimiter" where
  "session_allow a rt c session l =
     (let (b, l1) = session_bucket rt (created c) session l;
          l2 = l1\<lparr>lastSeen := map_set session (seen c) (lastSeen l1)\<rparr>;
          (r, b') = bucket_allow a (taken c) b
      in (r, l2\<lparr>buckets := map_set session b' (buckets l2)\<rparr>))"

subsection \<open>The balance\<close>

definition bucket_ok :: "tokenBucket \<Rightarrow> bool" where
  "bucket_ok b \<longleftrightarrow> 0 < tbRps b \<and> 1 \<le> tbBurst b \<and> fl (tbBurst b) = tbBurst b \<and>
     fl (tokens b) = tokens b \<and> 0 \<le> tokens b \<and> tokens b \<le> tbBurst b"

lemma fl_1 [simp]: "fl 1 = 1"
  using fl_of_int [of 1] by simp

lemma newTokenBucket_ok: "0 < rps \<Longrightarrow> 1 \<le> burst \<Longrightarrow> bucket_ok (newTokenBucket rps burst t)"
  using fl_mono [of 1 "of_int burst"] by (simp add: bucket_ok_def newTokenBucket_def)

lemma fl_min: "fl x = x \<Longrightarrow> fl y = y \<Longrightarrow> fl (min x y) = min x y"
  by (simp add: min_def)

lemma fl_mul_add [simp]: "fl (mul_add a x y z) = mul_add a x y z"
  by (simp add: mul_add_def)

lemma mul_add_ge: "0 \<le> x \<Longrightarrow> 0 \<le> y \<Longrightarrow> fl z = z \<Longrightarrow> z \<le> mul_add a x y z"
proof -
  assume a: "0 \<le> x" "0 \<le> y" "fl z = z"
  then have "z \<le> z + fl (x * y)" "z \<le> z + x * y" using fl_nonneg [of "x * y"] by simp_all
  then have "fl z \<le> fl (z + fl (x * y))" "fl z \<le> fl (z + x * y)" by (simp_all only: fl_mono)
  with a(3) show ?thesis by (simp add: mul_add_def)
qed

text \<open>The bucket after the refill and before the token is taken.\<close>

definition refilled :: "go_arch \<Rightarrow> int \<Rightarrow> tokenBucket \<Rightarrow> tokenBucket" where
  "refilled a t b =
     (let elapsed = Seconds (Sub t (tbLast b)) in
      if elapsed > 0
      then b\<lparr>tokens := min (tbBurst b) (mul_add a elapsed (tbRps b) (tokens b)), tbLast := t\<rparr> else b)"

lemma bucket_allow_refilled:
  "bucket_allow a t b =
     (let b1 = refilled a t b in
      if tokens b1 \<ge> 1 then ((True, 0), b1\<lparr>tokens := fl (tokens b1 - 1)\<rparr>)
      else (let need = fl (fl (1 - tokens b1) / tbRps b1) in ((False, to_int64 a (fl (need * 10 ^ 9))), b1)))"
  by (simp add: bucket_allow_def refilled_def Let_def)

lemma refilled_ok: "bucket_ok b \<Longrightarrow> bucket_ok (refilled a t b)"
  using mul_add_ge [of "Seconds (Sub t (tbLast b))" "tbRps b" "tokens b" a]
  by (auto simp: bucket_ok_def refilled_def Let_def fl_min)

lemma refilled_ge: "bucket_ok b \<Longrightarrow> tokens b \<le> tokens (refilled a t b)"
  using mul_add_ge [of "Seconds (Sub t (tbLast b))" "tbRps b" "tokens b" a]
  by (auto simp: bucket_ok_def refilled_def Let_def)

lemma refilled_sel [simp]: "tbBurst (refilled a t b) = tbBurst b" "tbRps (refilled a t b) = tbRps b"
  by (simp_all add: refilled_def Let_def)

lemma bucket_allow_ok: "bucket_ok b \<Longrightarrow> bucket_allow a t b = (r, b') \<Longrightarrow> bucket_ok b'"
proof -
  assume "bucket_ok b" and r: "bucket_allow a t b = (r, b')"
  then have o: "bucket_ok (refilled a t b)" by (simp add: refilled_ok)
  then have "fl (tokens (refilled a t b) - 1) \<le> fl (tokens (refilled a t b))" by (intro fl_mono) simp
  with o r show ?thesis
    using fl_nonneg [of "tokens (refilled a t b) - 1"]
    by (auto simp: bucket_allow_refilled Let_def bucket_ok_def split: if_splits)
qed

subsection \<open>Elapsed time\<close>

lemma tiny_small: "tiny \<le> 1 / 2 ^ 200"
proof -
  have "tiny \<le> 2 powi (- 200)" unfolding tiny_def by (rule powi_mono) simp
  also have "(2 :: rat) powi (- 200) = 1 / 2 ^ 200" by (simp only: power_int_minus power_int_numeral divide_inverse mult_1)
  finally show ?thesis .
qed

lemma fl_near: "0 \<le> x \<Longrightarrow> fl x \<le> x + x / 2 ^ 53 + tiny \<and> x - x / 2 ^ 53 - tiny \<le> fl x"
  using fl_error [of x] by (simp add: abs_le_iff algebra_simps)

lemma two_roundings:
  fixes x q X S t :: rat
  assumes "X \<le> x + x / 2 ^ 53 + t \<and> x - x / 2 ^ 53 - t \<le> X" "0 \<le> x" "0 \<le> q" "t \<le> (q + x) / 2 ^ 60" "0 < t"
    and "S \<le> (q + X) + (q + X) / 2 ^ 53 + t \<and> (q + X) - (q + X) / 2 ^ 53 - t \<le> S"
  shows "\<bar>S - (q + x)\<bar> \<le> (q + x) / 2 ^ 51"
  unfolding abs_le_iff using assms by (auto simp: field_simps)

lemma Seconds_near:
  assumes "0 < d" "d < 2 ^ 63"
  shows "\<bar>Seconds d - of_int d / 10 ^ 9\<bar> \<le> of_int d / 10 ^ 9 / 2 ^ 51"
proof -
  define q r where "q = d div 10 ^ 9" and "r = d mod 10 ^ 9"
  let ?D = "of_int d / 10 ^ 9 :: rat" and ?x = "of_int r / 10 ^ 9 :: rat"
  have r: "0 \<le> r" "r < 10 ^ 9" by (simp_all add: r_def)
  have q: "0 \<le> q" "q \<le> 2 ^ 53" using assms by (simp_all add: q_def pos_imp_zdiv_nonneg_iff)
  have dqr: "d = q * 10 ^ 9 + r" unfolding q_def r_def by presburger
  have D: "?D = of_int q + ?x" unfolding dqr by (simp add: field_simps)
  have s: "Seconds d = fl (of_int q + fl ?x)"
  proof -
    have e: "d - q * 10 ^ 9 = r" using dqr by linarith
    have f: "fl (of_int q) = of_int q" "fl (of_int r) = of_int r" using q r by (simp_all add: fl_of_int)
    have "(if 0 \<le> d then d div 10 ^ 9 else - ((- d) div 10 ^ 9)) = q" using assms(1) by (simp add: q_def)
    then show ?thesis unfolding Seconds_def Let_def by (simp only: e f)
  qed
  have x0: "0 \<le> ?x" "0 \<le> (of_int q :: rat)" using r q by simp_all
  have "1 \<le> (of_int d :: rat)" using assms(1) by (metis of_int_1_le_iff int_one_le_iff_zero_less)
  then have d1: "1 / 10 ^ 9 \<le> ?D" by (intro divide_right_mono) simp_all
  have t: "tiny \<le> ?D / 2 ^ 60" using tiny_small d1 by simp
  note a = fl_near [OF x0(1)]
  have y0: "0 \<le> of_int q + fl ?x" using x0 fl_nonneg [of ?x] by simp
  note b = fl_near [OF y0]
  show ?thesis unfolding s D by (rule two_roundings [OF a x0 t [unfolded D] tiny_pos b])
qed

lemma Seconds_ge: "0 < d \<Longrightarrow> d < 2 ^ 63 \<Longrightarrow> of_int d / 10 ^ 9 * (1 - 1 / 2 ^ 51) \<le> Seconds d"
proof -
  assume "0 < d" "d < 2 ^ 63"
  from Seconds_near [OF this] show ?thesis
    by (simp only: abs_le_iff right_diff_distrib mult_1_right divide_inverse) linarith
qed

lemma Seconds_gt0: "0 < d \<Longrightarrow> d < 2 ^ 63 \<Longrightarrow> 0 < Seconds d"
  using Seconds_ge [of d] by (simp add: order_less_le_trans [rotated])

lemma Sub_le: "0 < Sub t u \<Longrightarrow> Sub t u \<le> t - u \<and> Sub t u < 2 ^ 63"
  by (auto simp: Sub_def)

lemma Seconds_pos: "0 < Seconds d \<Longrightarrow> 0 < d"
proof (rule ccontr)
  assume s: "0 < Seconds d" "\<not> 0 < d"
  define q r where "q = - ((- d) div 10 ^ 9)" and "r = d - q * 10 ^ 9"
  have q: "(if 0 \<le> d then d div 10 ^ 9 else - ((- d) div 10 ^ 9)) = q" using s(2) by (auto simp: q_def)
  have "q \<le> 0" using s(2) by (simp add: q_def pos_imp_zdiv_nonneg_iff)
  moreover have "r = - ((- d) mod 10 ^ 9)" unfolding r_def q_def using div_mult_mod_eq [of "- d" "10 ^ 9"] by linarith
  then have "r \<le> 0" by simp
  ultimately have "fl (of_int q) \<le> fl 0" "fl (of_int r) \<le> fl 0" by (simp_all only: fl_mono of_int_le_0_iff)
  then have "fl (of_int q) \<le> 0" "fl (of_int r) / 10 ^ 9 \<le> 0" by (simp_all add: divide_nonpos_pos)
  moreover from this(2) have "fl (fl (of_int r) / 10 ^ 9) \<le> fl 0" by (rule fl_mono)
  ultimately have "fl (of_int q) + fl (fl (of_int r) / 10 ^ 9) \<le> 0" by simp
  then have "fl (fl (of_int q) + fl (fl (of_int r) / 10 ^ 9)) \<le> fl 0" by (rule fl_mono)
  moreover have "Seconds d = fl (fl (of_int q) + fl (fl (of_int r) / 10 ^ 9))" unfolding Seconds_def Let_def q r_def ..
  ultimately show False using s(1) by simp
qed

subsection \<open>The admission bound\<close>

lemma refill_sum:
  fixes b p z :: rat
  assumes "fl b = b" "1 \<le> b" "0 \<le> y" "y \<le> z + p + p / 2 ^ 53 + tiny"
  shows "min b (fl y) \<le> z + p + p / 2 ^ 53 + b / 2 ^ 51"
proof -
  have t: "tiny \<le> b / 2 ^ 200" using tiny_small assms(2) by (simp add: divide_right_mono)
  show ?thesis
  proof (cases "fl y \<le> b")
    case True
    with fl_near [OF assms(3)] assms t tiny_pos show ?thesis by (auto simp: field_simps)
  next
    case False
    then have "b \<le> y" using fl_mono [of y b] assms(1) by (cases "y \<le> b") auto
    with False assms t tiny_pos show ?thesis by (simp add: field_simps)
  qed
qed

lemma refilled_bound:
  assumes "bucket_ok b"
  shows "tbLast b \<le> tbLast (refilled a t b) \<and>
    tokens (refilled a t b) \<le> tokens b + tbRps b * (of_int (tbLast (refilled a t b) - tbLast b) / 10 ^ 9) * (1 + 1 / 2 ^ 50)
       + tbBurst b / 2 ^ 51"
proof (cases "Seconds (Sub t (tbLast b)) > 0")
  case False
  then show ?thesis using assms by (simp add: refilled_def bucket_ok_def)
next
  case True
  let ?d = "Sub t (tbLast b)" let ?e = "Seconds ?d" and ?D = "of_int (t - tbLast b) / 10 ^ 9 :: rat"
  have d: "0 < ?d" "?d \<le> t - tbLast b" "?d < 2 ^ 63" using Seconds_pos [OF True] Sub_le by auto
  have b: "0 < tbRps b" "1 \<le> tbBurst b" "fl (tbBurst b) = tbBurst b" "0 \<le> tokens b" using assms by (auto simp: bucket_ok_def)
  have "of_int ?d / 10 ^ 9 \<le> ?D" using d(2) by (intro divide_right_mono) (simp_all only: of_int_le_iff, simp)
  moreover have "?e \<le> of_int ?d / 10 ^ 9 + of_int ?d / 10 ^ 9 / 2 ^ 51" using Seconds_near [OF d(1,3)] unfolding abs_le_iff by linarith
  ultimately have "?e \<le> ?D + ?D / 2 ^ 51" by simp
  then have e: "?e \<le> ?D * (1 + 1 / 2 ^ 51)" by (simp add: distrib_left)
  define p where "p = ?e * tbRps b"
  have p: "0 \<le> p" "p \<le> ?D * (1 + 1 / 2 ^ 51) * tbRps b" using True b e by (simp_all add: p_def mult_right_mono)
  have n: "fl p \<le> p + p / 2 ^ 53 + tiny" "0 \<le> fl p" using fl_near [OF p(1)] fl_nonneg [OF p(1)] by simp_all
  have 1: "min (tbBurst b) (mul_add a ?e (tbRps b) (tokens b)) \<le> tokens b + p + p / 2 ^ 53 + tbBurst b / 2 ^ 51"
  proof -
    obtain y where y: "mul_add a ?e (tbRps b) (tokens b) = fl y" "0 \<le> y" "y \<le> tokens b + p + p / 2 ^ 53 + tiny"
      using n p(1) b(4) tiny_pos by (cases "fused a") (auto simp: mul_add_def p_def [symmetric] intro: that [of "tokens b + p"] that [of "tokens b + fl p"])
    show ?thesis unfolding y(1) by (rule refill_sum [OF b(3,2) y(2,3)])
  qed
  have "p + p / 2 ^ 53 = p * (1 + 1 / 2 ^ 53)" by (simp add: field_simps)
  also have "\<dots> \<le> ?D * (1 + 1 / 2 ^ 51) * tbRps b * (1 + 1 / 2 ^ 53)" using p by (intro mult_right_mono) simp_all
  also have "\<dots> = tbRps b * ?D * ((1 + 1 / 2 ^ 51) * (1 + 1 / 2 ^ 53))" by (simp only: ac_simps)
  also have "\<dots> \<le> tbRps b * ?D * (1 + 1 / 2 ^ 50)"
    using b(1) d by (intro mult_left_mono) (simp_all add: field_simps)
  finally have 2: "p + p / 2 ^ 53 \<le> tbRps b * ?D * (1 + 1 / 2 ^ 50)" .
  have "tokens (refilled a t b) \<le> tokens b + tbRps b * ?D * (1 + 1 / 2 ^ 50) + tbBurst b / 2 ^ 51"
    using 1 2 True by (simp add: refilled_def Let_def)
  then show ?thesis using True d by (simp add: refilled_def Let_def)
qed

text \<open>What accrues in \<open>d\<close> nanoseconds, with the relative error of the arithmetic.\<close>

definition credit :: "rat \<Rightarrow> int \<Rightarrow> rat" where
  "credit rps d = rps * (of_int d / 10 ^ 9) * (1 + 1 / 2 ^ 50)"

lemma credit_add: "credit rps (c - a) = credit rps (c - b) + credit rps (b - a)"
  by (simp add: credit_def algebra_simps diff_divide_distrib)

lemma credit_0 [simp]: "credit rps 0 = 0"
  by (simp add: credit_def)

lemma credit_mono: "0 < rps \<Longrightarrow> c \<le> d \<Longrightarrow> credit rps c \<le> credit rps d"
  unfolding credit_def by (intro mult_right_mono mult_left_mono divide_right_mono) simp_all

lemma bucket_allow_bound:
  assumes "bucket_ok b" "tbBurst b \<le> 2 ^ 53" "bucket_allow a t b = ((ok, w), b')"
  shows "tbLast b \<le> tbLast b' \<and> (tbLast b' \<le> max t (tbLast b)) \<and> tbRps b' = tbRps b \<and> tbBurst b' = tbBurst b \<and>
    (if ok then 1 else 0) + tokens b' \<le>
      tokens b + credit (tbRps b) (tbLast b' - tbLast b) + tbBurst b / 2 ^ 51"
proof -
  let ?r = "refilled a t b"
  have o: "bucket_ok ?r" using assms(1) by (rule refilled_ok)
  have m: "fl (tokens ?r - 1) = tokens ?r - 1" if "1 \<le> tokens ?r"
    using o assms(2) that by (intro fl_minus_one) (auto simp: bucket_ok_def)
  have l: "tbLast ?r \<le> max t (tbLast b)" by (simp add: refilled_def Let_def)
  show ?thesis using refilled_bound [OF assms(1), of a t, folded credit_def] assms(3) m l
    by (auto simp: bucket_allow_refilled Let_def split: if_splits)
qed

definition admitted :: "(bool \<times> int) list \<Rightarrow> nat" where
  "admitted rs = length (filter fst rs)"

interpretation bucket: preserves "bucket_allow a" bucket_ok "\<lambda>_. True" for a
  by unfold_locales (rule bucket_allow_ok)

lemma bucket_calls_bound:
  assumes "bucket_ok b" "tbBurst b \<le> 2 ^ 53" "run_calls (bucket_allow a) ts b = (oks, b')"
  shows "tbLast b' \<le> fold max ts (tbLast b) \<and>
    of_nat (admitted oks) + tokens b' \<le>
      tokens b + credit (tbRps b) (tbLast b' - tbLast b) + of_nat (length ts) * (tbBurst b / 2 ^ 51)"
  using assms
proof (induction ts arbitrary: b oks)
  case Nil
  then show ?case by (simp add: admitted_def)
next
  case (Cons t ts)
  from Cons.prems(3) obtain ok w b1 oks' where s: "bucket_allow a t b = ((ok, w), b1)"
    and r: "run_calls (bucket_allow a) ts b1 = (oks', b')" and oks: "oks = (ok, w) # oks'"
    by (metis run_calls_ConsE surj_pair)
  note st = bucket_allow_bound [OF Cons.prems(1,2) s]
  have "bucket_ok b1" using Cons.prems(1) s by (rule bucket_allow_ok)
  with Cons.IH [OF _ _ r] Cons.prems(2) st
  have ih: "tbLast b' \<le> fold max ts (tbLast b1) \<and>
    of_nat (admitted oks') + tokens b' \<le>
      tokens b1 + credit (tbRps b) (tbLast b' - tbLast b1) + of_nat (length ts) * (tbBurst b / 2 ^ 51)" by simp
  have "fold max ts (tbLast b1) \<le> fold max ts (max t (tbLast b))"
    using st by (induction ts rule: rev_induct) (auto simp: max.coboundedI2)
  moreover have "of_nat (length (t # ts)) * (tbBurst b / 2 ^ 51) = of_nat (length ts) * (tbBurst b / 2 ^ 51) + tbBurst b / 2 ^ 51"
    by (simp add: distrib_right)
  moreover have "(of_nat (admitted oks) :: rat) = (if ok then 1 else 0) + of_nat (admitted oks')"
    by (simp add: oks admitted_def)
  ultimately show ?case using ih st credit_add [of "tbRps b" "tbLast b'" "tbLast b" "tbLast b1"]
    by (simp only: fold_Cons comp_apply) (elim conjE, intro conjI TrueI; linarith)
qed

text \<open>
  C5. The token bucket limits the rate: of \<open>n\<close> requests made until time \<open>t1\<close>, in any order of clock
  readings, at most the burst plus the rate times the elapsed seconds are admitted, up to the
  relative error \<open>2\<^sup>-\<^sup>5\<^sup>0\<close> of the floating-point arithmetic and \<open>n\<close> roundings of the balance.
\<close>

theorem admission_bound:
  assumes "0 < rps" "1 \<le> burst" "burst \<le> 2 ^ 53" "t0 \<le> t1" "\<forall>t \<in> set ts. t \<le> t1"
    and "run_calls (bucket_allow a) ts (newTokenBucket rps burst t0) = (oks, b)"
  shows "of_nat (admitted oks) \<le>
    of_int burst + rps * (of_int (t1 - t0) / 10 ^ 9) * (1 + 1 / 2 ^ 50) + of_nat (length ts) * (of_int burst / 2 ^ 51)"
proof -
  let ?b = "newTokenBucket rps burst t0"
  have f: "fl (of_int burst) = of_int burst" using assms(2,3) by (intro fl_of_int) simp
  have burst: "(of_int burst :: rat) \<le> 2 ^ 53" using assms(3) of_int_le_iff [of burst "2 ^ 53", where 'a = rat] by simp
  note r = bucket_calls_bound [OF newTokenBucket_ok [OF assms(1,2)] _ assms(6), unfolded newTokenBucket_def f, simplified, OF burst [simplified]]
  have "fold max ts t0 \<le> t1" using assms(4,5) by (induction ts arbitrary: t0) auto
  then have "tbLast b - t0 \<le> t1 - t0" using r by simp
  then have "credit rps (tbLast b - t0) \<le> credit rps (t1 - t0)" using assms(1) by (intro credit_mono)
  moreover have "0 \<le> tokens b"
    using bucket.calls_keep [OF newTokenBucket_ok [OF assms(1,2)] _ assms(6)] by (simp add: bucket_ok_def list_all_iff)
  ultimately have "of_nat (admitted oks) \<le> of_int burst + credit rps (t1 - t0) + of_nat (length ts) * (of_int burst / 2 ^ 51)"
    using r by simp
  then show ?thesis by (simp only: credit_def)
qed

definition amd64 :: go_arch where
  "amd64 = \<lparr>fused = False, conv = (\<lambda>_. - (2 ^ 63))\<rparr>"

theorem admission_bound_witness:
  "rat_of_nat (admitted (fst (run_calls (bucket_allow amd64) [10 ^ 9, 2 * 10 ^ 9] (newTokenBucket 2 3 0)))) \<le>
     3 + 2 * (of_int (2 * 10 ^ 9 - 0) / 10 ^ 9) * (1 + 1 / 2 ^ 50) + of_nat (length [10 ^ 9, 2 * 10 ^ 9 :: int]) * (of_int 3 / 2 ^ 51)"
proof -
  let ?ts = "[10 ^ 9, 2 * 10 ^ 9] :: int list"
  have 0: "(0 :: rat) < 2" "1 \<le> (3 :: int)" "(3 :: int) \<le> 2 ^ 53" "(0 :: int) \<le> 2 * 10 ^ 9" "\<forall>t \<in> set ?ts. t \<le> 2 * 10 ^ 9" by simp_all
  show ?thesis using admission_bound [OF 0 prod.collapse [symmetric]] by simp
qed

subsection \<open>Waiting\<close>

text \<open>A balance below one misses it by at least one unit in the last place.\<close>

lemma below_one:
  assumes "fl z = z" "z < 1"
  shows "1 / 2 ^ 53 \<le> 1 - z"
proof (cases "z < 1 / 2")
  case True
  have "(1::rat) / 2 ^ 53 \<le> 1 / 2" by simp
  with True show ?thesis by linarith
next
  case False
  have "ilog2 \<bar>z\<bar> = - 1"
  proof -
    have z: "\<bar>z\<bar> = z" "0 < z" using False by simp_all
    have "\<not> 0 \<le> ilog2 z"
    proof
      assume "0 \<le> ilog2 z"
      then have "(2 :: rat) powi 0 \<le> 2 powi ilog2 z" by (rule powi_mono)
      with ilog2_bounds(1) [OF z(2)] assms(2) show False by simp
    qed
    moreover have "\<not> ilog2 z + 1 \<le> - 1"
    proof
      assume "ilog2 z + 1 \<le> - 1"
      then have "(2 :: rat) powi (ilog2 z + 1) \<le> 2 powi (- 1)" by (rule powi_mono)
      with ilog2_bounds(2) [OF z(2)] False show False by simp
    qed
    ultimately show ?thesis using z(1) by simp
  qed
  then have u: "ulp_exp z = - 53" by (simp add: ulp_exp_def)
  obtain m where m: "z = of_int m * 2 powi (- 53)" using fl_repr [of z] assms(1) u by metis
  have p: "(2 :: rat) powi (- 53) = 1 / 2 ^ 53" by (simp only: power_int_minus power_int_numeral divide_inverse mult_1)
  have "(of_int m :: rat) < of_int (2 ^ 53)" using m assms(2) by (simp add: p)
  then have "m + 1 \<le> 2 ^ 53" by (simp only: of_int_less_iff)
  then have "(of_int (m + 1) :: rat) \<le> of_int (2 ^ 53)" by (simp only: of_int_le_iff)
  then show ?thesis by (simp add: m p)
qed

lemma fl_ge: "1 / 2 ^ 60 \<le> x \<Longrightarrow> x * (1 - 1 / 2 ^ 52) \<le> fl x"
proof -
  assume x: "1 / 2 ^ 60 \<le> x"
  then have "0 \<le> x" by (simp add: order_trans [rotated])
  with fl_near [of x] have "x - x / 2 ^ 53 - tiny \<le> fl x" by blast
  moreover have "tiny \<le> x / 2 ^ 53" using x tiny_small by simp
  ultimately show ?thesis by (simp add: right_diff_distrib)
qed

text \<open>Time enough for \<open>x\<close> tokens raises the balance to \<open>z + x\<close>, capped by the burst.\<close>

lemma refill_reaches_one:
  assumes "bucket_ok b" "tokens b < 1" "tbLast b < t" "t - tbLast b < 2 ^ 63"
    and "(1 - tokens b) * (1 + 1 / 2 ^ 45) \<le> tbRps b * (of_int (t - tbLast b) / 10 ^ 9)"
  shows "1 \<le> tokens (refilled a t b)"
proof -
  let ?d = "t - tbLast b" let ?D = "of_int ?d / 10 ^ 9 :: rat" and ?z = "tokens b"
  have b: "0 < tbRps b" "1 \<le> tbBurst b" "fl ?z = ?z" "0 \<le> ?z" using assms(1) by (auto simp: bucket_ok_def)
  have d: "Sub t (tbLast b) = ?d" using assms(3,4) by (simp add: Sub_def)
  have d0: "0 < ?d" using assms(3) by simp
  note e = Seconds_ge [OF d0 assms(4)] and e0 = Seconds_gt0 [OF d0 assms(4)]
  define y where "y = 1 - ?z"
  have y: "1 / 2 ^ 53 \<le> y" using below_one [OF b(3) assms(2)] by (simp add: y_def)
  define p where "p = Seconds ?d * tbRps b"
  have "(y * (1 + 1 / 2 ^ 45)) * (1 - 1 / 2 ^ 51) \<le> (tbRps b * ?D) * (1 - 1 / 2 ^ 51)"
    using assms(5) unfolding y_def by (rule mult_right_mono) simp
  also have "\<dots> = tbRps b * (?D * (1 - 1 / 2 ^ 51))" by (simp only: mult.assoc)
  also have "\<dots> \<le> tbRps b * Seconds ?d" using e b(1) by (intro mult_left_mono) simp_all
  finally have p: "y * ((1 + 1 / 2 ^ 45) * (1 - 1 / 2 ^ 51)) \<le> p" by (simp only: p_def ac_simps)
  have "1 + 1 / 2 ^ 46 \<le> ((1 + 1 / 2 ^ 45) * (1 - 1 / 2 ^ 51) :: rat)" by simp
  then have "y * (1 + 1 / 2 ^ 46) \<le> y * ((1 + 1 / 2 ^ 45) * (1 - 1 / 2 ^ 51))" using y by (intro mult_left_mono) simp_all
  with p have p1: "y * (1 + 1 / 2 ^ 46) \<le> p" by linarith
  then have p2: "y \<le> p" "1 / 2 ^ 60 \<le> p" using y by (simp_all add: distrib_left)
  have "y \<le> y * ((1 + 1 / 2 ^ 46) * (1 - 1 / 2 ^ 52))" using y by simp
  also have "\<dots> \<le> p * (1 - 1 / 2 ^ 52)" using p1 unfolding mult.assoc [symmetric] by (intro mult_right_mono) simp_all
  also have "\<dots> \<le> fl p" using p2(2) by (rule fl_ge)
  finally have "y \<le> fl p" .
  then have "1 \<le> ?z + fl p" "1 \<le> ?z + p" using p2(1) by (simp_all add: y_def)
  then have "fl 1 \<le> fl (?z + fl p)" "fl 1 \<le> fl (?z + p)" by (simp_all only: fl_mono)
  then have "1 \<le> mul_add a (Seconds ?d) (tbRps b) ?z" by (simp add: mul_add_def p_def)
  then show ?thesis using e0 b(2) by (simp add: refilled_def d Let_def)
qed

text \<open>The advertised delay in nanoseconds, for a rate of at least one request in \<open>10\<^sup>9\<close> seconds.\<close>

lemma retry_range:
  assumes "0 \<le> y" "y \<le> 1" "1 / 10 ^ 9 \<le> rps"
  defines "m \<equiv> fl (fl (fl y / rps) * 10 ^ 9)"
  shows "0 \<le> m" "m \<le> 10 ^ 18" "to_int64 a m = \<lfloor>m\<rfloor>"
proof -
  have r: "0 < rps" using assms(3) by (simp add: order_less_le_trans [rotated])
  have y: "0 \<le> fl y" "fl y \<le> 1" using fl_nonneg [OF assms(1)] fl_mono [OF assms(2)] by simp_all
  have q0: "0 \<le> fl y / rps" using r y by simp
  have "fl y * (1 / 10 ^ 9) \<le> 1 * rps" using y assms(3) by (intro mult_mono) simp_all
  then have "fl y / rps \<le> of_int (10 ^ 9)" using r by (simp add: pos_divide_le_eq)
  then have n: "fl (fl y / rps) \<le> 10 ^ 9" using fl_mono [of "fl y / rps" "of_int (10 ^ 9)"] fl_of_int [of "10 ^ 9"] by simp
  have "fl (10 ^ 18) = 10 ^ 18" by (rule fl_exact [of _ "5 ^ 18" 18]) simp_all
  moreover have "fl (fl y / rps) * 10 ^ 9 \<le> 10 ^ 18" using n by simp
  ultimately show "m \<le> 10 ^ 18" using fl_mono [of _ "10 ^ 18"] unfolding m_def by metis
  show "0 \<le> m" unfolding m_def using fl_nonneg [OF q0] by (intro fl_nonneg) simp
  with \<open>m \<le> 10 ^ 18\<close> have "0 \<le> \<lfloor>m\<rfloor>" "\<lfloor>m\<rfloor> \<le> 10 ^ 18" by (simp_all add: floor_le_iff)
  then show "to_int64 a m = \<lfloor>m\<rfloor>" using \<open>0 \<le> m\<close> by (simp add: to_int64_def trunc_def)
qed

lemma retry_delay:
  assumes "1 / 2 ^ 53 \<le> y" "0 < rps"
  shows "y * (1 - 1 / 2 ^ 50) \<le> rps * ((of_int \<lfloor>fl (fl (fl y / rps) * 10 ^ 9)\<rfloor> + 2) / 10 ^ 9)"
proof -
  define q where "q = fl y / rps"
  have y: "y * (1 - 1 / 2 ^ 52) \<le> fl y" using assms(1) by (intro fl_ge) simp
  have y0: "0 \<le> fl y" using assms(1) by (intro fl_nonneg) (simp add: order_trans [rotated])
  have q0: "0 \<le> q" using y0 assms(2) by (simp add: q_def)
  have n: "q - q / 2 ^ 53 - tiny \<le> fl q" using fl_near [OF q0] by blast
  have n0: "0 \<le> fl q * 10 ^ 9" using fl_nonneg [OF q0] by simp
  have m: "fl q * 10 ^ 9 - fl q * 10 ^ 9 / 2 ^ 53 - tiny \<le> fl (fl q * 10 ^ 9)" using fl_near [OF n0] by blast
  have f: "fl (fl q * 10 ^ 9) \<le> of_int \<lfloor>fl (fl q * 10 ^ 9)\<rfloor> + 1" by linarith
  have t: "tiny \<le> 1 / 2 ^ 200" by (rule tiny_small)
  have "q * 10 ^ 9 * (1 - 1 / 2 ^ 52) \<le> of_int \<lfloor>fl (fl q * 10 ^ 9)\<rfloor> + 2"
    using n m f t q0 by (simp add: field_simps)
  then have "rps * (q * (1 - 1 / 2 ^ 52)) \<le> rps * ((of_int \<lfloor>fl (fl q * 10 ^ 9)\<rfloor> + 2) / 10 ^ 9)"
    using assms(2) by (intro mult_left_mono) (simp_all add: field_simps)
  moreover have "rps * (q * (1 - 1 / 2 ^ 52)) = fl y * (1 - 1 / 2 ^ 52)" using assms(2) by (simp add: q_def)
  moreover have "(y * (1 - 1 / 2 ^ 52)) * (1 - 1 / 2 ^ 52) \<le> fl y * (1 - 1 / 2 ^ 52)" using y by (rule mult_right_mono) simp
  moreover have "y * (1 - 1 / 2 ^ 50) \<le> y * ((1 - 1 / 2 ^ 52) * (1 - 1 / 2 ^ 52))"
    using assms(1) by (intro mult_left_mono) (simp_all add: order_trans [rotated])
  ultimately show ?thesis unfolding q_def by (simp only: mult.assoc)
qed

lemma refilled_last: "tbLast b \<le> t \<Longrightarrow> t - tbLast b < 2 ^ 63 \<Longrightarrow> tbLast (refilled a t b) = t"
proof -
  assume a: "tbLast b \<le> t" "t - tbLast b < 2 ^ 63"
  show ?thesis
  proof (cases "tbLast b = t")
    case False
    with a have d: "0 < t - tbLast b" "Sub t (tbLast b) = t - tbLast b" by (simp_all add: Sub_def)
    then have "0 < Seconds (t - tbLast b)" using a(2) by (intro Seconds_gt0)
    then show ?thesis by (simp add: refilled_def Let_def d(2))
  qed (simp add: refilled_def Let_def)
qed



subsection \<open>The session table\<close>

definition session_ok :: "sessionLimiter \<Rightarrow> bool" where
  "session_ok l \<longleftrightarrow> 0 < slRps l \<and> 1 \<le> slBurst l \<and> 1 \<le> slMax l \<and>
     map_wf (buckets l) \<and> map_wf (lastSeen l) \<and> map fst (buckets l) = map fst (lastSeen l) \<and>
     int (length (buckets l)) \<le> slMax l \<and> (\<forall>(s, b) \<in> set (buckets l). bucket_ok b)"

lemma map_delete_fst: "map fst (map_delete k m) = filter (\<lambda>k'. k' \<noteq> k) (map fst m)"
  by (induction m) (auto simp: map_delete_def)

lemma map_delete_wf: "map_wf m \<Longrightarrow> map_wf (map_delete k m)"
  by (simp add: map_wf_def map_delete_fst sorted_wrt_filter)

lemma map_of_map_delete: "map_of (map_delete k m) = (map_of m)(k := None)"
  by (induction m) (auto simp: map_delete_def fun_eq_iff)

text \<open>The keys of a sorted map determine the keys after an insertion.\<close>

lemma map_set_keys_same:
  fixes m :: "(bytes \<times> 'a) list" and m' :: "(bytes \<times> 'b) list"
  shows "map fst m = map fst m' \<Longrightarrow> map fst (map_set k v m) = map fst (map_set k v' m')"
  by (induction m arbitrary: m') (auto simp: Cons_eq_map_conv)

lemma map_set_present: "map_wf m \<Longrightarrow> k \<in> fst ` set m \<Longrightarrow> map fst (map_set k v m) = map fst m"
proof (induction k v m rule: map_set.induct)
  case (2 k v k' v' m)
  then show ?case by (fastforce simp: map_wf_def)
qed simp

lemma map_set_length: "map_wf m \<Longrightarrow> length (map_set k v m) = (if k \<in> fst ` set m then length m else Suc (length m))"
proof (cases "k \<in> fst ` set m")
  case True
  then show "map_wf m \<Longrightarrow> ?thesis" using map_set_present [of m k v] by (metis length_map)
next
  case False
  then show ?thesis by (induction k v m rule: map_set.induct) auto
qed

text \<open>The session that is evicted is tracked, and none was seen before it.\<close>

lemma older_min:
  "foldl older (Some (s0, t0)) xs = Some (s, t) \<Longrightarrow>
     (s, t) \<in> insert (s0, t0) (set xs) \<and> t \<le> t0 \<and> (\<forall>(s', t') \<in> set xs. t \<le> t')"
  by (induction xs arbitrary: s0 t0) (force split: if_splits)+

lemma older_Some: "\<exists>y. foldl older (Some x) xs = Some y"
proof (induction xs arbitrary: x)
  case (Cons z zs)
  then show ?case by (cases x; cases z) auto
qed simp

lemma oldest_least:
  assumes "set (ord (map fst m)) = fst ` set m" "map_of m \<noteq> Map.empty"
  shows "\<exists>t. map_of m (oldest ord m) = Some t \<and> (\<forall>s' t'. map_of m s' = Some t' \<longrightarrow> t \<le> t')"
proof -
  let ?f = "\<lambda>s. (s, case map_of m s of Some t \<Rightarrow> t | None \<Rightarrow> 0)"
  obtain k ks where k: "ord (map fst m) = k # ks" using assms by (cases "ord (map fst m)") auto
  obtain s t where st: "foldl older (Some (?f k)) (map ?f ks) = Some (s, t)" using older_Some by (metis surj_pair)
  then have "foldl older None (map ?f (ord (map fst m))) = Some (s, t)" by (simp add: k)
  then have o: "oldest ord m = s" by (simp add: oldest_def)
  from older_min [OF st] have mem: "(s, t) \<in> ?f ` set (k # ks)" and le: "\<forall>(s', t') \<in> ?f ` set (k # ks). t \<le> t'" by auto
  have dom: "set (k # ks) = dom (map_of m)" using assms(1) k by (simp add: dom_map_of_conv_image_fst)
  from mem dom obtain t0 where "map_of m s = Some t0" by blast
  with mem have "map_of m s = Some t" by auto
  moreover have "t \<le> t'" if "map_of m s' = Some t'" for s' t'
  proof -
    have "s' \<in> set (k # ks)" using that dom by blast
    then have "?f s' \<in> ?f ` set (k # ks)" by blast
    with le that show ?thesis by fastforce
  qed
  ultimately show ?thesis using o by blast
qed

lemma map_keys_dom: "dom (map_of m) = set (map fst m)"
  by (simp add: dom_map_of_conv_image_fst)

lemma map_set_ball: "\<forall>(s, b) \<in> set m. P b \<Longrightarrow> P v \<Longrightarrow> \<forall>(s, b) \<in> set (map_set k v m). P b"
  using map_set_values [of k v m] by blast

text \<open>The table with room for one more session, and the same sessions in both maps.\<close>

lemma evict_oldest_ok:
  assumes "session_ok l" "int (length (buckets l)) \<ge> slMax l" "\<And>ks. set (map_order rt ks) = set ks"
  shows "session_ok (evict_oldest rt l)" "int (length (buckets (evict_oldest rt l))) < slMax l"
    "\<exists>e t. map_of (lastSeen l) e = Some t \<and> (\<forall>s' t'. map_of (lastSeen l) s' = Some t' \<longrightarrow> t \<le> t') \<and>
       map_of (buckets (evict_oldest rt l)) = (map_of (buckets l))(e := None)"
proof -
  let ?e = "oldest (map_order rt) (lastSeen l)"
  have "buckets l \<noteq> []" using assms(1,2) by (auto simp: session_ok_def)
  moreover have k: "map fst (buckets l) = map fst (lastSeen l)" using assms(1) by (simp add: session_ok_def)
  ultimately have "map_of (lastSeen l) \<noteq> Map.empty" by (metis map_is_Nil_conv map_of_eq_empty_iff)
  from oldest_least [OF _ this, of "map_order rt"] obtain t
    where t: "map_of (lastSeen l) ?e = Some t" "\<forall>s' t'. map_of (lastSeen l) s' = Some t' \<longrightarrow> t \<le> t'"
    using assms(3) [of "map fst (lastSeen l)"] by auto
  then show "\<exists>e t. map_of (lastSeen l) e = Some t \<and> (\<forall>s' t'. map_of (lastSeen l) s' = Some t' \<longrightarrow> t \<le> t') \<and>
       map_of (buckets (evict_oldest rt l)) = (map_of (buckets l))(e := None)"
    by (intro exI [of _ ?e] exI [of _ t]) (simp add: evict_oldest_def Let_def map_of_map_delete)
  have e: "?e \<in> set (map fst (buckets l))" using t(1) k by (metis domI map_keys_dom)
  have len: "length (map_delete ?e (buckets l)) < length (buckets l)"
  proof -
    have "length (map fst (map_delete ?e (buckets l))) < length (map fst (buckets l))"
      unfolding map_delete_fst using e by (rule length_filter_less) simp
    then show ?thesis by simp
  qed
  then show "int (length (buckets (evict_oldest rt l))) < slMax l" using assms(1) by (simp add: evict_oldest_def Let_def session_ok_def)
  show "session_ok (evict_oldest rt l)" using assms(1) len
    by (auto simp: session_ok_def evict_oldest_def Let_def map_delete_wf map_delete_fst) (auto simp: map_delete_def)
qed

lemma map_set_twice [simp]: "map_set k v' (map_set k v m) = map_set k v' m"
  by (induction k v m rule: map_set.induct) auto

lemma session_put_ok:
  assumes "session_ok l" "bucket_ok b" "s \<in> fst ` set (buckets l) \<or> int (length (buckets l)) < slMax l"
  shows "session_ok (l\<lparr>lastSeen := map_set s t (lastSeen l), buckets := map_set s b (buckets l)\<rparr>)"
proof -
  have "map fst (map_set s b (buckets l)) = map fst (map_set s t (lastSeen l))"
    using map_set_keys_same [of "buckets l" "lastSeen l"] assms(1) by (simp add: session_ok_def)
  moreover have "int (length (map_set s b (buckets l))) \<le> slMax l"
    using assms(1,3) map_set_length [of "buckets l" s b] by (auto simp: session_ok_def)
  ultimately show ?thesis using assms(1,2) map_set_ball [of "buckets l" bucket_ok b s]
    by (simp add: session_ok_def map_wf_set)
qed

text \<open>The table a call works on: the old one, or the one after the eviction.\<close>

definition session_base :: "go_rt \<Rightarrow> bytes \<Rightarrow> sessionLimiter \<Rightarrow> sessionLimiter" where
  "session_base rt s l =
     (if map_of (buckets l) s = None \<and> int (length (buckets l)) \<ge> slMax l then evict_oldest rt l else l)"

definition own_bucket :: "rat \<Rightarrow> int \<Rightarrow> int \<Rightarrow> tokenBucket option \<Rightarrow> tokenBucket" where
  "own_bucket rps burst t ob = (case ob of Some b \<Rightarrow> b | None \<Rightarrow> newTokenBucket rps burst t)"

lemma session_allow_base:
  "session_allow a rt c s l =
     (let l0 = session_base rt s l;
          (r, b') = bucket_allow a (taken c) (own_bucket (slRps l) (slBurst l) (created c) (map_of (buckets l) s))
      in (r, l0\<lparr>lastSeen := map_set s (seen c) (lastSeen l0), buckets := map_set s b' (buckets l0)\<rparr>))"
  by (auto simp: session_allow_def session_bucket_def session_base_def own_bucket_def Let_def split: option.splits prod.splits)

lemma session_base_ok:
  assumes "session_ok l" "\<And>ks. set (map_order rt ks) = set ks"
  shows "session_ok (session_base rt s l)"
    "s \<in> fst ` set (buckets (session_base rt s l)) \<or> int (length (buckets (session_base rt s l))) < slMax (session_base rt s l)"
proof -
  have m: "slMax (evict_oldest rt l) = slMax l" by (simp add: evict_oldest_def Let_def)
  have "s \<in> fst ` set (buckets l)" if "map_of (buckets l) s \<noteq> None" using that by (metis map_of_eq_None_iff)
  then show "session_ok (session_base rt s l)"
    "s \<in> fst ` set (buckets (session_base rt s l)) \<or> int (length (buckets (session_base rt s l))) < slMax (session_base rt s l)"
    using evict_oldest_ok(1,2) [OF assms(1) _ assms(2)] assms(1) m by (auto simp: session_base_def)
qed

lemma own_bucket_ok: "session_ok l \<Longrightarrow> bucket_ok (own_bucket (slRps l) (slBurst l) t (map_of (buckets l) s))"
  by (auto simp: own_bucket_def session_ok_def newTokenBucket_ok dest!: map_of_SomeD split: option.splits)

lemma session_allow_ok:
  assumes "session_ok l" "\<And>ks. set (map_order rt ks) = set ks" "session_allow a rt c s l = (r, l')"
  shows "session_ok l'"
proof -
  obtain b' where b': "bucket_allow a (taken c) (own_bucket (slRps l) (slBurst l) (created c) (map_of (buckets l) s)) = (r, b')"
    and l': "l' = (session_base rt s l)\<lparr>lastSeen := map_set s (seen c) (lastSeen (session_base rt s l)),
      buckets := map_set s b' (buckets (session_base rt s l))\<rparr>"
    using assms(3) by (auto simp: session_allow_base Let_def split: prod.splits)
  have "bucket_ok b'" using own_bucket_ok [OF assms(1)] b' by (rule bucket_allow_ok)
  then show ?thesis unfolding l' using session_base_ok [OF assms(1,2)] by (intro session_put_ok)
qed

abbreviation visits_all :: "go_rt \<Rightarrow> bool" where
  "visits_all rt \<equiv> \<forall>ks. set (map_order rt ks) = set ks"

interpretation session: preserves "\<lambda>(c, s). session_allow a rt c s" session_ok "\<lambda>_. visits_all rt" for a rt
  by unfold_locales (auto intro: session_allow_ok)

lemma newSessionLimiter_ok: "0 < rps \<Longrightarrow> 1 \<le> burst \<Longrightarrow> session_ok (newSessionLimiter rps burst mx)"
  by (simp add: session_ok_def newSessionLimiter_def maxSessionBuckets_def map_wf_def)

lemma session_allow_max: "session_allow a rt c s l = (r, l') \<Longrightarrow> slMax l' = slMax l"
  by (auto simp: session_allow_base session_base_def evict_oldest_def Let_def split: prod.splits)

lemma session_calls_max: "run_calls (\<lambda>(c, s). session_allow a rt c s) qs l = (rs, l') \<Longrightarrow> slMax l' = slMax l"
  by (induction qs arbitrary: l rs) (auto split: prod.splits dest!: session_allow_max)

text \<open>
  C8. Whatever session ids clients invent and in whatever order, the table never holds more than its
  maximum of sessions, the two maps hold the same sessions, and every balance lies between zero
  and the burst.
\<close>

theorem session_table_bounded:
  assumes "0 < rps" "1 \<le> burst" "\<forall>ks. set (map_order rt ks) = set ks"
    and "run_calls (\<lambda>(c, s). session_allow a rt c s) qs (newSessionLimiter rps burst mx) = (rs, l)"
  shows "int (length (buckets l)) \<le> (if mx < 1 then 4096 else mx) \<and> dom (map_of (buckets l)) = dom (map_of (lastSeen l)) \<and>
    (\<forall>s b. map_of (buckets l) s = Some b \<longrightarrow> 0 \<le> tokens b \<and> tokens b \<le> tbBurst b)"
proof -
  have l: "session_ok l" using session.calls_keep [OF newSessionLimiter_ok [OF assms(1,2)] _ assms(4)] assms(3) by (simp add: list_all_iff)
  moreover have "slMax l = (if mx < 1 then 4096 else mx)"
    using session_calls_max [OF assms(4)] by (simp add: newSessionLimiter_def maxSessionBuckets_def)
  moreover have "0 \<le> tokens b \<and> tokens b \<le> tbBurst b" if "map_of (buckets l) s = Some b" for s b
    using l map_of_SomeD [OF that] by (auto simp: session_ok_def bucket_ok_def)
  ultimately show ?thesis by (auto simp: session_ok_def map_keys_dom)
qed

subsection \<open>Fairness between sessions\<close>

text \<open>The specification: every session has a bucket of its own, and no bucket is ever dropped.\<close>

definition per_session ::
  "go_arch \<Rightarrow> rat \<Rightarrow> int \<Rightarrow> clock \<Rightarrow> bytes \<Rightarrow> (bytes \<rightharpoonup> tokenBucket) \<Rightarrow> (bool \<times> int) \<times> (bytes \<rightharpoonup> tokenBucket)" where
  "per_session a rps burst c s m =
     (let (r, b') = bucket_allow a (taken c) (own_bucket rps burst (created c) (m s)) in (r, m(s \<mapsto> b')))"

definition session_rel :: "rat \<Rightarrow> int \<Rightarrow> bytes set \<Rightarrow> sessionLimiter \<Rightarrow> (bytes \<rightharpoonup> tokenBucket) \<Rightarrow> bool" where
  "session_rel rps burst S l m \<longleftrightarrow> slRps l = rps \<and> slBurst l = burst \<and> map_wf (buckets l) \<and>
     map_of (buckets l) = m \<and> finite S \<and> dom m \<subseteq> S \<and> int (card S) \<le> slMax l"

lemma session_rel_step:
  assumes "session_rel rps burst S l m" "s \<in> S" "session_allow a rt c s l = (r, l')"
  shows "\<exists>m'. per_session a rps burst c s m = (r, m') \<and> session_rel rps burst S l' m'"
proof -
  have r: "slRps l = rps" "slBurst l = burst" "map_wf (buckets l)" "map_of (buckets l) = m" "finite S" "dom m \<subseteq> S" "int (card S) \<le> slMax l"
    using assms(1) by (auto simp: session_rel_def)
  have "length (buckets l) < card S" if "m s = None"
  proof -
    have "length (buckets l) = card (dom m)"
      using r(4) map_wf_distinct [OF r(3)] by (metis distinct_card length_map map_keys_dom)
    also have "\<dots> < card S" using that r(5,6) assms(2) by (intro psubset_card_mono) auto
    finally show ?thesis .
  qed
  then have b: "session_base rt s l = l" using r(4,7) by (auto simp: session_base_def)
  have d: "x \<in> S" if "map_of (buckets l) x = Some y" for x y using r(4,6) that by blast
  show ?thesis using assms(2,3) r d
    by (auto simp: session_allow_base b per_session_def session_rel_def Let_def map_wf_set map_of_map_set split: prod.splits if_splits)
qed

interpretation fair: refines "\<lambda>(c, s). session_allow a rt c s" "\<lambda>(c, s). per_session a rps burst c s"
    "session_rel rps burst S" "\<lambda>(c, s). s \<in> S" for a rt rps burst S
  by unfold_locales (auto intro: session_rel_step)

text \<open>
  C14. Sessions do not affect each other: as long as no more sessions appear than the table holds, the
  limiter decides every request as if each session had a token bucket of its own from its first
  request on.
\<close>

theorem session_refines_buckets:
  assumes "1 \<le> mx" "int (card (snd ` set qs)) \<le> mx"
    and "run_calls (\<lambda>(c, s). session_allow a rt c s) qs (newSessionLimiter rps burst mx) = (rs, l)"
  shows "\<exists>m. run_calls (\<lambda>(c, s). per_session a rps burst c s) qs Map.empty = (rs, m) \<and> map_of (buckets l) = m"
proof -
  let ?S = "snd ` set qs"
  have 0: "session_rel rps burst ?S (newSessionLimiter rps burst mx) Map.empty"
    using assms(1,2) by (simp add: session_rel_def newSessionLimiter_def map_wf_def)
  have 1: "list_all (\<lambda>(c, s). s \<in> ?S) qs" by (force simp: list_all_iff)
  from fair.calls_refine [OF 0 1 assms(3)] show ?thesis by (auto simp: session_rel_def)
qed

text \<open>
  A new session in a full table takes the place of a least recently seen one and of no other: every
  other session keeps its bucket.
\<close>

theorem session_evicts_least_recent:
  assumes "session_ok l" "\<forall>ks. set (map_order rt ks) = set ks"
    and "map_of (buckets l) s = None" "int (length (buckets l)) = slMax l" "session_allow a rt c s l = (r, l')"
  shows "\<exists>e t. map_of (lastSeen l) e = Some t \<and> (\<forall>s' t'. map_of (lastSeen l) s' = Some t' \<longrightarrow> t \<le> t') \<and>
    (\<forall>s'. s' \<noteq> s \<longrightarrow> map_of (buckets l') s' = (if s' = e then None else map_of (buckets l) s'))"
proof -
  have b: "session_base rt s l = evict_oldest rt l" using assms(3,4) by (simp add: session_base_def)
  have ge: "slMax l \<le> int (length (buckets l))" using assms(4) by simp
  from evict_oldest_ok(3) [OF assms(1) ge assms(2) [rule_format]] obtain e t
    where e: "map_of (lastSeen l) e = Some t" "\<forall>s' t'. map_of (lastSeen l) s' = Some t' \<longrightarrow> t \<le> t'"
      "map_of (buckets (evict_oldest rt l)) = (map_of (buckets l))(e := None)" by blast
  have "map_of (buckets l') s' = (if s' = e then None else map_of (buckets l) s')" if "s' \<noteq> s" for s'
    using assms(5) that e(3) by (auto simp: session_allow_base b Let_def map_of_map_set split: prod.splits)
  with e(1,2) show ?thesis by blast
qed

text \<open>Two sessions in a table of two, and a table of one for the eviction.\<close>

definition read_at :: "int \<Rightarrow> clock" where
  "read_at t = \<lparr>created = t, seen = t, taken = t\<rparr>"

definition rt0 :: go_rt where
  "rt0 = \<lparr>json_err = (\<lambda>_. []), is_print = (\<lambda>_. True), map_order = rev, scan_answer = (\<lambda>_ _. Inl [])\<rparr>"

theorem session_table_bounded_witness:
  "int (length (buckets (snd (run_calls (\<lambda>(c, s). session_allow amd64 rt0 c s)
     [(read_at 0, ''a''), (read_at 5, ''b''), (read_at 7, ''c'')] (newSessionLimiter 1 1 2))))) \<le> 2"
proof -
  have "\<forall>ks. set (map_order rt0 ks) = set ks" by (simp add: rt0_def)
  from session_table_bounded [OF _ _ this prod.collapse [symmetric], where rps = 1 and burst = 1 and mx = 2 and a = amd64
      and qs = "[(read_at 0, ''a''), (read_at 5, ''b''), (read_at 7, ''c'')]"]
  show ?thesis by (simp del: run_calls.simps)
qed

theorem session_refines_buckets_witness:
  "\<exists>m. run_calls (\<lambda>(c, s). per_session amd64 1 1 c s) [(read_at 0, ''a''), (read_at 5, ''b'')] Map.empty =
     (fst (run_calls (\<lambda>(c, s). session_allow amd64 rt0 c s) [(read_at 0, ''a''), (read_at 5, ''b'')] (newSessionLimiter 1 1 2)), m)"
proof -
  have "card (snd ` set [(read_at 0, ''a''), (read_at 5, ''b'')]) = 2" by simp
  with session_refines_buckets [OF _ _ prod.collapse [symmetric], where mx = 2 and qs = "[(read_at 0, ''a''), (read_at 5, ''b'')]" and a = amd64 and rt = rt0 and rps = 1 and burst = 1]
  show ?thesis by auto
qed

theorem session_evicts_least_recent_witness:
  "map_of (buckets (snd (session_allow amd64 rt0 (read_at 7) ''b''
     \<lparr>slRps = 1, slBurst = 1, slMax = 1, buckets = [(''a'', newTokenBucket 1 1 0)], lastSeen = [(''a'', 0)]\<rparr>))) ''a'' = None"
proof -
  let ?l = "\<lparr>slRps = 1, slBurst = 1, slMax = 1, buckets = [(''a'', newTokenBucket 1 1 0)], lastSeen = [(''a'', 0)]\<rparr>"
  have 0: "session_ok ?l" by (simp add: session_ok_def map_wf_def newTokenBucket_ok)
  have 1: "\<forall>ks. set (map_order rt0 ks) = set ks" by (simp add: rt0_def)
  have 2: "map_of (buckets ?l) ''b'' = None" "int (length (buckets ?l)) = slMax ?l" by simp_all
  obtain e t where e: "map_of (lastSeen ?l) e = Some t"
    "\<forall>s'. s' \<noteq> ''b'' \<longrightarrow> map_of (buckets (snd (session_allow amd64 rt0 (read_at 7) ''b'' ?l))) s' = (if s' = e then None else map_of (buckets ?l) s')"
    using session_evicts_least_recent [OF 0 1 2 prod.collapse [symmetric]] by blast
  from e(1) have "e = ''a''" by (simp split: if_splits)
  with e(2) show ?thesis by simp
qed

end
