(* ===== verification/Gateway.thy ===== *)
theory Gateway
  imports Proxy Audit_Log Ratelimit
begin

text \<open>
  \<^verbatim>\<open>gateway/gateway.go\<close> and \<^verbatim>\<open>gateway/wellknown.go\<close>: the gateway, its construction, and the handlers.
  A handler takes and returns the gateway's state (limiters and auditor) and the client's
  connection, and gives the entries it logged and the request it forwarded.
\<close>

subsection \<open>The gateway\<close>

definition Version :: bytes where "Version = ''0.5.0''"

record Gateway =
  gCfg :: Config
  gAuditor :: Auditor
  routes :: "(bytes \<times> parsed_url) list"
  upstreams :: "(bytes \<times> Upstream) list"
  limits :: "(bytes \<times> tokenBucket) list"
  sessionLimits :: "(bytes \<times> sessionLimiter) list"
  policies :: "(bytes \<times> toolPolicy) list"
  locks :: "(bytes \<times> preparedLock) list"
  scanners :: "(bytes \<times> Scanner) list"

datatype gw_error =
    NilAuditor
  | ConfigError cfg_error
  | ProxyURLError bytes
  | UpstreamLockError bytes lock_error
  | ScannerStartError bytes bytes

text \<open>
  What starting a gateway depends on: the URL parser, the files, the clock, and whether the
  \<open>i\<close>-th coprocess of a scanner binary starts (its error text if not).
\<close>

record start_env =
  seURL :: url_parser
  seFile :: "bytes \<Rightarrow> bytes option"
  seClock :: "bytes \<Rightarrow> int"
  seSpawn :: "bytes \<Rightarrow> nat \<Rightarrow> bytes option"

text \<open>\<^verbatim>\<open>newScanner\<close>: the pool is spawned eagerly, and the first failure closes what was started.\<close>

fun spawn_pool :: "(nat \<Rightarrow> bytes option) \<Rightarrow> nat \<Rightarrow> nat \<Rightarrow> bytes option" where
  "spawn_pool start i 0 = None"
| "spawn_pool start i (Suc n) = (case start i of Some err \<Rightarrow> Some err | None \<Rightarrow> spawn_pool start (Suc i) n)"

definition newScanner :: "(bytes \<Rightarrow> nat \<Rightarrow> bytes option) \<Rightarrow> PromptProofConfig \<Rightarrow> bytes + Scanner" where
  "newScanner start c =
     (let s = scanner_of c in
      case spawn_pool (start (bin s)) 0 (poolSize s) of Some err \<Rightarrow> Inl err | None \<Rightarrow> Inr s)"

definition add_limits :: "(bytes \<Rightarrow> int) \<Rightarrow> Upstream \<Rightarrow> Gateway \<Rightarrow> Gateway" where
  "add_limits clk u g =
     (case RateLimit u of
        None \<Rightarrow> g
      | Some r \<Rightarrow>
          if PerSession r
          then g\<lparr>sessionLimits := map_set (Name u) (newSessionLimiter (RequestsPerSecond r) (Burst r) maxSessionBuckets) (sessionLimits g)\<rparr>
          else g\<lparr>limits := map_set (Name u) (newTokenBucket (RequestsPerSecond r) (Burst r) (clk (Name u))) (limits g)\<rparr>)"

definition add_policy :: "Upstream \<Rightarrow> Gateway \<Rightarrow> Gateway" where
  "add_policy u g =
     (case newToolPolicy u of None \<Rightarrow> g | Some p \<Rightarrow> g\<lparr>policies := map_set (Name u) p (policies g)\<rparr>)"

definition add_lock :: "start_env \<Rightarrow> Upstream \<Rightarrow> lock_cache \<Rightarrow> Gateway \<Rightarrow> (gw_error + Gateway) \<times> lock_cache" where
  "add_lock env u cache g =
     (if ToolsLock u = None then (Inr g, cache)
      else case prepareLock (seFile env) u cache of
             (Inl e, cache1) \<Rightarrow> (Inl (UpstreamLockError (Name u) e), cache1)
           | (Inr None, cache1) \<Rightarrow> (Inr g, cache1)
           | (Inr (Some l), cache1) \<Rightarrow> (Inr (g\<lparr>locks := map_set (Name u) l (locks g)\<rparr>), cache1))"

definition add_scanner :: "start_env \<Rightarrow> Upstream \<Rightarrow> Gateway \<Rightarrow> gw_error + Gateway" where
  "add_scanner env u g =
     (case PromptProof u of
        None \<Rightarrow> Inr g
      | Some c \<Rightarrow>
          if \<not> ppEnabled c then Inr g
          else case newScanner (seSpawn env) c of
                 Inl err \<Rightarrow> Inl (ScannerStartError (Name u) err)
               | Inr s \<Rightarrow> Inr (g\<lparr>scanners := map_set (Name u) s (scanners g)\<rparr>))"

text \<open>
  The loop over the upstreams.  The second component is the upstreams whose scanner pools are left
  running; only the failure to start a scanner calls \<^verbatim>\<open>g.Close()\<close> before it returns.
\<close>

fun add_upstreams ::
  "start_env \<Rightarrow> lock_cache \<Rightarrow> Gateway \<Rightarrow> Upstream list \<Rightarrow> (gw_error + Gateway) \<times> bytes list" where
  "add_upstreams env cache g [] = (Inr g, map fst (scanners g))"
| "add_upstreams env cache g (u # us) =
     (case seURL env (URL u) of
        None \<Rightarrow> (Inl (ProxyURLError (Name u)), map fst (scanners g))
      | Some target \<Rightarrow>
          (let g1 = g\<lparr>routes := map_set (Name u) target (routes g), upstreams := map_set (Name u) u (upstreams g)\<rparr>;
               g2 = add_policy u (add_limits (seClock env) u g1) in
           case add_lock env u cache g2 of
             (Inl e, _) \<Rightarrow> (Inl e, map fst (scanners g2))
           | (Inr g3, cache1) \<Rightarrow>
               (case add_scanner env u g3 of
                  Inl e \<Rightarrow> (Inl e, [])
                | Inr g4 \<Rightarrow> add_upstreams env cache1 g4 us)))"

definition New :: "start_env \<Rightarrow> Config \<Rightarrow> Auditor option \<Rightarrow> (gw_error + Gateway) \<times> bytes list" where
  "New env cfg aud =
     (case aud of
        None \<Rightarrow> (Inl NilAuditor, [])
      | Some a \<Rightarrow>
          (case Validate (seURL env) cfg of
             Inl e \<Rightarrow> (Inl (ConfigError e), [])
           | Inr c \<Rightarrow>
               add_upstreams env Map.empty \<lparr>gCfg = c, gAuditor = a, routes = [], upstreams = [], limits = [],
                 sessionLimits = [], policies = [], locks = [], scanners = []\<rparr> (Upstreams c)))"

text \<open>\<^verbatim>\<open>Close\<close>: the pools of the gateway's scanners, given those that run.\<close>

definition Close :: "Gateway \<Rightarrow> bytes list \<Rightarrow> bytes list" where
  "Close g running = filter (\<lambda>n. n \<notin> set (map fst (scanners g))) running"

subsection \<open>Simple handlers\<close>

definition handleHealth :: "Gateway \<Rightarrow> clientConn \<Rightarrow> clientConn" where
  "handleHealth g c =
     snd (conn_Write (''{'' @ marshal_string ''status'' @ '':'' @ marshal_string ''ok'' @ '','' @
         marshal_string ''upstreams'' @ '':'' @ Itoa (int (length (routes g))) @ ''}'' @ [LF])
       (conn_Set ''Content-Type'' ''application/json'' c))"

definition wellKnownPrefix :: bytes where
  "wellKnownPrefix = ''/.well-known/oauth-protected-resource/mcp/''"

record resourceMetadata =
  mdResource :: bytes
  mdAuthorizationServers :: "bytes list"
  mdBearerMethods :: "bytes list"
  mdResourceName :: bytes

definition metadata_fields :: "resourceMetadata \<Rightarrow> (bool \<times> bytes \<times> json) list" where
  "metadata_fields md =
     [(False, ''resource'', text_node (mdResource md)),
      (mdAuthorizationServers md = [], ''authorization_servers'', array_node (map text_node (mdAuthorizationServers md))),
      (False, ''bearer_methods_supported'', array_node (map text_node (mdBearerMethods md))),
      (mdResourceName md = [], ''resource_name'', text_node (mdResourceName md))]"

definition marshal_metadata :: "resourceMetadata \<Rightarrow> bytes" where
  "marshal_metadata md = raw_of (object_node (struct_fields (metadata_fields md)))"

definition resource_metadata :: "Config \<Rightarrow> httpRequest \<Rightarrow> bytes \<Rightarrow> Upstream \<Rightarrow> resourceMetadata" where
  "resource_metadata cfg rq name u =
     (let base = (if PublicBaseURL cfg = [] then ''http://'' @ rqHost rq else PublicBaseURL cfg)
      in \<lparr>mdResource = TrimSuffix base ''/'' @ ''/mcp/'' @ name, mdAuthorizationServers = AuthorizationServers u,
          mdBearerMethods = [''header''], mdResourceName = ResourceName u\<rparr>)"

definition handleWellKnown :: "Gateway \<Rightarrow> httpRequest \<Rightarrow> clientConn \<Rightarrow> clientConn" where
  "handleWellKnown g rq c =
     (let name = TrimPrefix (rqPath rq) wellKnownPrefix in
      case map_of (upstreams g) name of
        None \<Rightarrow> writeJSONError 404 (- 32001) ''unknown resource'' c
      | Some u \<Rightarrow>
          snd (conn_Write (marshal_metadata (resource_metadata (gCfg g) rq name u) @ [LF])
            (conn_Set ''Cache-Control'' ''public, max-age=3600''
              (conn_Set ''Content-Type'' ''application/json'' c))))"

subsection \<open>The proxy handler\<close>

text \<open>
  What a request depends on besides the gateway: platform and run-time parameters, the clock
  readings of the limiter, the RFC 3339 text of the current time, the duration measured, the audit
  sink, and the exchange with the upstream.
\<close>

record req_env =
  reRt :: go_rt
  reArch :: go_arch
  reClock :: clock
  reNow :: bytes
  reDuration :: nat
  reSink :: "bytes \<Rightarrow> nat \<times> bytes option"
  reExchange :: exchange

text \<open>The outcome: the connection, the entries logged, the request forwarded, whether the handler panicked.\<close>

record served =
  svConn :: clientConn
  svEntries :: "Entry list"
  svOut :: "outRequest option"
  svAborted :: bool

definition route_name :: "bytes \<Rightarrow> bytes" where
  "route_name path = fst (Cut (TrimPrefix path ''/mcp/'') (CHR ''/''))"

definition limiter_allow :: "req_env \<Rightarrow> bytes \<Rightarrow> httpRequest \<Rightarrow> Gateway \<Rightarrow> (bool \<times> int) \<times> Gateway" where
  "limiter_allow env name rq g =
     (case map_of (sessionLimits g) name of
        Some sl \<Rightarrow>
          (case session_allow (reArch env) (reRt env) (reClock env) (header_get (rqHeader rq) ''Mcp-Session-Id'') sl of
             (r, sl1) \<Rightarrow> (r, g\<lparr>sessionLimits := map_set name sl1 (sessionLimits g)\<rparr>))
      | None \<Rightarrow>
          (case map_of (limits g) name of
             Some b \<Rightarrow>
               (case bucket_allow (reArch env) (taken (reClock env)) b of
                  (r, b1) \<Rightarrow> (r, g\<lparr>limits := map_set name b1 (limits g)\<rparr>))
           | None \<Rightarrow> ((True, 0), g)))"

definition retry_secs :: "int \<Rightarrow> int" where
  "retry_secs retry = (let s = \<lceil>Seconds retry\<rceil> in if s < 1 then 1 else s)"

text \<open>The part of an entry that is known before the body is read.\<close>

definition request_entry :: "req_env \<Rightarrow> bytes \<Rightarrow> httpRequest \<Rightarrow> Entry" where
  "request_entry env name rq =
     zero_entry\<lparr>eTime := reNow env, eUpstream := name, eRemote := rqRemoteAddr rq, eHTTPMethod := rqMethod rq,
       ePath := rqPath rq, eSessionID := header_get (rqHeader rq) ''Mcp-Session-Id'',
       eProtocolVersion := header_get (rqHeader rq) ''Mcp-Protocol-Version''\<rparr>"

text \<open>
  The peek at the body: bytes buffered, the summary, the error text for the entry, and the body
  the upstream will be sent.
\<close>

definition peek_body :: "httpRequest \<Rightarrow> nat \<times> rpcSummary \<times> bytes \<times> bytes" where
  "peek_body rq =
     (case rqBody rq of
        None \<Rightarrow> (0, empty_summary, [], [])
      | Some b \<Rightarrow>
          if length b \<le> maxRPCPeek
          then (length b, summarizeRPC b,
                case rqBodyErr rq of None \<Rightarrow> [] | Some err \<Rightarrow> ''request body read: '' @ err, b)
          else (maxRPCPeek + 1, empty_summary\<lparr>Invalid := True\<rparr>, [], b))"

definition with_summary :: "rpcSummary \<Rightarrow> Entry \<Rightarrow> Entry" where
  "with_summary sm e =
     e\<lparr>eRPCMethods := Methods sm, eRPCIDs := IDs sm, eTools := Tools sm, eRPCBatch := Batch sm, eRPCInvalid := Invalid sm\<rparr>"

definition rewrite_state :: "toolPolicy option \<Rightarrow> preparedLock option \<Rightarrow> Scanner option \<Rightarrow> rpcSummary \<Rightarrow> rewriteState option" where
  "rewrite_state pol lk sc sm =
     (let needList = ((pol \<noteq> None \<or> lk \<noteq> None) \<and> ToolsListIDs sm \<noteq> []);
          needScan = (sc \<noteq> None \<and> ToolsCallIDs sm \<noteq> []) in
      if needList \<or> needScan then
        Some \<lparr>ids = (if needList then ToolsListIDs sm else []), policy = (if needList then pol else None),
          lock = (if needList then lk else None),
          strict = ((case pol of None \<Rightarrow> False | Some p \<Rightarrow> allow p \<noteq> None) \<or> (case lk of None \<Rightarrow> False | Some l \<Rightarrow> enforce l)),
          filtered = 0, drift = False, stNote = [], scanner = (if needScan then sc else None),
          scanIDs = (if needScan then ToolsCallIDs sm else []), scanVerdict = [], scanScore = 0, scanCategories = [],
          scanBlocked = False, scanFlagged = False, scanErr = [], scanCalls = 0\<rparr>
      else None)"

text \<open>The entry after the exchange.\<close>

definition response_entry :: "countingWriter \<Rightarrow> bytes \<Rightarrow> rewriteState option \<Rightarrow> Entry \<Rightarrow> Entry" where
  "response_entry w perr ost e =
     (let e1 = e\<lparr>eStatus := (if cwStatus w = 0 then 200 else cwStatus w),
                 eSSE := HasPrefix (header_get (ccHeader (cwConn w)) ''Content-Type'') ''text/event-stream'',
                 eBytesOut := int (cwWritten w)\<rparr>;
          e2 = (if perr \<noteq> [] then e1\<lparr>eError := perr\<rparr> else e1) in
      case ost of
        None \<Rightarrow> e2
      | Some st \<Rightarrow>
          (let e3 = e2\<lparr>eToolsFiltered := int (filtered st), eToolsDrift := drift st, ePromptProofVerdict := scanVerdict st,
                 ePromptProofScore := scanScore st, ePromptProofCategories := scanCategories st,
                 ePromptProofBlocked := scanBlocked st, ePromptProofError := scanErr st\<rparr>
           in if stNote st \<noteq> [] \<and> eError e3 = [] then e3\<lparr>eError := stNote st\<rparr> else e3))"

definition log_entry :: "req_env \<Rightarrow> Entry \<Rightarrow> Gateway \<Rightarrow> Gateway" where
  "log_entry env e g = g\<lparr>gAuditor := Log (reSink env) e (gAuditor g)\<rparr>"

text \<open>The request once it has been admitted.\<close>

definition forward_request :: "req_env \<Rightarrow> bytes \<Rightarrow> parsed_url \<Rightarrow> httpRequest \<Rightarrow> clientConn \<Rightarrow> Gateway \<Rightarrow> served \<times> Gateway" where
  "forward_request env name target rq c g =
     (let (buffered, sm, berr, body) = peek_body rq;
          e0 = (request_entry env name rq)\<lparr>eError := berr\<rparr>;
          pol = map_of (policies g) name;
          reason = blockReason pol sm in
      if reason \<noteq> [] then
        (let e = (with_summary sm e0)\<lparr>eStatus := 403, eBytesIn := int buffered, eDurationUS := reDuration env, eError := reason\<rparr>
         in (\<lparr>svConn = writeJSONError 403 (- 32003) reason c, svEntries = [e], svOut = None, svAborted = False\<rparr>,
             log_entry env e g))
      else
        (let ost = rewrite_state pol (map_of (locks g) name) (map_of (scanners g) name) sm;
             p = proxy_ServeHTTP (reRt env) (reExchange env) target name ost rq body
                   \<lparr>cwConn = c, cwStatus = 0, cwWritten = 0\<rparr>;
             extra = min (exBodyRead (reExchange env) (pxOut p)) (length body) - buffered;
             e = response_entry (pxWriter p) (pxErr p) (pxState p)
                   ((with_summary sm e0)\<lparr>eBytesIn := int (buffered + extra), eDurationUS := reDuration env\<rparr>) in
         if pxAborted p
         then (\<lparr>svConn = cwConn (pxWriter p), svEntries = [], svOut = Some (pxOut p), svAborted = True\<rparr>, g)
         else (\<lparr>svConn = cwConn (pxWriter p), svEntries = [e], svOut = Some (pxOut p), svAborted = False\<rparr>,
               log_entry env e g)))"

definition handleProxy :: "req_env \<Rightarrow> httpRequest \<Rightarrow> clientConn \<Rightarrow> Gateway \<Rightarrow> served \<times> Gateway" where
  "handleProxy env rq c g =
     (let name = route_name (rqPath rq) in
      case map_of (routes g) name of
        None \<Rightarrow>
          (let e = zero_entry\<lparr>eTime := reNow env, eRemote := rqRemoteAddr rq, eHTTPMethod := rqMethod rq,
                 ePath := rqPath rq, eStatus := 404, eError := ''unknown upstream''\<rparr>
           in (\<lparr>svConn = writeJSONError 404 (- 32001) ''unknown upstream'' c, svEntries = [e], svOut = None, svAborted = False\<rparr>,
               log_entry env e g))
      | Some target \<Rightarrow>
          (case limiter_allow env name rq g of
             ((allowed, retry), g1) \<Rightarrow>
               if \<not> allowed then
                 (let e = (request_entry env name rq)\<lparr>eStatus := 429, eError := ''rate limited''\<rparr>
                  in (\<lparr>svConn = writeJSONError 429 (- 32002) ''rate limited''
                         (conn_Set ''Retry-After'' (Itoa (retry_secs retry)) c),
                       svEntries = [e], svOut = None, svAborted = False\<rparr>,
                      log_entry env e g1))
               else forward_request env name target rq c g1))"

definition ServeHTTP :: "req_env \<Rightarrow> httpRequest \<Rightarrow> clientConn \<Rightarrow> Gateway \<Rightarrow> served \<times> Gateway" where
  "ServeHTTP env rq c g =
     (let quiet = (\<lambda>c1. (\<lparr>svConn = c1, svEntries = [], svOut = None, svAborted = False\<rparr>, g)) in
      if rqPath rq = ''/healthz'' then quiet (handleHealth g c)
      else if HasPrefix (rqPath rq) wellKnownPrefix then quiet (handleWellKnown g rq c)
      else if HasPrefix (rqPath rq) ''/mcp/'' then handleProxy env rq c g
      else quiet (writeJSONError 404 (- 32001) ''not found'' c))"

end
