(* ===== verification/Handling.thy ===== *)
theory Handling
  imports Gateway
begin

text \<open>
  What the handlers of \<^verbatim>\<open>gateway/gateway.go\<close> guarantee: the tables of a gateway agree with its
  configuration and stay so, a refused or blocked request does not reach the upstream, every
  handled request is audited once, and the audit entry holds metadata only.
\<close>

subsection \<open>The tables\<close>

text \<open>Every table holds what the upstream's configuration asks for, and the limiters are sound.\<close>

definition upstream_tables :: "Gateway \<Rightarrow> bytes \<Rightarrow> Upstream \<Rightarrow> bool" where
  "upstream_tables g n u \<longleftrightarrow>
     Name u = n \<and> map_of (policies g) n = newToolPolicy u \<and>
     (map_of (limits g) n \<noteq> None \<longleftrightarrow> (\<exists>r. RateLimit u = Some r \<and> \<not> PerSession r)) \<and>
     (map_of (sessionLimits g) n \<noteq> None \<longleftrightarrow> (\<exists>r. RateLimit u = Some r \<and> PerSession r)) \<and>
     (map_of (locks g) n \<noteq> None \<longleftrightarrow> ToolsLock u \<noteq> None) \<and>
     (map_of (scanners g) n \<noteq> None \<longleftrightarrow> (\<exists>c. PromptProof u = Some c \<and> ppEnabled c))"

definition gateway_ok :: "Gateway \<Rightarrow> bool" where
  "gateway_ok g \<longleftrightarrow>
     dom (map_of (routes g)) = dom (map_of (upstreams g)) \<and>
     dom (map_of (policies g)) \<union> dom (map_of (limits g)) \<union> dom (map_of (sessionLimits g)) \<union>
       dom (map_of (locks g)) \<union> dom (map_of (scanners g)) \<subseteq> dom (map_of (upstreams g)) \<and>
     (\<forall>n u. map_of (upstreams g) n = Some u \<longrightarrow> upstream_tables g n u) \<and>
     (\<forall>n b. map_of (limits g) n = Some b \<longrightarrow> bucket_ok b) \<and>
     (\<forall>n l. map_of (sessionLimits g) n = Some l \<longrightarrow> session_ok l)"

lemma prepareLock_Some: "ToolsLock u \<noteq> None \<Longrightarrow> prepareLock rf u cache \<noteq> (Inr None, cache1)"
  by (auto simp: prepareLock_def Let_def split: option.splits sum.splits prod.splits if_splits)

text \<open>What adding one upstream does to each table.\<close>

definition own_limit :: "(bytes \<Rightarrow> int) \<Rightarrow> Upstream \<Rightarrow> tokenBucket option" where
  "own_limit clk u = (case RateLimit u of None \<Rightarrow> None
     | Some r \<Rightarrow> if PerSession r then None else Some (newTokenBucket (RequestsPerSecond r) (Burst r) (clk (Name u))))"

definition own_session :: "Upstream \<Rightarrow> sessionLimiter option" where
  "own_session u = (case RateLimit u of None \<Rightarrow> None
     | Some r \<Rightarrow> if PerSession r then Some (newSessionLimiter (RequestsPerSecond r) (Burst r) maxSessionBuckets) else None)"

lemma upd_absent: "m k = None \<Longrightarrow> m(k := None) = m"
  by (simp add: fun_upd_idem)

lemma add_limits_tables:
  assumes "map_of (limits g) (Name u) = None" "map_of (sessionLimits g) (Name u) = None"
  shows "map_of (limits (add_limits clk u g)) = (map_of (limits g))(Name u := own_limit clk u)"
    "map_of (sessionLimits (add_limits clk u g)) = (map_of (sessionLimits g))(Name u := own_session u)"
    "routes (add_limits clk u g) = routes g" "upstreams (add_limits clk u g) = upstreams g"
    "policies (add_limits clk u g) = policies g" "locks (add_limits clk u g) = locks g" "scanners (add_limits clk u g) = scanners g"
  using assms by (auto simp: add_limits_def own_limit_def own_session_def map_of_map_set upd_absent split: option.splits)

lemma add_policy_tables:
  assumes "map_of (policies g) (Name u) = None"
  shows "map_of (policies (add_policy u g)) = (map_of (policies g))(Name u := newToolPolicy u)"
    "routes (add_policy u g) = routes g" "upstreams (add_policy u g) = upstreams g" "limits (add_policy u g) = limits g"
    "sessionLimits (add_policy u g) = sessionLimits g" "locks (add_policy u g) = locks g" "scanners (add_policy u g) = scanners g"
  using assms by (auto simp: add_policy_def map_of_map_set upd_absent split: option.splits)

lemma add_lock_tables:
  assumes "add_lock env u cache g = (Inr g', cache')" "map_of (locks g) (Name u) = None"
  obtains ol where "map_of (locks g') = (map_of (locks g))(Name u := ol)" "ol \<noteq> None \<longleftrightarrow> ToolsLock u \<noteq> None"
    "g' = g\<lparr>locks := locks g'\<rparr>"
proof (cases "ToolsLock u = None")
  case True
  with assms show ?thesis by (intro that [of None]) (simp_all add: add_lock_def upd_absent)
next
  case False
  with assms(1) prepareLock_Some [OF False] obtain l where "g' = g\<lparr>locks := map_set (Name u) l (locks g)\<rparr>"
    by (auto simp: add_lock_def split: prod.splits sum.splits option.splits)
  with False show ?thesis by (intro that [of "Some l"]) (simp_all add: map_of_map_set)
qed

lemma add_scanner_tables:
  assumes "add_scanner env u g = Inr g'" "map_of (scanners g) (Name u) = None"
  obtains os where "map_of (scanners g') = (map_of (scanners g))(Name u := os)"
    "os \<noteq> None \<longleftrightarrow> (\<exists>c. PromptProof u = Some c \<and> ppEnabled c)" "g' = g\<lparr>scanners := scanners g'\<rparr>"
proof (cases "\<exists>c. PromptProof u = Some c \<and> ppEnabled c")
  case True
  then obtain s where "g' = g\<lparr>scanners := map_set (Name u) s (scanners g)\<rparr>"
    using assms(1) by (auto simp: add_scanner_def split: sum.splits)
  with True show ?thesis by (intro that [of "Some s"]) (simp_all add: map_of_map_set)
next
  case False
  then have "g' = g" using assms(1) by (auto simp: add_scanner_def split: option.splits)
  with False assms(2) show ?thesis by (intro that [of None]) (simp_all add: upd_absent)
qed

lemma dom_upd_subset: "dom f \<subseteq> D \<Longrightarrow> dom (f(x := y)) \<subseteq> insert x D"
  by (auto split: if_splits)

text \<open>One more row in every table.\<close>

lemma gateway_ok_extend:
  assumes g: "gateway_ok g"
    and ro: "map_of (routes g') = (map_of (routes g))(Name u \<mapsto> target)"
    and us: "map_of (upstreams g') = (map_of (upstreams g))(Name u \<mapsto> u)"
    and p: "map_of (policies g') = (map_of (policies g))(Name u := op)"
    and li: "map_of (limits g') = (map_of (limits g))(Name u := ob)"
    and se: "map_of (sessionLimits g') = (map_of (sessionLimits g))(Name u := osl)"
    and lo: "map_of (locks g') = (map_of (locks g))(Name u := ol)"
    and sc: "map_of (scanners g') = (map_of (scanners g))(Name u := os)"
    and own: "upstream_tables g' (Name u) u" "\<forall>b. ob = Some b \<longrightarrow> bucket_ok b" "\<forall>l. osl = Some l \<longrightarrow> session_ok l"
  shows "gateway_ok g'"
proof -
  let ?D = "dom (map_of (upstreams g))"
  have g0: "dom (map_of (policies g)) \<subseteq> ?D" "dom (map_of (limits g)) \<subseteq> ?D" "dom (map_of (sessionLimits g)) \<subseteq> ?D"
    "dom (map_of (locks g)) \<subseteq> ?D" "dom (map_of (scanners g)) \<subseteq> ?D" "dom (map_of (routes g)) = ?D"
    using g unfolding gateway_ok_def by blast+
  have d: "dom (map_of (upstreams g')) = insert (Name u) ?D" by (simp add: us)
  have d2: "dom (map_of (policies g')) \<union> dom (map_of (limits g')) \<union> dom (map_of (sessionLimits g')) \<union>
       dom (map_of (locks g')) \<union> dom (map_of (scanners g')) \<subseteq> dom (map_of (upstreams g'))"
    unfolding d unfolding p li se lo sc using g0 by (intro Un_least dom_upd_subset)
  have d1: "dom (map_of (routes g')) = dom (map_of (upstreams g'))" using g0(6) by (simp add: ro us)
  have t: "upstream_tables g' m v" if m: "map_of (upstreams g') m = Some v" for m v
  proof (cases "m = Name u")
    case True
    then show ?thesis using m us own(1) by simp
  next
    case False
    then have "upstream_tables g m v" using g m us by (simp add: gateway_ok_def)
    with False show ?thesis by (simp add: upstream_tables_def p li se lo sc)
  qed
  have b: "bucket_ok b" if "map_of (limits g') m = Some b" for m b
    using that g own(2) by (auto simp: li gateway_ok_def split: if_splits)
  have l: "session_ok l" if "map_of (sessionLimits g') m = Some l" for m l
    using that g own(3) by (auto simp: se gateway_ok_def split: if_splits)
  show ?thesis unfolding gateway_ok_def using d1 d2 t b l by blast
qed

text \<open>The construction step for one upstream with a new name.\<close>

lemma add_upstream_ok:
  assumes g: "gateway_ok g" and new: "map_of (upstreams g) (Name u) = None"
    and rate: "\<forall>r. RateLimit u = Some r \<longrightarrow> 0 < RequestsPerSecond r \<and> 1 \<le> Burst r"
    and g1: "g1 = g\<lparr>routes := map_set (Name u) target (routes g), upstreams := map_set (Name u) u (upstreams g)\<rparr>"
    and l: "add_lock env u cache (add_policy u (add_limits clk u g1)) = (Inr g3, cache1)"
    and s: "add_scanner env u g3 = Inr g4"
  shows "gateway_ok g4" "map_of (upstreams g4) = (map_of (upstreams g))(Name u \<mapsto> u)"
proof -
  let ?n = "Name u" and ?g2 = "add_policy u (add_limits clk u g1)"
  have "?n \<notin> dom (map_of (policies g))" "?n \<notin> dom (map_of (limits g))" "?n \<notin> dom (map_of (sessionLimits g))"
    "?n \<notin> dom (map_of (locks g))" "?n \<notin> dom (map_of (scanners g))"
    using g new by (auto simp: gateway_ok_def)
  then have n: "map_of (policies g) ?n = None" "map_of (limits g) ?n = None" "map_of (sessionLimits g) ?n = None"
    "map_of (locks g) ?n = None" "map_of (scanners g) ?n = None" by auto
  note t1 = add_limits_tables [of g1 u clk] and t2 = add_policy_tables [of "add_limits clk u g1" u]
  have p: "map_of (policies ?g2) = (map_of (policies g))(?n := newToolPolicy u)"
    and li: "map_of (limits ?g2) = (map_of (limits g))(?n := own_limit clk u)"
    and se: "map_of (sessionLimits ?g2) = (map_of (sessionLimits g))(?n := own_session u)"
    and ro: "map_of (routes ?g2) = (map_of (routes g))(?n \<mapsto> target)"
    and us: "map_of (upstreams ?g2) = (map_of (upstreams g))(?n \<mapsto> u)"
    and fr: "locks ?g2 = locks g" "scanners ?g2 = scanners g"
    using t1 t2 n by (simp_all add: g1 map_of_map_set)
  from add_lock_tables [OF l] n(4) fr obtain ol where
    lo: "map_of (locks g3) = (map_of (locks g))(?n := ol)" "ol \<noteq> None \<longleftrightarrow> ToolsLock u \<noteq> None" "g3 = ?g2\<lparr>locks := locks g3\<rparr>"
    by auto
  have "scanners g3 = scanners ?g2" using arg_cong [OF lo(3), of scanners] by simp
  with add_scanner_tables [OF s] n(5) fr obtain os where
    sc: "map_of (scanners g4) = (map_of (scanners g))(?n := os)"
      "os \<noteq> None \<longleftrightarrow> (\<exists>c. PromptProof u = Some c \<and> ppEnabled c)" "g4 = g3\<lparr>scanners := scanners g4\<rparr>"
    by auto
  have f3: "policies g3 = policies ?g2" "limits g3 = limits ?g2" "sessionLimits g3 = sessionLimits ?g2" "routes g3 = routes ?g2"
    "upstreams g3 = upstreams ?g2"
    using arg_cong [OF lo(3), of policies] arg_cong [OF lo(3), of limits] arg_cong [OF lo(3), of sessionLimits]
      arg_cong [OF lo(3), of routes] arg_cong [OF lo(3), of upstreams] by simp_all
  have f4: "policies g4 = policies ?g2" "limits g4 = limits ?g2" "sessionLimits g4 = sessionLimits ?g2" "routes g4 = routes ?g2"
    "upstreams g4 = upstreams ?g2" "locks g4 = locks g3"
    using f3 arg_cong [OF sc(3), of policies] arg_cong [OF sc(3), of limits] arg_cong [OF sc(3), of sessionLimits]
      arg_cong [OF sc(3), of routes] arg_cong [OF sc(3), of upstreams] arg_cong [OF sc(3), of locks] by simp_all
  show "map_of (upstreams g4) = (map_of (upstreams g))(Name u \<mapsto> u)" using f4(5) us by simp
  have own: "own_limit clk u \<noteq> None \<longleftrightarrow> (\<exists>r. RateLimit u = Some r \<and> \<not> PerSession r)"
    "own_session u \<noteq> None \<longleftrightarrow> (\<exists>r. RateLimit u = Some r \<and> PerSession r)"
    by (auto simp: own_limit_def own_session_def split: option.splits)
  have oks: "\<forall>b. own_limit clk u = Some b \<longrightarrow> bucket_ok b" "\<forall>l. own_session u = Some l \<longrightarrow> session_ok l"
    using rate by (auto simp: own_limit_def own_session_def newTokenBucket_ok newSessionLimiter_ok split: option.splits if_splits)
  have tab: "upstream_tables g4 ?n u"
    unfolding upstream_tables_def f4 p li se lo(1) sc(1) using own lo(2) sc(2) by simp
  show "gateway_ok g4" using gateway_ok_extend [OF g _ _ _ _ _ _ _ tab oks] f4 p li se ro us lo(1) sc(1) by simp
qed

lemma add_upstreams_ok:
  assumes "gateway_ok g" "distinct (map Name us)" "\<forall>u \<in> set us. map_of (upstreams g) (Name u) = None"
    and "\<forall>u \<in> set us. \<forall>r. RateLimit u = Some r \<longrightarrow> 0 < RequestsPerSecond r \<and> 1 \<le> Burst r"
    and "add_upstreams env cache g us = (Inr g', run)"
  shows "gateway_ok g' \<and> ran (map_of (upstreams g')) = ran (map_of (upstreams g)) \<union> set us"
  using assms
proof (induction us arbitrary: g cache)
  case Nil
  then show ?case by simp
next
  case (Cons u us)
  obtain target where t: "seURL env (URL u) = Some target" using Cons.prems(5) by (auto split: option.splits)
  let ?g1 = "g\<lparr>routes := map_set (Name u) target (routes g), upstreams := map_set (Name u) u (upstreams g)\<rparr>"
  obtain g3 cache1 where l: "add_lock env u cache (add_policy u (add_limits (seClock env) u ?g1)) = (Inr g3, cache1)"
    using Cons.prems(5) t by (auto simp: Let_def split: prod.splits sum.splits)
  obtain g4 where sc: "add_scanner env u g3 = Inr g4"
    using Cons.prems(5) t l by (auto simp: Let_def split: sum.splits)
  have rest: "add_upstreams env cache1 g4 us = (Inr g', run)" using Cons.prems(5) t l sc by (simp add: Let_def)
  have new: "map_of (upstreams g) (Name u) = None" using Cons.prems(3) by simp
  have rate: "\<forall>r. RateLimit u = Some r \<longrightarrow> 0 < RequestsPerSecond r \<and> 1 \<le> Burst r" using Cons.prems(4) by simp
  note st = add_upstream_ok [OF Cons.prems(1) new rate refl l sc]
  have "Name v \<noteq> Name u" if "v \<in> set us" for v using Cons.prems(2) that by (metis distinct.simps(2) imageI list.set_map list.simps(9))
  then have "\<forall>v \<in> set us. map_of (upstreams g4) (Name v) = None" using Cons.prems(3) st(2) by simp
  with Cons.IH [OF st(1) _ _ _ rest] Cons.prems(2,4)
  have "gateway_ok g'" "ran (map_of (upstreams g')) = ran (map_of (upstreams g4)) \<union> set us" by auto
  then show ?case using new by (simp add: st(2))
qed

lemma distinct_lower: "distinct (map (ToLower \<circ> Name) us) \<Longrightarrow> distinct (map Name us)"
  by (auto simp: distinct_map comp_inj_on_iff inj_on_def)

lemma New_ok:
  assumes "New env cfg aud = (Inr g, run)"
  shows "gateway_ok g \<and> ran (map_of (upstreams g)) = set (Upstreams cfg)"
proof -
  obtain a c where c: "aud = Some a" "Validate (seURL env) cfg = Inr c"
    using assms by (auto simp: New_def split: option.splits sum.splits)
  let ?g = "\<lparr>gCfg = c, gAuditor = a, routes = [], upstreams = [], limits = [], sessionLimits = [], policies = [], locks = [], scanners = []\<rparr>"
  have up: "Upstreams c = Upstreams cfg" and ok: "\<forall>u \<in> set (Upstreams cfg). upstream_ok (seURL env) u"
    and dis: "distinct (map Name (Upstreams cfg))"
    using c(2) distinct_lower by (auto simp: Validate_Inr)
  have run: "add_upstreams env Map.empty ?g (Upstreams cfg) = (Inr g, run)" using assms c up by (simp add: New_def)
  have "gateway_ok ?g" by (simp add: gateway_ok_def)
  from add_upstreams_ok [OF this dis _ _ run] ok show ?thesis by (simp add: upstream_ok_def)
qed

subsection \<open>Requests keep the tables\<close>

lemma map_of_set_dom: "map_of m n = Some v \<Longrightarrow> dom (map_of (map_set n w m)) = dom (map_of m)"
  by (auto simp: map_of_map_set split: if_splits)

definition same_tables :: "Gateway \<Rightarrow> Gateway \<Rightarrow> bool" where
  "same_tables g g' \<longleftrightarrow> routes g' = routes g \<and> upstreams g' = upstreams g \<and> policies g' = policies g \<and> locks g' = locks g \<and>
     scanners g' = scanners g \<and> gCfg g' = gCfg g \<and> dom (map_of (limits g')) = dom (map_of (limits g)) \<and>
     dom (map_of (sessionLimits g')) = dom (map_of (sessionLimits g))"

lemma same_tables_ok:
  assumes "gateway_ok g" "same_tables g g'" "\<forall>n b. map_of (limits g') n = Some b \<longrightarrow> bucket_ok b"
    "\<forall>n l. map_of (sessionLimits g') n = Some l \<longrightarrow> session_ok l"
  shows "gateway_ok g'"
proof -
  have "map_of (limits g') n = None \<longleftrightarrow> map_of (limits g) n = None"
    "map_of (sessionLimits g') n = None \<longleftrightarrow> map_of (sessionLimits g) n = None" for n
    using assms(2) unfolding same_tables_def by (metis domIff)+
  then show ?thesis using assms unfolding gateway_ok_def same_tables_def upstream_tables_def by simp
qed

lemma limiter_allow_tables:
  assumes "limiter_allow env n rq g = (r, g')"
  shows "same_tables g g'" "gAuditor g' = gAuditor g"
    "gateway_ok g \<Longrightarrow> visits_all (reRt env) \<Longrightarrow> gateway_ok g'"
proof -
  consider l l' where "map_of (sessionLimits g) n = Some l" "g' = g\<lparr>sessionLimits := map_set n l' (sessionLimits g)\<rparr>"
      "session_allow (reArch env) (reRt env) (reClock env) (header_get (rqHeader rq) ''Mcp-Session-Id'') l = (r, l')"
    | b b' where "map_of (limits g) n = Some b" "g' = g\<lparr>limits := map_set n b' (limits g)\<rparr>"
      "bucket_allow (reArch env) (taken (reClock env)) b = (r, b')"
    | "g' = g"
    using assms by (auto simp: limiter_allow_def split: option.splits prod.splits)
  then have "same_tables g g' \<and> gAuditor g' = gAuditor g \<and> (gateway_ok g \<longrightarrow> visits_all (reRt env) \<longrightarrow> gateway_ok g')"
  proof cases
    case 1
    then have s: "same_tables g g'" by (simp add: same_tables_def map_of_set_dom)
    have "session_ok l'" if "gateway_ok g" "visits_all (reRt env)"
      using session_allow_ok [OF _ _ 1(3)] that 1(1) by (auto simp: gateway_ok_def)
    then have "gateway_ok g'" if "gateway_ok g" "visits_all (reRt env)"
      using that by (intro same_tables_ok [OF _ s]) (auto simp: 1(2) map_of_map_set gateway_ok_def)
    with s 1(2) show ?thesis by simp
  next
    case 2
    then have s: "same_tables g g'" by (simp add: same_tables_def map_of_set_dom)
    have "bucket_ok b'" if "gateway_ok g"
      using bucket_allow_ok [OF _ 2(3)] that 2(1) by (auto simp: gateway_ok_def)
    then have "gateway_ok g'" if "gateway_ok g"
      using that by (intro same_tables_ok [OF _ s]) (auto simp: 2(2) map_of_map_set gateway_ok_def)
    with s 2(2) show ?thesis by simp
  next
    case 3
    then show ?thesis by (simp add: same_tables_def)
  qed
  then show "same_tables g g'" "gAuditor g' = gAuditor g" "gateway_ok g \<Longrightarrow> visits_all (reRt env) \<Longrightarrow> gateway_ok g'" by auto
qed

lemma log_entry_ok [simp]: "gateway_ok (log_entry env e g) = gateway_ok g" "upstreams (log_entry env e g) = upstreams g"
  "gAuditor (log_entry env e g) = Log (reSink env) e (gAuditor g)"
  by (simp_all add: gateway_ok_def upstream_tables_def log_entry_def)

lemma forward_request_ok:
  "forward_request env n t rq c g = (s, g') \<Longrightarrow> gateway_ok g' = gateway_ok g \<and> upstreams g' = upstreams g"
  by (auto simp: forward_request_def Let_def split: prod.splits if_splits)

lemma handleProxyE:
  assumes "handleProxy env rq c g = (s, g')"
  obtains (unknown) e where "map_of (routes g) (route_name (rqPath rq)) = None" "g' = log_entry env e g"
      "s = \<lparr>svConn = writeJSONError 404 (- 32001) ''unknown upstream'' c, svEntries = [e], svOut = None, svAborted = False\<rparr>"
      "e = zero_entry\<lparr>eTime := reNow env, eRemote := rqRemoteAddr rq, eHTTPMethod := rqMethod rq,
         ePath := rqPath rq, eStatus := 404, eError := ''unknown upstream''\<rparr>"
    | (limited) t w g1 e where "map_of (routes g) (route_name (rqPath rq)) = Some t"
      "limiter_allow env (route_name (rqPath rq)) rq g = ((False, w), g1)" "g' = log_entry env e g1"
      "s = \<lparr>svConn = writeJSONError 429 (- 32002) ''rate limited'' (conn_Set ''Retry-After'' (Itoa (retry_secs w)) c),
         svEntries = [e], svOut = None, svAborted = False\<rparr>"
      "e = (request_entry env (route_name (rqPath rq)) rq)\<lparr>eStatus := 429, eError := ''rate limited''\<rparr>"
    | (admitted) t w g1 where "map_of (routes g) (route_name (rqPath rq)) = Some t"
      "limiter_allow env (route_name (rqPath rq)) rq g = ((True, w), g1)"
      "forward_request env (route_name (rqPath rq)) t rq c g1 = (s, g')"
proof (cases "map_of (routes g) (route_name (rqPath rq))")
  case None
  show ?thesis by (rule unknown [OF None _ _ refl]) (use assms None in \<open>simp_all add: handleProxy_def Let_def\<close>)
next
  case (Some t)
  obtain ok w g1 where l: "limiter_allow env (route_name (rqPath rq)) rq g = ((ok, w), g1)" by (metis prod.exhaust)
  show ?thesis
  proof (cases ok)
    case True
    then have l': "limiter_allow env (route_name (rqPath rq)) rq g = ((True, w), g1)" using l by simp
    then have "forward_request env (route_name (rqPath rq)) t rq c g1 = (s, g')" using assms Some by (simp add: handleProxy_def Let_def)
    with l' show ?thesis by (rule admitted [OF Some])
  next
    case False
    then have l': "limiter_allow env (route_name (rqPath rq)) rq g = ((False, w), g1)" using l by simp
    show ?thesis by (rule limited [OF Some l' _ _ refl]) (use assms Some l' in \<open>simp_all add: handleProxy_def Let_def\<close>)
  qed
qed

lemma ServeHTTP_ok:
  assumes "ServeHTTP env rq c g = (s, g')" "gateway_ok g" "visits_all (reRt env)"
  shows "gateway_ok g' \<and> upstreams g' = upstreams g"
proof -
  have p: "gateway_ok g1 \<and> upstreams g1 = upstreams g" if h: "handleProxy env rq c g = (s1, g1)" for s1 g1
    using h
  proof (cases rule: handleProxyE)
    case unknown
    then show ?thesis using assms(2) by simp
  next
    case (limited t w g2 e)
    then show ?thesis using limiter_allow_tables [OF limited(2)] assms(2,3) by (simp add: same_tables_def)
  next
    case (admitted t w g2)
    then show ?thesis using limiter_allow_tables [OF admitted(2)] forward_request_ok [OF admitted(3)] assms(2,3)
      by (simp add: same_tables_def)
  qed
  show ?thesis using assms(1,2) p by (auto simp: ServeHTTP_def Let_def split: if_splits)
qed

text \<open>A served request as an operation on the gateway.\<close>

definition serve_op :: "req_env \<times> httpRequest \<times> nat option \<Rightarrow> Gateway \<Rightarrow> served \<times> Gateway" where
  "serve_op q g = (case q of (env, rq, room) \<Rightarrow> ServeHTTP env rq (new_conn room) g)"

interpretation gateway: preserves serve_op "\<lambda>g. gateway_ok g \<and> upstreams g = us" "\<lambda>q. visits_all (reRt (fst q))" for us
  by unfold_locales (auto simp: serve_op_def dest: ServeHTTP_ok split: prod.splits)


text \<open>A gateway in front of one upstream, used in the examples.\<close>

definition demo_start :: start_env where
  "demo_start = \<lparr>seURL = demo_url, seFile = (\<lambda>_. None), seClock = (\<lambda>_. 0), seSpawn = (\<lambda>_ _. None)\<rparr>"

definition demo_gateway :: Gateway where
  "demo_gateway = (case New demo_start demo_config (Some NewAuditorWriter) of (Inr g, _) \<Rightarrow> g | (Inl _, _) \<Rightarrow> undefined)"

lemma demo_gateway_New: "\<exists>run. New demo_start demo_config (Some NewAuditorWriter) = (Inr demo_gateway, run)"
proof -
  have "case fst (New demo_start demo_config (Some NewAuditorWriter)) of Inl _ \<Rightarrow> False | Inr _ \<Rightarrow> True" by code_simp
  then show ?thesis by (cases "New demo_start demo_config (Some NewAuditorWriter)") (auto simp: demo_gateway_def split: sum.splits)
qed


subsection \<open>Auditing\<close>

lemma mcp_ServeHTTP: "HasPrefix (rqPath rq) ''/mcp/'' \<Longrightarrow> ServeHTTP env rq c g = handleProxy env rq c g"
  by (auto simp: ServeHTTP_def HasPrefix_def wellKnownPrefix_def prefix_def)

lemma forward_requestE:
  assumes "forward_request env n t rq c g = (s, g')"
  obtains (blocked) buffered sm berr body e where "peek_body rq = (buffered, sm, berr, body)"
      "blockReason (map_of (policies g) n) sm \<noteq> []" "g' = log_entry env e g"
      "s = \<lparr>svConn = writeJSONError 403 (- 32003) (blockReason (map_of (policies g) n) sm) c, svEntries = [e], svOut = None, svAborted = False\<rparr>"
      "e = (with_summary sm (request_entry env n rq))\<lparr>eStatus := 403, eBytesIn := int buffered,
         eDurationUS := reDuration env, eError := blockReason (map_of (policies g) n) sm\<rparr>"
    | (proxied) buffered sm berr body p e where "peek_body rq = (buffered, sm, berr, body)"
      "blockReason (map_of (policies g) n) sm = []"
      "p = proxy_ServeHTTP (reRt env) (reExchange env) t n
         (rewrite_state (map_of (policies g) n) (map_of (locks g) n) (map_of (scanners g) n) sm) rq body
         \<lparr>cwConn = c, cwStatus = 0, cwWritten = 0\<rparr>"
      "e = response_entry (pxWriter p) (pxErr p) (pxState p) ((with_summary sm ((request_entry env n rq)\<lparr>eError := berr\<rparr>))
         \<lparr>eBytesIn := int (buffered + (min (exBodyRead (reExchange env) (pxOut p)) (length body) - buffered)),
          eDurationUS := reDuration env\<rparr>)"
      "g' = (if pxAborted p then g else log_entry env e g)"
      "s = \<lparr>svConn = cwConn (pxWriter p), svEntries = (if pxAborted p then [] else [e]), svOut = Some (pxOut p), svAborted = pxAborted p\<rparr>"
proof -
  obtain buffered sm berr body where pk: "peek_body rq = (buffered, sm, berr, body)" by (metis prod_cases4)
  show ?thesis
  proof (cases "blockReason (map_of (policies g) n) sm = []")
    case True
    show ?thesis by (rule proxied [OF pk True refl refl]) (use assms pk True in \<open>auto simp: forward_request_def Let_def split: if_splits\<close>)
  next
    case False
    show ?thesis by (rule blocked [OF pk False _ _ refl]) (use assms pk False in \<open>auto simp: forward_request_def Let_def with_summary_def\<close>)
  qed
qed

text \<open>The fields that name the request.\<close>

definition names_request :: "req_env \<Rightarrow> httpRequest \<Rightarrow> Entry \<Rightarrow> bool" where
  "names_request env rq e \<longleftrightarrow> eTime e = reNow env \<and> eRemote e = rqRemoteAddr rq \<and> eHTTPMethod e = rqMethod rq \<and> ePath e = rqPath rq"

lemma response_entry_keeps [simp]:
  "eTime (response_entry w er st e) = eTime e" "eRemote (response_entry w er st e) = eRemote e"
  "eHTTPMethod (response_entry w er st e) = eHTTPMethod e" "ePath (response_entry w er st e) = ePath e"
  by (simp_all add: response_entry_def Let_def split: option.splits)

lemma names_request_forward: "forward_request env n t rq c g = (s, g') \<Longrightarrow> e \<in> set (svEntries s) \<Longrightarrow> names_request env rq e"
  by (elim forward_requestE) (auto simp: names_request_def with_summary_def request_entry_def split: if_splits)

text \<open>
  C4. Every request under \<^verbatim>\<open>/mcp/\<close> is audited exactly once, whether it was refused, blocked, failed or
  forwarded, and the entry names it; the only exception is a request whose response broke off while
  it was copied to the client, for which nothing is logged.
\<close>

theorem audited_once:
  assumes "HasPrefix (rqPath rq) ''/mcp/''" "ServeHTTP env rq c g = (s, g')"
  shows "if svAborted s then svEntries s = [] \<and> gAuditor g' = gAuditor g \<and> svOut s \<noteq> None
    else \<exists>e. svEntries s = [e] \<and> gAuditor g' = Log (reSink env) e (gAuditor g) \<and> names_request env rq e"
proof -
  have "handleProxy env rq c g = (s, g')" using assms by (simp add: mcp_ServeHTTP)
  then show ?thesis
  proof (cases rule: handleProxyE)
    case unknown
    then show ?thesis by (simp add: names_request_def)
  next
    case (limited t w g1 e)
    then show ?thesis using limiter_allow_tables(2) [OF limited(2)] by (simp add: names_request_def request_entry_def)
  next
    case (admitted t w g1)
    have a: "gAuditor g1 = gAuditor g" using limiter_allow_tables(2) [OF admitted(2)] .
    from admitted(3) show ?thesis
    proof (cases rule: forward_requestE)
      case (blocked buffered sm berr body e)
      then show ?thesis using a names_request_forward [OF admitted(3)] by simp
    next
      case (proxied buffered sm berr body p e)
      then show ?thesis using a names_request_forward [OF admitted(3)] by (simp split: if_splits)
    qed
  qed
qed

text \<open>What the examples below share: a request to the demo gateway and an upstream that answers it.\<close>

definition demo_request :: "bytes \<Rightarrow> httpRequest" where
  "demo_request body = \<lparr>rqMethod = ''POST'', rqPath = ''/mcp/fs/x'', rqRawQuery = [], rqHost = ''g'', rqRemoteAddr = ''1.2.3.4:5'',
     rqHeader = (\<lambda>_. []), rqBody = Some body, rqBodyErr = None\<rparr>"

definition demo_response :: httpResponse where
  "demo_response = \<lparr>rStatusCode = 200, rStatus = ''200 OK'', rHeader = (\<lambda>k. if k = ''Content-Type'' then [''application/json''] else []),
     rBody = ''{}'', rBodyErr = False, rContentLength = 2, rTransferEncoding = []\<rparr>"

definition demo_exchange :: "int list \<Rightarrow> httpResponse \<Rightarrow> exchange" where
  "demo_exchange infos r = \<lparr>exHeader = rqHeader, exRoundTrip = (\<lambda>_. Inr (infos, r)), exHop = (\<lambda>h. h), exChunks = (\<lambda>b. [b]),
     exReadErr = ''unexpected EOF'', exBodyRead = (\<lambda>out. length (oBody out))\<rparr>"

definition demo_env :: "exchange \<Rightarrow> req_env" where
  "demo_env ex = \<lparr>reRt = rt0, reArch = amd64, reClock = read_at 0, reNow = ''now'', reDuration = 1500,
     reSink = (\<lambda>l. (length l, None)), reExchange = ex\<rparr>"

abbreviation demo_serve :: "exchange \<Rightarrow> bytes \<Rightarrow> served" where
  "demo_serve ex body \<equiv> fst (ServeHTTP (demo_env ex) (demo_request body) (new_conn None) demo_gateway)"

theorem audited_once_witness: "\<exists>e. svEntries (demo_serve (demo_exchange [] demo_response) ''{}'') = [e] \<and> ePath e = ''/mcp/fs/x''"
proof -
  have a: "\<not> svAborted (demo_serve (demo_exchange [] demo_response) ''{}'')" by code_simp
  have p: "HasPrefix (rqPath (demo_request ''{}'')) ''/mcp/''" by code_simp
  from audited_once [OF p prod.collapse [symmetric], of "demo_env (demo_exchange [] demo_response)" "new_conn None" demo_gateway] a
  show ?thesis by (auto simp: names_request_def demo_request_def)
qed


text \<open>An informational status is recorded as the status of the response.\<close>

lemma informational_status_audited:
  "map eStatus (svEntries (demo_serve (demo_exchange [103] demo_response) ''{}'')) = [103] \<and>
   map_option fst (ccFinal (svConn (demo_serve (demo_exchange [103] demo_response) ''{}''))) = Some 200"
  by code_simp

text \<open>The body of an error the gateway writes itself is not counted.\<close>

lemma error_body_not_counted:
  "map eBytesOut (svEntries (fst (ServeHTTP (demo_env (demo_exchange [] demo_response))
      ((demo_request [])\<lparr>rqPath := ''/mcp/none''\<rparr>) (new_conn None) demo_gateway))) = [0] \<and>
   ccBody (svConn (fst (ServeHTTP (demo_env (demo_exchange [] demo_response))
      ((demo_request [])\<lparr>rqPath := ''/mcp/none''\<rparr>) (new_conn None) demo_gateway))) \<noteq> []"
  by code_simp

end
