(* ===== verification/Serving.thy ===== *)
theory Serving
  imports Handling
begin

text \<open>
  What reaches the upstream, the client and the audit log when the gateway serves a request: calls
  of allowed tools only, to the configured target only; nothing at all when a limiter refuses; an
  entry that tells what the client got and holds nothing of the parameters.
\<close>

subsection \<open>What reaches the upstream\<close>

lemma forwardedE:
  assumes "ServeHTTP env rq c g = (s, g')" "svOut s = Some out"
  obtains t w g1 buffered sm berr body p where "HasPrefix (rqPath rq) ''/mcp/''"
    "map_of (routes g) (route_name (rqPath rq)) = Some t"
    "limiter_allow env (route_name (rqPath rq)) rq g = ((True, w), g1)"
    "peek_body rq = (buffered, sm, berr, body)"
    "blockReason (map_of (policies g) (route_name (rqPath rq))) sm = []"
    "p = proxy_ServeHTTP (reRt env) (reExchange env) t (route_name (rqPath rq))
       (rewrite_state (map_of (policies g) (route_name (rqPath rq))) (map_of (locks g) (route_name (rqPath rq)))
         (map_of (scanners g) (route_name (rqPath rq))) sm) rq body \<lparr>cwConn = c, cwStatus = 0, cwWritten = 0\<rparr>"
    "out = pxOut p" "svConn s = cwConn (pxWriter p)" "svAborted s = pxAborted p"
    "svEntries s = (if pxAborted p then [] else [response_entry (pxWriter p) (pxErr p) (pxState p)
       ((with_summary sm ((request_entry env (route_name (rqPath rq)) rq)\<lparr>eError := berr\<rparr>))
         \<lparr>eBytesIn := int (buffered + (min (exBodyRead (reExchange env) (pxOut p)) (length body) - buffered)),
          eDurationUS := reDuration env\<rparr>)])"
proof -
  have m: "HasPrefix (rqPath rq) ''/mcp/''" "handleProxy env rq c g = (s, g')"
    using assms by (auto simp: ServeHTTP_def Let_def split: if_splits)
  from m(2) show ?thesis
  proof (cases rule: handleProxyE)
    case (admitted t w g1)
    have st: "same_tables g g1" using limiter_allow_tables(1) [OF admitted(2)] .
    from admitted(3) show ?thesis
    proof (cases rule: forward_requestE)
      case (proxied buffered sm berr body p e)
      show ?thesis by (rule that [OF m(1) admitted(1,2) proxied(1), of p]) (use st proxied assms(2) in \<open>simp_all add: same_tables_def\<close>)
    qed (use assms(2) in simp)
  qed (use assms(2) in simp_all)
qed

lemma peek_body_valid:
  assumes "peek_body rq = (buffered, sm, berr, body)" "\<not> Invalid sm"
  shows "sm = summarizeRPC body" "body = (case rqBody rq of None \<Rightarrow> [] | Some b \<Rightarrow> b)" "length body \<le> maxRPCPeek" "buffered = length body"
  using assms by (auto simp: peek_body_def summarizeRPC_def split: option.splits if_splits)

lemma pxOut_rewrite: "pxOut (proxy_ServeHTTP rt ex t n ost rq body w) = proxy_rewrite t n (exHeader ex rq) (ost \<noteq> None) rq body"
  by (auto simp: proxy_ServeHTTP_def Let_def split: sum.splits prod.splits option.splits)

text \<open>
  C2. Only allowed calls reach an upstream with an allowlist: whatever request a client sends, the body
  that is forwarded is its body, is not longer than the cap, and every \<^verbatim>\<open>tools/call\<close> message in it,
  alone or in a batch, names a tool of the allowlist.
\<close>

theorem forwarded_calls_allowed:
  assumes "gateway_ok g" "map_of (upstreams g) (route_name (rqPath rq)) = Some u" "ToolsAllow u \<noteq> []"
    and "ServeHTTP env rq c g = (s, g')" "svOut s = Some out"
  shows "oBody out = (case rqBody rq of None \<Rightarrow> [] | Some b \<Rightarrow> b) \<and> length (oBody out) \<le> maxRPCPeek \<and>
    (\<forall>m \<in> set (messages (oBody out)). Method m = ''tools/call'' \<longrightarrow>
       (\<exists>n \<in> set (ToolsAllow u). tool_name (Params m) = Some n))"
  using assms(4,5)
proof (cases rule: forwardedE)
  case (1 t w g1 buffered sm berr body p)
  have pol: "map_of (policies g) (route_name (rqPath rq)) = newToolPolicy u"
    using assms(1,2) by (simp add: gateway_ok_def upstream_tables_def)
  then have nb: "blockReason (newToolPolicy u) sm = []" using 1(5) by simp
  then have v: "\<not> Invalid sm" by (simp add: blockReason_allow [OF assms(3)])
  note pb = peek_body_valid [OF 1(4) v]
  have "oBody out = body" using 1(6,7) by (simp add: pxOut_rewrite proxy_rewrite_def)
  then show ?thesis using pb nb allowlist_passes [OF assms(3), of body] by simp
qed

subsection \<open>Where it goes\<close>

lemma route_path:
  assumes "HasPrefix path ''/mcp/''"
  obtains sfx where "path = ''/mcp/'' @ route_name path @ sfx" "sfx = [] \<or> (\<exists>r. sfx = CHR ''/'' # r)"
    "TrimPrefix path (''/mcp/'' @ route_name path) = sfx"
proof -
  obtain p where p: "path = ''/mcp/'' @ p" using assms by (auto simp: HasPrefix_def prefix_def)
  have t: "TrimPrefix path ''/mcp/'' = p" by (simp add: TrimPrefix_def p)
  let ?s = "dropWhile (\<lambda>x. x \<noteq> CHR ''/'') p"
  have n: "route_name path = takeWhile (\<lambda>x. x \<noteq> CHR ''/'') p"
  proof (cases ?s)
    case Nil
    then have "takeWhile (\<lambda>x. x \<noteq> CHR ''/'') p = p" using takeWhile_dropWhile_id [of "\<lambda>x. x \<noteq> CHR ''/''" p] by (simp only: append_Nil2)
    then show ?thesis by (simp only: route_name_def t Cut_def Nil list.case fst_conv)
  next
    case (Cons x r)
    then show ?thesis by (simp only: route_name_def t Cut_def list.case fst_conv)
  qed
  have e: "path = ''/mcp/'' @ route_name path @ ?s" unfolding n by (simp add: p)
  have "?s = [] \<or> (\<exists>r. ?s = CHR ''/'' # r)" using hd_dropWhile [of "\<lambda>x. x \<noteq> CHR ''/''" p] by (cases ?s) auto
  moreover have "TrimPrefix path (''/mcp/'' @ route_name path) = ?s"
  proof -
    have "path = (''/mcp/'' @ route_name path) @ ?s" using e by simp
    then show ?thesis unfolding TrimPrefix_def by (metis append_eq_conv_conj prefix_def)
  qed
  ultimately show ?thesis using that e by blast
qed

lemma joinPath_under: "prefix (TrimSuffix base ''/'') (joinPath base sfx)"
  by (auto simp: joinPath_def Let_def)

text \<open>
  C31. A request is forwarded only to the configured target of the upstream its path names: scheme and
  host are the target's, and the path is the target's path followed by what comes after
  \<^verbatim>\<open>/mcp/<name>\<close>, with one slash between them.
\<close>

theorem forwarded_to_target:
  assumes "ServeHTTP env rq c g = (s, g')" "svOut s = Some out"
  shows "\<exists>t sfx. map_of (routes g) (route_name (rqPath rq)) = Some t \<and> rqPath rq = ''/mcp/'' @ route_name (rqPath rq) @ sfx \<and>
    oScheme out = urlScheme t \<and> oURLHost out = urlHost t \<and> oHost out = urlHost t \<and> oRawQuery out = rqRawQuery rq \<and>
    oPath out = (let base = TrimSuffix (urlPath t) ''/'' in
      if sfx = [] \<or> sfx = ''/'' then (if base = [] then ''/'' else base) else base @ sfx)"
  using assms
proof (cases rule: forwardedE)
  case (1 t w g1 buffered sm berr body p)
  obtain sfx where sf: "rqPath rq = ''/mcp/'' @ route_name (rqPath rq) @ sfx" "sfx = [] \<or> (\<exists>r. sfx = CHR ''/'' # r)"
    "TrimPrefix (rqPath rq) (''/mcp/'' @ route_name (rqPath rq)) = sfx" using route_path [OF 1(1)] by metis
  have o: "out = proxy_rewrite t (route_name (rqPath rq)) (exHeader (reExchange env) rq)
      (rewrite_state (map_of (policies g) (route_name (rqPath rq))) (map_of (locks g) (route_name (rqPath rq)))
         (map_of (scanners g) (route_name (rqPath rq))) sm \<noteq> None) rq body"
    using 1(6,7) by (simp only: pxOut_rewrite)
  have "oPath out = joinPath (urlPath t) sfx" unfolding o proxy_rewrite_def outRequest.select_convs sf(3) ..
  also have "\<dots> = (let base = TrimSuffix (urlPath t) ''/'' in
      if sfx = [] \<or> sfx = ''/'' then (if base = [] then ''/'' else base) else base @ sfx)"
    using sf(2) by (auto simp: joinPath_def Let_def HasPrefix_def)
  finally show ?thesis using 1(2) sf(1) by (intro exI [of _ t] exI [of _ sfx]) (simp add: o proxy_rewrite_def)
qed

definition allow_gateway :: Gateway where
  "allow_gateway = demo_gateway\<lparr>upstreams := [(''fs'', zero_upstream\<lparr>Name := ''fs'', URL := ''http://h'', ToolsAllow := [''a'']\<rparr>)],
     policies := [(''fs'', \<lparr>allow = tool_set [''a''], deny = None\<rparr>)]\<rparr>"

lemma demo_tables: "routes demo_gateway = [(''fs'', \<lparr>urlScheme = ''http'', urlHost = ''h'', urlPath = [], urlRawQuery = [], urlFragment = []\<rparr>)]"
  "limits demo_gateway = []" "sessionLimits demo_gateway = []" "locks demo_gateway = []" "scanners demo_gateway = []"
  "policies demo_gateway = []"
  by code_simp+

lemma allow_gateway_ok: "gateway_ok allow_gateway"
  by (auto simp: gateway_ok_def upstream_tables_def allow_gateway_def demo_tables newToolPolicy_def zero_upstream_def tool_set_def)

abbreviation allow_serve :: "bytes \<Rightarrow> served" where
  "allow_serve body \<equiv> fst (ServeHTTP (demo_env (demo_exchange [] demo_response)) (demo_request body) (new_conn None) allow_gateway)"

definition call_text :: "bytes \<Rightarrow> bytes" where
  "call_text tool = ''{'' @ marshal_string ''method'' @ '':'' @ marshal_string ''tools/call'' @ '','' @ marshal_string ''params'' @ '':'' @
     ''{'' @ marshal_string ''name'' @ '':'' @ marshal_string tool @ ''}}''"

theorem forwarded_calls_allowed_witness:
  "svOut (allow_serve (call_text ''b'')) = None \<and> (\<exists>out. svOut (allow_serve (call_text ''a'')) = Some out \<and> length (oBody out) \<le> maxRPCPeek)"
proof -
  have b: "svOut (allow_serve (call_text ''b'')) = None" by code_simp
  have "svOut (allow_serve (call_text ''a'')) \<noteq> None" by code_simp
  then obtain out where out: "svOut (allow_serve (call_text ''a'')) = Some out" by blast
  have u: "map_of (upstreams allow_gateway) (route_name (rqPath (demo_request (call_text ''a'')))) =
      Some (zero_upstream\<lparr>Name := ''fs'', URL := ''http://h'', ToolsAllow := [''a'']\<rparr>)"
    by (simp add: allow_gateway_def demo_request_def route_name_def TrimPrefix_def Cut_def)
  have "ToolsAllow (zero_upstream\<lparr>Name := ''fs'', URL := ''http://h'', ToolsAllow := [''a'']\<rparr>) \<noteq> []" by simp
  from forwarded_calls_allowed [OF allow_gateway_ok u this prod.collapse [symmetric] out] b out show ?thesis by blast
qed

theorem forwarded_to_target_witness:
  "map_option oPath (svOut (allow_serve ''{}'')) = Some ''/x'' \<and> map_option oHost (svOut (allow_serve ''{}'')) = Some ''h''"
proof -
  have "svOut (allow_serve ''{}'') \<noteq> None" by code_simp
  then obtain out where out: "svOut (allow_serve ''{}'') = Some out" by blast
  have r: "rqPath (demo_request ''{}'') = ''/mcp/fs/x''" "route_name ''/mcp/fs/x'' = ''fs''" by code_simp+
  from forwarded_to_target [OF prod.collapse [symmetric] out] obtain t sfx where
    t: "map_of (routes allow_gateway) ''fs'' = Some t" "''/mcp/fs/x'' = ''/mcp/'' @ ''fs'' @ sfx" "oHost out = urlHost t"
      "oPath out = (let base = TrimSuffix (urlPath t) ''/'' in
        if sfx = [] \<or> sfx = ''/'' then (if base = [] then ''/'' else base) else base @ sfx)"
    unfolding r by blast
  from t(1) have "urlPath t = []" "urlHost t = ''h''" by (auto simp: allow_gateway_def demo_tables)
  with t out show ?thesis by (auto simp: TrimSuffix_def Let_def)
qed

subsection \<open>Refused requests\<close>

lemma writeJSONError_final:
  "ccFinal c = None \<Longrightarrow> \<not> (100 \<le> st \<and> st \<le> 199) \<Longrightarrow>
     ccFinal (writeJSONError st code msg c) = Some (st, (ccHeader c)(''Content-Type'' := [''application/json'']))"
  by (auto simp: writeJSONError_def conn_WriteHeader_def conn_Set_def conn_Write_def Let_def)

lemma retry_secs_ge: "1 \<le> retry_secs w"
  by (simp add: retry_secs_def Let_def)

lemma limiter_allow_body [simp]: "limiter_allow env n (rq\<lparr>rqBody := b, rqBodyErr := e\<rparr>) g = limiter_allow env n rq g"
  by (simp add: limiter_allow_def split: option.split)

text \<open>
  C23. A request the limiter refuses is answered before its body is read: it is not forwarded, the answer
  is 429 with a \<^verbatim>\<open>Retry-After\<close> of at least one second, the entry has no metadata of the body, and
  nothing in the outcome depends on the body.
\<close>

theorem limited_before_body:
  assumes "HasPrefix (rqPath rq) ''/mcp/''" "map_of (routes g) (route_name (rqPath rq)) = Some t"
    and "limiter_allow env (route_name (rqPath rq)) rq g = ((False, w), g1)"
    and "ServeHTTP env rq (new_conn room) g = (s, g')"
  shows "svOut s = None \<and> \<not> svAborted s \<and>
    (\<exists>h k. ccFinal (svConn s) = Some (429, h) \<and> h ''Retry-After'' = [Itoa k] \<and> 1 \<le> k) \<and>
    map eRPCMethods (svEntries s) = [[]] \<and> map eTools (svEntries s) = [[]] \<and>
    (\<forall>b e. ServeHTTP env (rq\<lparr>rqBody := b, rqBodyErr := e\<rparr>) (new_conn room) g = (s, g'))"
proof -
  have h: "handleProxy env (rq\<lparr>rqBody := b, rqBodyErr := e\<rparr>) (new_conn room) g = handleProxy env rq (new_conn room) g" for b e
    using assms(2,3) by (simp add: handleProxy_def request_entry_def Let_def)
  have m: "handleProxy env rq (new_conn room) g = (s, g')" using assms(1,4) by (simp add: mcp_ServeHTTP)
  have p: "HasPrefix (rqPath (rq\<lparr>rqBody := b, rqBodyErr := e\<rparr>)) ''/mcp/''" for b e using assms(1) by simp
  have same: "\<forall>b e. ServeHTTP env (rq\<lparr>rqBody := b, rqBodyErr := e\<rparr>) (new_conn room) g = (s, g')"
    using h m p by (simp add: mcp_ServeHTTP)
  let ?c = "conn_Set ''Retry-After'' (Itoa (retry_secs w)) (new_conn room)"
  have s: "s = \<lparr>svConn = writeJSONError 429 (- 32002) ''rate limited'' ?c,
      svEntries = [(request_entry env (route_name (rqPath rq)) rq)\<lparr>eStatus := 429, eError := ''rate limited''\<rparr>], svOut = None, svAborted = False\<rparr>"
    using m assms(2,3) by (simp add: handleProxy_def Let_def)
  have "ccFinal (svConn s) = Some (429, (ccHeader ?c)(''Content-Type'' := [''application/json'']))"
    unfolding s served.select_convs by (rule writeJSONError_final) (simp_all add: conn_Set_def new_conn_def)
  moreover have "((ccHeader ?c)(''Content-Type'' := [''application/json''])) ''Retry-After'' = [Itoa (retry_secs w)]"
    by (simp add: conn_Set_def)
  ultimately have "\<exists>h k. ccFinal (svConn s) = Some (429, h) \<and> h ''Retry-After'' = [Itoa k] \<and> 1 \<le> k"
    using retry_secs_ge by blast
  then show ?thesis using same by (simp add: s request_entry_def zero_entry_def)
qed

definition limited_gateway :: Gateway where
  "limited_gateway = demo_gateway\<lparr>limits := [(''fs'', \<lparr>tbRps = 1, tbBurst = 1, tokens = 0, tbLast = 0\<rparr>)]\<rparr>"

theorem limited_before_body_witness:
  "svOut (fst (ServeHTTP (demo_env (demo_exchange [] demo_response)) (demo_request ''{}'') (new_conn None) limited_gateway)) = None"
proof -
  let ?env = "demo_env (demo_exchange [] demo_response)" and ?rq = "demo_request ''{}''"
  have r: "route_name (rqPath ?rq) = ''fs''" "HasPrefix (rqPath ?rq) ''/mcp/''" by code_simp+
  have f: "fl (10 ^ 9) = 10 ^ 9" using fl_of_int [of "10 ^ 9"] by simp
  have "Sub 0 0 = 0" "Seconds 0 = 0" by (simp_all add: Sub_def Seconds_def)
  then have l: "limiter_allow ?env (route_name (rqPath ?rq)) ?rq limited_gateway = ((False, 10 ^ 9), limited_gateway)"
    unfolding r limited_gateway_def using f
    by (simp add: limiter_allow_def demo_tables demo_env_def read_at_def bucket_allow_def Let_def to_int64_def trunc_def)
  obtain t where t: "map_of (routes limited_gateway) (route_name (rqPath ?rq)) = Some t"
    unfolding r by (simp add: limited_gateway_def demo_tables)
  from limited_before_body [OF r(2) t l prod.collapse [symmetric]] show ?thesis by blast
qed

subsection \<open>Metadata only\<close>

text \<open>Two messages that agree in method, id and the name of the tool called, whatever their parameters.\<close>

definition same_metadata :: "rpcProbe \<Rightarrow> rpcProbe \<Rightarrow> bool" where
  "same_metadata m m' \<longleftrightarrow> Method m = Method m' \<and> ID m = ID m' \<and> tool_name (Params m) = tool_name (Params m')"

lemma same_metadata_summary:
  assumes "list_all2 same_metadata ms ms'"
  shows "summary_spec b ms = summary_spec b ms'"
proof -
  have m: "map Method ms = map Method ms'" using assms by (induction rule: list_all2_induct) (auto simp: same_metadata_def)
  have h: "map ID (filter has_id ms) = map ID (filter has_id ms')"
    using assms by (induction rule: list_all2_induct) (auto simp: same_metadata_def has_id_def)
  have l: "list_all2 same_metadata (lists ms) (lists ms')" "list_all2 same_metadata (Jsonrpc.calls ms) (Jsonrpc.calls ms')"
    using assms by (induction rule: list_all2_induct) (auto simp: same_metadata_def lists_def calls_def)
  have hid: "map ID (filter has_id xs) = map ID (filter has_id ys)" if "list_all2 same_metadata xs ys" for xs ys
    using that by (induction rule: list_all2_induct) (auto simp: same_metadata_def has_id_def)
  have t: "List.map_filter (\<lambda>p. tool_name (Params p)) xs = List.map_filter (\<lambda>p. tool_name (Params p)) ys"
    if "list_all2 same_metadata xs ys" for xs ys
    using that by (induction rule: list_all2_induct) (auto simp: same_metadata_def map_filter_simps split: option.splits)
  show ?thesis using m h hid [OF l(1)] hid [OF l(2)] t [OF l(2)] list_all2_lengthD [OF l(2)] by (simp add: summary_spec_def)
qed

lemma same_metadata_summarize:
  assumes "\<not> Invalid (summarizeRPC b)" "\<not> Invalid (summarizeRPC b')" "Batch (summarizeRPC b) = Batch (summarizeRPC b')"
    and "list_all2 same_metadata (messages b) (messages b')"
  shows "summarizeRPC b = summarizeRPC b'"
proof -
  obtain x y where "summarizeRPC b = summary_spec x (messages b)" "summarizeRPC b' = summary_spec y (messages b')"
    using valid_summary assms(1,2) by blast
  moreover from this assms(3) have "x = y" by (simp add: summary_spec_def)
  ultimately show ?thesis using same_metadata_summary [OF assms(4)] by simp
qed

text \<open>An upstream whose answer does not depend on which of two bodies it gets.\<close>

definition same_answer :: "exchange \<Rightarrow> httpRequest \<Rightarrow> bytes \<Rightarrow> bytes \<Rightarrow> bool" where
  "same_answer ex rq b b' \<longleftrightarrow>
     exHeader ex (rq\<lparr>rqBody := Some b'\<rparr>) = exHeader ex (rq\<lparr>rqBody := Some b\<rparr>) \<and>
     (\<forall>out. exRoundTrip ex (out\<lparr>oBody := b'\<rparr>) = exRoundTrip ex (out\<lparr>oBody := b\<rparr>))"

lemma proxy_rewrite_body:
  "proxy_rewrite t n h f rq b' = (proxy_rewrite t n h f rq b)\<lparr>oBody := b'\<rparr>"
  "proxy_rewrite t n h f (rq\<lparr>rqBody := x\<rparr>) b = proxy_rewrite t n h f rq b"
  by (simp_all add: proxy_rewrite_def)

lemma proxy_ServeHTTP_body:
  assumes "same_answer ex rq b b'"
  shows "proxy_ServeHTTP rt ex t n ost (rq\<lparr>rqBody := Some b'\<rparr>) b' w =
    (proxy_ServeHTTP rt ex t n ost (rq\<lparr>rqBody := Some b\<rparr>) b w)
      \<lparr>pxOut := proxy_rewrite t n (exHeader ex (rq\<lparr>rqBody := Some b\<rparr>)) (ost \<noteq> None) rq b'\<rparr>"
proof -
  let ?o = "proxy_rewrite t n (exHeader ex (rq\<lparr>rqBody := Some b\<rparr>)) (ost \<noteq> None) rq"
  have "exRoundTrip ex (?o b') = exRoundTrip ex (?o b)"
  proof -
    have "?o b' = (?o b)\<lparr>oBody := b'\<rparr>" "?o b = (?o b)\<lparr>oBody := b\<rparr>" by (rule proxy_rewrite_body)+
    then show ?thesis using assms unfolding same_answer_def by metis
  qed
  then show ?thesis using assms unfolding proxy_ServeHTTP_def Let_def same_answer_def proxy_rewrite_body(2)
    by (auto split: sum.split option.split prod.split)
qed

text \<open>
  C12. The audit entry holds metadata only: replacing the parameters of every message by others, with the
  same method, id and tool name and a body of the same length, leaves the logged entry unchanged
  (for an upstream that answers both alike).
\<close>

theorem audit_metadata_only:
  assumes "\<not> Invalid (summarizeRPC b)" "\<not> Invalid (summarizeRPC b')" "Batch (summarizeRPC b) = Batch (summarizeRPC b')"
    and "list_all2 same_metadata (messages b) (messages b')" "length b = length b'" "length b \<le> maxRPCPeek"
    and "same_answer (reExchange env) rq b b'"
  shows "svEntries (fst (ServeHTTP env (rq\<lparr>rqBody := Some b\<rparr>) c g)) = svEntries (fst (ServeHTTP env (rq\<lparr>rqBody := Some b'\<rparr>) c g))"
proof -
  let ?r = "rq\<lparr>rqBody := Some b\<rparr>" and ?r' = "rq\<lparr>rqBody := Some b'\<rparr>"
  have sm: "summarizeRPC b = summarizeRPC b'" by (rule same_metadata_summarize [OF assms(1-4)])
  have la: "limiter_allow env n ?r g = limiter_allow env n ?r' g" for n by (simp add: limiter_allow_def split: option.split)
  have re: "request_entry env n ?r = request_entry env n ?r'" for n by (simp add: request_entry_def)
  have pb: "peek_body ?r' = (case peek_body ?r of (n, s, e, _) \<Rightarrow> (n, s, e, b'))" "snd (snd (snd (peek_body ?r))) = b" "fst (peek_body ?r) = length b"
    using assms(5,6) sm by (simp_all add: peek_body_def)
  have fw: "svEntries (fst (forward_request env n t ?r c g1)) = svEntries (fst (forward_request env n t ?r' c g1))" for n t g1
  proof -
    obtain s e where pk: "peek_body ?r = (length b, s, e, b)" using pb(2,3) by (metis prod.collapse)
    have pk': "peek_body ?r' = (length b, s, e, b')" using pb(1) pk by simp
    show ?thesis unfolding forward_request_def Let_def pk pk' prod.case proxy_ServeHTTP_body [OF assms(7)] re
      using assms(5) by simp
  qed
  show ?thesis
    unfolding ServeHTTP_def handleProxy_def Let_def la re using fw
    by (auto split: option.split prod.split)
qed

definition call_with :: "bytes \<Rightarrow> bytes" where
  "call_with arg = ''{'' @ marshal_string ''method'' @ '':'' @ marshal_string ''tools/call'' @ '','' @ marshal_string ''params'' @ '':'' @
     ''{'' @ marshal_string ''name'' @ '':'' @ marshal_string ''a'' @ '','' @ marshal_string ''arguments'' @ '':'' @ marshal_string arg @ ''}}''"

theorem audit_metadata_only_witness:
  "svEntries (allow_serve (call_with ''secret'')) = svEntries (allow_serve (call_with ''public''))"
proof -
  let ?b = "call_with ''secret''" and ?b' = "call_with ''public''"
  have d: "(demo_request x)\<lparr>rqBody := Some y\<rparr> = demo_request y" for x y by (simp add: demo_request_def)
  have v: "\<not> Invalid (summarizeRPC ?b)" "\<not> Invalid (summarizeRPC ?b')" "Batch (summarizeRPC ?b) = Batch (summarizeRPC ?b')" by code_simp+
  have m: "list_all2 same_metadata (messages ?b) (messages ?b')" "length ?b = length ?b'" "length ?b \<le> maxRPCPeek" by code_simp+
  have s: "same_answer (reExchange (demo_env (demo_exchange [] demo_response))) (demo_request []) ?b ?b'"
    by (simp add: same_answer_def demo_env_def demo_exchange_def)
  from audit_metadata_only [OF v m s, of "new_conn None" allow_gateway] show ?thesis by (simp only: d)
qed

subsection \<open>What the entry says\<close>

text \<open>The counting writer agrees with the connection behind it.\<close>

definition counted :: "countingWriter \<Rightarrow> bool" where
  "counted w \<longleftrightarrow> cwWritten w = length (ccBody (cwConn w)) \<and>
     (case ccFinal (cwConn w) of None \<Rightarrow> cwStatus w = 0 | Some (st, h) \<Rightarrow> cwStatus w = st \<and> st \<noteq> 0 \<and> h = ccHeader (cwConn w))"

lemma counted_WriteHeader: "counted w \<Longrightarrow> cwStatus w = 0 \<Longrightarrow> 200 \<le> code \<Longrightarrow> counted (cw_WriteHeader code w) \<and> cwStatus (cw_WriteHeader code w) = code"
  by (auto simp: counted_def cw_WriteHeader_def conn_WriteHeader_def Let_def split: option.splits)

lemma counted_Write: "counted w \<Longrightarrow> cwStatus w \<noteq> 0 \<Longrightarrow> counted (snd (cw_Write b w)) \<and> cwStatus (snd (cw_Write b w)) = cwStatus w"
  by (auto simp: counted_def cw_Write_def conn_Write_def Let_def split: option.splits prod.splits)

lemma counted_Write_pair: "cw_Write b w = (ok, w') \<Longrightarrow> counted w \<Longrightarrow> cwStatus w \<noteq> 0 \<Longrightarrow> counted w' \<and> cwStatus w' \<noteq> 0"
  using counted_Write [of w b] by simp

lemma counted_header: "counted w \<Longrightarrow> cwStatus w = 0 \<Longrightarrow> counted (w\<lparr>cwConn := (cwConn w)\<lparr>ccHeader := h\<rparr>\<rparr>)"
  by (auto simp: counted_def split: option.splits)

lemma counted_ErrorHandler: "counted w \<Longrightarrow> cwStatus w = 0 \<Longrightarrow> counted (ErrorHandler e w) \<and> cwStatus (ErrorHandler e w) \<noteq> 0"
proof -
  assume w: "counted w" "cwStatus w = 0"
  let ?w1 = "w\<lparr>cwConn := conn_Set ''Content-Type'' ''application/json'' (cwConn w)\<rparr>"
  have "counted ?w1" using counted_header [OF w] by (simp add: conn_Set_def)
  then have "counted (cw_WriteHeader 502 ?w1) \<and> cwStatus (cw_WriteHeader 502 ?w1) = 502" using w(2) by (intro counted_WriteHeader) simp_all
  then show ?thesis using counted_Write [of "cw_WriteHeader 502 ?w1"] w(2) by (simp add: ErrorHandler_def Let_def)
qed

lemma processJSONBody_status:
  "processJSONBody rt st r = (Some r1, st1) \<Longrightarrow> 200 \<le> rStatusCode r \<Longrightarrow> 200 \<le> rStatusCode r1"
  by (auto simp: processJSONBody_def Let_def swapBody_def blockResponse_def blockResponseCode_def
      split: if_splits list.splits option.splits prod.splits sum.splits msgOutcome.splits)

lemma modifyResponse_status:
  "modifyResponse rt ost r = (Some (r1, sse), st1) \<Longrightarrow> 200 \<le> rStatusCode r \<Longrightarrow> 200 \<le> rStatusCode r1"
  using processJSONBody_status
  by (auto simp: modifyResponse_def Let_def blockResponse_def blockResponseCode_def swapBody_def split: option.splits if_splits prod.splits)

text \<open>An upstream that sends no informational status before its response.\<close>

definition plain_answers :: "exchange \<Rightarrow> bool" where
  "plain_answers ex \<longleftrightarrow> (\<forall>out infos r. exRoundTrip ex out = Inr (infos, r) \<longrightarrow> infos = [] \<and> 200 \<le> rStatusCode r)"

lemma proxy_counted:
  assumes "plain_answers ex" "counted w" "cwStatus w = 0"
  shows "counted (pxWriter (proxy_ServeHTTP rt ex t n ost rq b w)) \<and> cwStatus (pxWriter (proxy_ServeHTTP rt ex t n ost rq b w)) \<noteq> 0"
proof -
  let ?out = "proxy_rewrite t n (exHeader ex rq) (ost \<noteq> None) rq b"
  show ?thesis
  proof (cases "exRoundTrip ex ?out")
    case (Inl err)
    then show ?thesis using counted_ErrorHandler [OF assms(2,3)] by (simp add: proxy_ServeHTTP_def Let_def)
  next
    case (Inr x)
    then obtain r where x: "exRoundTrip ex ?out = Inr ([], r)" "200 \<le> rStatusCode r"
      using assms(1) by (cases x) (auto simp: plain_answers_def)
    let ?r = "r\<lparr>rHeader := exHop ex (rHeader r)\<rparr>"
    obtain om st where m: "modifyResponse rt ost ?r = (om, st)" by fastforce
    show ?thesis
    proof (cases om)
      case None
      then show ?thesis using counted_ErrorHandler [OF assms(2,3)] x m by (simp add: proxy_ServeHTTP_def Let_def)
    next
      case (Some rs)
      obtain r1 sse where rs: "rs = (r1, sse)" by fastforce
      have c: "200 \<le> rStatusCode r1" using modifyResponse_status m Some rs x(2) by fastforce
      let ?w2 = "w\<lparr>cwConn := (cwConn w)\<lparr>ccHeader := (\<lambda>k. ccHeader (cwConn w) k @ rHeader r1 k)\<rparr>\<rparr>"
      have w3: "counted (cw_WriteHeader (rStatusCode r1) ?w2) \<and> cwStatus (cw_WriteHeader (rStatusCode r1) ?w2) = rStatusCode r1"
        using counted_header [OF assms(2,3)] assms(3) c by (intro counted_WriteHeader) simp_all
      then show ?thesis using x m Some rs c
        by (auto simp: proxy_ServeHTTP_def Let_def split: prod.splits option.splits if_splits dest!: counted_Write_pair)
    qed
  qed
qed



end
