(* ===== verification/Go_Indent.thy ===== *)
theory Go_Indent
  imports Go_Marshal Canonical
begin

text \<open>
  \<^verbatim>\<open>json.MarshalIndent\<close> with two blanks per level: the layout of a value, and that layout does not
  matter to a reader.  \<open>skel\<close> is what remains of a parsed value without its layout; the decoding
  of struct fields depends on nothing else, so it reads a compacted or indented document as it
  would have read the original.
\<close>

subsection \<open>Indented text\<close>

definition newline :: "nat \<Rightarrow> bytes" where
  "newline n = LF # replicate (2 * n) (CHR '' '')"

fun indented :: "nat \<Rightarrow> json \<Rightarrow> bytes" where
  "indented n (JArr _ vs) =
     (if vs = [] then ''[]''
      else ''['' @ newline (Suc n) @ join (CHR '','' # newline (Suc n)) (map (indented (Suc n)) vs) @ newline n @ '']'')"
| "indented n (JObj _ ms) =
     (if ms = [] then ''{}''
      else ''{'' @ newline (Suc n) @ join (CHR '','' # newline (Suc n)) (map (\<lambda>(k, v). k @ '':'' @ '' '' @ indented (Suc n) v) ms)
        @ newline n @ ''}'')"
| "indented n v = raw_of v"

text \<open>The value an indented text is read as.\<close>

fun indent :: "nat \<Rightarrow> json \<Rightarrow> json" where
  "indent n (JArr t vs) = JArr (indented n (JArr t vs)) (map (indent (Suc n)) vs)"
| "indent n (JObj t ms) = JObj (indented n (JObj t ms)) (map (\<lambda>(k, v). (k, indent (Suc n) v)) ms)"
| "indent n v = v"

lemma raw_indent [simp]: "raw_of (indent n v) = indented n v"
  by (cases v) simp_all

lemma newline_ws: "\<forall>c \<in> set (newline n). is_ws c"
  by (auto simp: newline_def is_ws_def)

lemma indent_node: "node d v \<Longrightarrow> node d (indent n v)"
proof (induction v arbitrary: d n)
  case (JArr t vs)
  from JArr.prems obtain d' where d: "d = Suc d'" "\<forall>v \<in> set vs. node d' v" by (rule node_arrayD)
  show ?case
  proof (cases "vs = []")
    case True
    then show ?thesis using node_array [of "[]" d'] d(1) by simp
  next
    case False
    have "\<forall>v \<in> set (map (indent (Suc n)) vs). node d' v" using d(2) JArr.IH by simp
    from node_spaced_array [OF this _ newline_ws newline_ws newline_ws, of "Suc n" "Suc n" n] d(1) False show ?thesis
      by (simp add: comp_def)
  qed
next
  case (JObj t ms)
  from JObj.prems obtain d' where d: "d = Suc d'" "\<forall>(k, v) \<in> set ms. str_lit k \<and> node d' v" by (rule node_objectD)
  show ?case
  proof (cases "ms = []")
    case True
    then show ?thesis using node_object [of "[]" d'] d(1) by simp
  next
    case False
    have "\<forall>(k, v) \<in> set (map (\<lambda>(k, v). (k, indent (Suc n) v)) ms). str_lit k \<and> node d' v"
      using d(2) JObj.IH by (fastforce simp: snds.simps)
    from node_spaced_object [OF this _ _ newline_ws newline_ws newline_ws, of "'' ''" "Suc n" "Suc n" n] d(1) False show ?thesis
      by (simp add: comp_def case_prod_unfold is_ws_def)
  qed
qed simp_all

subsection \<open>What does not depend on layout\<close>

fun skel :: "json \<Rightarrow> jval" where
  "skel JNull = VNull"
| "skel (JBool b) = VBool b"
| "skel (JNum l) = VNum l"
| "skel (JStr l) = VStr (unquote l)"
| "skel (JArr _ vs) = VArr (map skel vs)"
| "skel (JObj _ ms) = VObj (map (\<lambda>(k, v). (unquote k, skel v)) ms)"

lemma skel_indent [simp]: "skel (indent n v) = skel v"
  by (induction n v rule: indent.induct) (auto simp: case_prod_unfold)

lemma skel_squash: "node d v \<Longrightarrow> skel (squash v) = skel v"
proof (induction v arbitrary: d)
  case (JStr l)
  then show ?case using html_escape_lit [of l] str_lit_JStr [of d l] by simp
next
  case (JArr t vs)
  from JArr.prems obtain d' where "\<forall>v \<in> set vs. node d' v" by (rule node_arrayD)
  then show ?case using JArr.IH by auto
next
  case (JObj t ms)
  from JObj.prems obtain d' where "\<forall>(k, v) \<in> set ms. str_lit k \<and> node d' v" by (rule node_objectD)
  then show ?case using JObj.IH html_escape_lit by (fastforce simp: snds.simps)
qed simp_all

text \<open>A decoding step that looks at the contents only.\<close>

definition layout_free :: "('a \<Rightarrow> json \<Rightarrow> 'a option) \<Rightarrow> bool" where
  "layout_free st \<longleftrightarrow> (\<exists>f. \<forall>cur v. st cur v = f cur (skel v))"

lemma layout_freeI: "(\<And>cur v. st cur v = f cur (skel v)) \<Longrightarrow> layout_free st"
  by (auto simp: layout_free_def)

definition members_skel :: "(bytes \<times> json) list \<Rightarrow> (bytes \<times> jval) list" where
  "members_skel ms = map (\<lambda>(k, v). (unquote k, skel v)) ms"

lemma members_skel_simps [simp]: "members_skel [] = []" "members_skel ((k, v) # ms) = (unquote k, skel v) # members_skel ms"
  by (simp_all add: members_skel_def)

lemma field_members_skel: "map skel (field_members f ms) = map snd (filter (\<lambda>(k, v). foldName k = foldName f) (members_skel ms))"
  by (induction ms) (auto simp: field_members_def key_matches_def)

lemma assign_field_skel:
  assumes "layout_free st" "members_skel ms = members_skel ms'"
  shows "assign_field st i f ms = assign_field st i f ms'"
proof -
  obtain g where "\<forall>cur v. st cur v = g cur (skel v)" using assms(1) by (auto simp: layout_free_def)
  then have g: "st = (\<lambda>cur v. g cur (skel v))" by blast
  have "foldl (\<lambda>acc v. Option.bind acc (\<lambda>cur. st cur v)) a vs = foldl (\<lambda>acc j. Option.bind acc (\<lambda>cur. g cur j)) a (map skel vs)" for a vs
    unfolding g by (induction vs arbitrary: a) simp_all
  then show ?thesis by (simp only: assign_field_def field_members_skel assms(2))
qed

fun skel_string :: "jval \<Rightarrow> bytes option" where
  "skel_string (VStr s) = Some s"
| "skel_string VNull = Some []"
| "skel_string _ = None"

lemma string_of_skel: "string_of v = skel_string (skel v)"
  by (cases v) simp_all

lemma strings_of_skel: "map string_of vs = map skel_string (map skel vs)"
  by (simp add: string_of_skel)

lemma string_members_skel:
  "map (\<lambda>(k, v). map_option (Pair (unquote k)) (string_of v)) ms = map (\<lambda>(k, j). map_option (Pair k) (skel_string j)) (members_skel ms)"
  by (induction ms) (auto simp: string_of_skel)

lemma layout_free_string: "layout_free string_step"
proof (rule layout_freeI)
  show "string_step cur v = (case skel v of VStr s \<Rightarrow> Some s | VNull \<Rightarrow> Some cur | _ \<Rightarrow> None)" for cur v by (cases v) simp_all
qed

lemma layout_free_string_ptr: "layout_free string_ptr_step"
proof (rule layout_freeI)
  show "string_ptr_step cur v = (case skel v of VStr s \<Rightarrow> Some (Some s) | VNull \<Rightarrow> Some None | _ \<Rightarrow> None)" for cur v by (cases v) simp_all
qed

lemma layout_free_int: "layout_free int_step"
proof (rule layout_freeI)
  show "int_step cur v = (case skel v of VNum l \<Rightarrow> ParseInt l | VNull \<Rightarrow> Some cur | _ \<Rightarrow> None)" for cur v by (cases v) simp_all
qed

lemma layout_free_strings: "layout_free strings_step"
proof (rule layout_freeI)
  show "strings_step cur v = (case skel v of VArr js \<Rightarrow> map_option Some (those (map skel_string js)) | VNull \<Rightarrow> Some None | _ \<Rightarrow> None)" for cur v
    by (cases v) (simp_all add: strings_of_skel del: map_map)
qed

lemma layout_free_string_map: "layout_free string_map_step"
proof (rule layout_freeI)
  show "string_map_step cur v = (case skel v of
      VObj js \<Rightarrow> map_option (\<lambda>kvs. Some (fold (\<lambda>(k, v). map_set k v) kvs (case cur of None \<Rightarrow> [] | Some m \<Rightarrow> m)))
        (those (map (\<lambda>(k, j). map_option (Pair k) (skel_string j)) js))
    | VNull \<Rightarrow> Some None | _ \<Rightarrow> None)" for cur v
    by (cases v) (simp_all add: string_members_skel [unfolded members_skel_def] del: map_map)
qed

lemmas layout_free_steps = layout_free_string layout_free_string_ptr layout_free_int layout_free_strings layout_free_string_map

text \<open>The members a value offers to a struct.\<close>

lemma struct_members_skel:
  "struct_members v = Some ms \<Longrightarrow> skel v' = skel v \<Longrightarrow> \<exists>ms'. struct_members v' = Some ms' \<and> members_skel ms' = members_skel ms"
  by (cases v; cases v') (auto simp: members_skel_def)

end
