(* ===== verification/Delivery.thy ===== *)
theory Delivery
  imports Serving Go_Indent
begin

text \<open>
  The answer as the client reads it: white space around a document, messages of a batch, and that
  no listing in a delivered body names a tool that is not on the allowlist.
\<close>

subsection \<open>White space around a document\<close>

definition solid :: "char \<Rightarrow> bool" where
  "solid c \<longleftrightarrow> 0x20 < byte c \<and> byte c < 0x80"

lemma seq_closed:
  assumes "item_parser p" "parse_seq cl p s = Some (vs, r)"
  shows "\<exists>y. s = y @ cl # r"
  using assms(2)
proof (induction "length s" arbitrary: s vs rule: less_induct)
  case less
  from less.prems obtain v r1 c r2 where p: "p s = Some (v, r1)" and ws: "skip_ws r1 = c # r2"
    by (subst (asm) parse_seq.simps) (auto split: option.splits list.splits)
  obtain x where x: "s = x @ r1" using item_parser.item [OF assms(1) p] by blast
  obtain w where w: "r1 = w @ c # r2" using skip_ws_append [OF ws] by blast
  show ?case
  proof (cases "c = cl")
    case True
    with less.prems p ws have "r = r2" by (subst (asm) parse_seq.simps) simp
    then show ?thesis using x w True by (intro exI [of _ "x @ w"]) simp
  next
    case False
    with less.prems p ws obtain vs' where l: "length r2 < length s" and rec: "parse_seq cl p (skip_ws r2) = Some (vs', r)"
      by (subst (asm) parse_seq.simps) (auto split: if_splits)
    have "length (skip_ws r2) < length s" using skip_ws_length [of r2] l by linarith
    then obtain y where "skip_ws r2 = y @ cl # r" using less.hyps rec by blast
    moreover obtain w2 where "r2 = w2 @ skip_ws r2" using skip_ws_split [of r2] by blast
    ultimately have "s = (x @ w @ c # w2 @ y) @ cl # r" using x w by simp
    then show ?thesis by blast
  qed
qed

lemma container_closed:
  assumes "parse_container (parse_value d) s = Some (v, [])"
  shows "last s \<in> {CHR '']'', CHR ''}''}"
proof -
  obtain c cs where s: "s = c # cs" using assms by (cases s) (auto simp: parse_container_def)
  obtain w where w: "cs = w @ skip_ws cs" using skip_ws_split [of cs] by blast
  have e: "\<exists>y cl. skip_ws cs = y @ [cl] \<and> cl \<in> {CHR '']'', CHR ''}''}"
    using assms s seq_closed [OF pv.item_parser_axioms, of "CHR '']''" d "skip_ws cs" _ "[]"]
      seq_closed [OF pv.pair.item_parser_axioms, of "CHR ''}''" d "skip_ws cs" _ "[]"]
    by (fastforce simp: parse_container_def prefix_def split: if_splits)
  then show ?thesis using s w by (metis append_is_Nil_conv last_ConsR last_appendR last_snoc not_Cons_self2)
qed

lemma digits_num: "c \<in> set (takeWhile is_digit cs) \<Longrightarrow> num_char c"
  using set_takeWhileD is_digit_num by fastforce

lemma scan_int_chars: "scan_int s = Some (i, r) \<Longrightarrow> \<forall>c \<in> set i. num_char c"
  by (cases s) (auto simp: scan_int_def is_digit_num digits_num num_char_def [of "CHR ''0''"] split: if_splits)

lemma scan_frac_chars: "scan_frac s = Some (f, r) \<Longrightarrow> \<forall>c \<in> set f. num_char c"
  by (cases s) (auto simp: scan_frac_def digits_num num_char_def [of "CHR ''.''"] split: if_splits)

lemma exp_sign_chars: "exp_sign s = (sg, r) \<Longrightarrow> \<forall>c \<in> set sg. num_char c"
  by (cases s) (auto simp: exp_sign_def num_char_def split: if_splits)

lemma scan_exp_chars:
  assumes "scan_exp s = Some (e, r)"
  shows "\<forall>c \<in> set e. num_char c"
proof (cases s)
  case (Cons c cs)
  obtain sg q where q: "exp_sign cs = (sg, q)" by fastforce
  have "num_char CHR ''e''" "num_char CHR ''E''" by (simp_all add: num_char_def)
  then show ?thesis using assms Cons q exp_sign_chars [OF q] digits_num [of _ q] by (auto simp: scan_exp_def split: if_splits)
qed (use assms in \<open>simp add: scan_exp_def\<close>)

lemma scan_num_chars:
  assumes "scan_num s = Some (l, r)"
  shows "\<forall>c \<in> set l. num_char c"
proof -
  obtain sg s1 where sg: "(case s of c # cs \<Rightarrow> if c = CHR ''-'' then ([c], cs) else ([], s) | [] \<Rightarrow> ([], s)) = (sg, s1)" by fastforce
  have "\<forall>c \<in> set sg. num_char c" using sg by (cases s) (auto simp: num_char_def split: if_splits)
  moreover obtain i s2 f s3 e where p: "scan_int s1 = Some (i, s2)" "scan_frac s2 = Some (f, s3)" "scan_exp s3 = Some (e, r)" "l = sg @ i @ f @ e"
    using assms sg by (auto simp: scan_num_def)
  ultimately show ?thesis using scan_int_chars [OF p(1)] scan_frac_chars [OF p(2)] scan_exp_chars [OF p(3)] by auto
qed

lemma num_solid: "num_char c \<Longrightarrow> solid c"
  by (auto simp: solid_def byte_classes)


lemma node_ends:
  assumes "node d v"
  shows "raw_of v \<noteq> [] \<and> solid (hd (raw_of v)) \<and> solid (last (raw_of v))"
proof (cases "is_open (raw_of v)")
  case True
  with assms obtain d' where "parse_container (parse_value d') (raw_of v) = Some (v, [])" by (rule node_open)
  then have "last (raw_of v) \<in> {CHR '']'', CHR ''}''}" by (rule container_closed)
  then show ?thesis using True by (auto simp: open_chars solid_def)
next
  case False
  then have p: "parse_scalar (raw_of v) = Some (v, [])" using assms by (cases d) (simp_all add: node_def)
  show ?thesis
  proof (cases v)
    case (JNum l)
    then have "scan_num l = Some (l, [])" using p by (cases l) (auto simp: parse_scalar_def split: if_splits)
    with scan_num_chars [OF this] scan_num_consume [OF this] JNum num_solid show ?thesis by auto
  next
    case (JStr l)
    then have "str_lit l" using assms str_lit_JStr by blast
    then obtain b where "l = QUOTE # b @ [QUOTE]" by (auto simp: str_lit_body)
    then show ?thesis using JStr by (simp add: solid_def)
  next
    case (JArr t vs)
    then show ?thesis using p by (cases t) (auto simp: parse_scalar_def split: if_splits)
  next
    case (JObj t ms)
    then show ?thesis using p by (cases t) (auto simp: parse_scalar_def split: if_splits)
  qed (simp_all add: solid_def)
qed

lemma strip_front_ws:
  assumes "\<forall>c \<in> set w. is_ws c" "x = [] \<or> solid (hd x)" "es = space_encodings \<or> es = map rev space_encodings"
  shows "strip_front es (w @ x) = x"
  using assms(1)
proof (induction w)
  case Nil
  have "find (\<lambda>e. prefix e x) es = None"
    using assms(2,3) by (cases x) (auto simp: find_None_iff space_encodings_def solid_def)
  then show ?case by (simp add: strip_front_id)
next
  case (Cons c w)
  have "c \<in> {CHR 0x20, LF, CR, TAB}" using Cons.prems by (auto simp: is_ws_def)
  then have "find (\<lambda>e. prefix e (c # w @ x)) es = Some [c]" using assms(3) by (auto simp: space_encodings_def)
  then have "strip_front es (c # w @ x) = strip_front es (w @ x)" by (subst strip_front.simps) simp
  with Cons show ?case by simp
qed

lemma TrimSpace_around:
  assumes "\<forall>c \<in> set w1. is_ws c" "\<forall>c \<in> set w2. is_ws c" "x \<noteq> []" "solid (hd x)" "solid (last x)"
  shows "TrimSpace (w1 @ x @ w2) = x"
proof -
  have "strip_front space_encodings (w1 @ x @ w2) = x @ w2" using assms by (intro strip_front_ws) auto
  moreover have "strip_front (map rev space_encodings) (rev w2 @ rev x) = rev x"
    using assms by (intro strip_front_ws) (auto simp: hd_rev)
  ultimately show ?thesis by (simp add: TrimSpace_def)
qed

text \<open>A document without the white space around it is the text of its value.\<close>

lemma TrimSpace_json:
  assumes "json_parse s = Some v"
  shows "TrimSpace s = raw_of v"
proof -
  obtain r where r: "parse_value maxNestingDepth (skip_ws s) = Some (v, r)" "skip_ws r = []"
    using assms by (auto simp: json_parse_def split: option.splits if_splits)
  have "skip_ws s = raw_of v @ r" using pv.val [OF r(1)] by simp
  moreover obtain w where "s = w @ skip_ws s" "\<forall>c \<in> set w. is_ws c" using skip_ws_split [of s] by blast
  moreover have "\<forall>c \<in> set r. is_ws c" using skip_ws_split [of r] r(2) by simp
  ultimately show ?thesis using TrimSpace_around [of w r "raw_of v"] node_ends [OF json_parse_node [OF assms]] by metis
qed

subsection \<open>Listings in compacted messages\<close>

text \<open>An id whose text compaction cannot produce from another text.\<close>

definition plain_id :: "bytes \<Rightarrow> bool" where
  "plain_id i \<longleftrightarrow> BSLASH \<notin> set i \<and> \<not> is_open i"

lemma html_escape_same: "BSLASH \<notin> set (html_escape l) \<Longrightarrow> html_escape l = l"
  by (induction l rule: html_escape.induct) (auto simp: u_escape_def html_escape.simps(2) split: if_splits)

lemma compact_plain: "plain_id (compact v) \<Longrightarrow> compact v = raw_of v"
  by (cases v) (auto simp: plain_id_def is_open_def intro: html_escape_same)

lemma field_raw_squash:
  assumes "\<forall>(k, v) \<in> set ms. str_lit k"
  shows "field_raw f (map (\<lambda>(k, v). (html_escape k, squash v)) ms) =
    (case rev (field_members f ms) of [] \<Rightarrow> [] | w # _ \<Rightarrow> compact w)"
  using field_members_squash [OF assms, of f] by (simp add: field_raw_def rev_map list.case_distrib split: list.split)

lemma node_map_squash:
  assumes "\<forall>(k, v) \<in> set ms. str_lit k"
  shows "node_map (map (\<lambda>(k, v). (html_escape k, squash v)) ms) = map (\<lambda>(k, v). (k, squash v)) (node_map ms)"
proof -
  have "map (\<lambda>(k, v). (unquote k, v)) (map (\<lambda>(k, v). (html_escape k, squash v)) ms) =
      map (\<lambda>(k, v). (k, squash v)) (map (\<lambda>(k, v). (unquote k, v)) ms)"
    using assms html_escape_lit by fastforce
  then show ?thesis unfolding node_map_def build_map_map [symmetric] by (rule arg_cong)
qed

lemma raws_compact:
  assumes "node d v" "d \<le> maxNestingDepth" "unmarshal_raws (compact v) = Some es'"
  shows "\<exists>es. unmarshal_raws (raw_of v) = Some es \<and> map elem_name es' = map elem_name es"
proof -
  have p: "json_parse (compact v) = Some (squash v)" "json_parse (raw_of v) = Some v"
    using compact_parse [OF assms(1,2)] node_json_parse [OF assms(1,2)] .
  show ?thesis
  proof (cases v)
    case (JArr t vs)
    then obtain d' where d: "d = Suc d'" "\<forall>w \<in> set vs. node d' w" using assms(1) node_arrayD by blast
    then have "\<forall>w \<in> set vs. elem_name (compact w) = elem_name (raw_of w)"
      using elem_name_squash [of d'] assms(2) by simp
    then show ?thesis using assms(3) p JArr by (auto simp: unmarshal_raws_def)
  qed (use assms(3) p in \<open>auto simp: unmarshal_raws_def\<close>)
qed

text \<open>The tools of a compacted result are those of the result.\<close>

lemma tools_compact:
  assumes "node d1 R" "d1 \<le> maxNestingDepth" "unmarshal_map (compact R) = Some (Some r)" "map_of r ''tools'' = Some t" "unmarshal_raws t = Some es'"
  obtains r0 t0 es where "unmarshal_map (raw_of R) = Some (Some r0)" "map_of r0 ''tools'' = Some t0" "unmarshal_raws t0 = Some es"
    "map elem_name es' = map elem_name es"
proof -
  have pr: "json_parse (compact R) = Some (squash R)" "json_parse (raw_of R) = Some R"
    using compact_parse [OF assms(1,2)] node_json_parse [OF assms(1,2)] .
  obtain t2 ms2 where R2: "R = JObj t2 ms2" "r = raw_map (map (\<lambda>(k, v). (html_escape k, squash v)) ms2)"
    using assms(3) pr(1) by (cases R) (auto simp: unmarshal_map_def)
  obtain d2 where d2: "d1 = Suc d2" "\<forall>(k, w) \<in> set ms2. str_lit k \<and> node d2 w" using assms(1) R2(1) node_objectD by blast
  then have lit2: "\<forall>(k, w) \<in> set ms2. str_lit k" by auto
  have "map_of r ''tools'' = map_option compact (map_of (node_map ms2) ''tools'')"
    unfolding R2(2) raw_map_nodes node_map_squash [OF lit2] by (simp only: map_of_raw option.map_comp comp_def raw_squash)
  then obtain T where T: "map_of (node_map ms2) ''tools'' = Some T" "t = compact T"
    using assms(4) by (auto simp: map_option_case split: option.splits)
  have nT: "node d2 T" using map_of_SomeD [OF T(1)] node_map_members [OF d2(2)] by fastforce
  obtain es where "unmarshal_raws (raw_of T) = Some es" "map elem_name es' = map elem_name es"
    using raws_compact [OF nT] assms(2,5) d2(1) T(2) by auto
  moreover have "unmarshal_map (raw_of R) = Some (Some (raw_map ms2))" using pr(2) R2(1) by (simp add: unmarshal_map_def)
  moreover have "map_of (raw_map ms2) ''tools'' = Some (raw_of T)" using T(1) by (simp add: raw_map_nodes map_of_raw)
  ultimately show ?thesis using that by blast
qed

lemma listing_compact:
  assumes "json_parse m = Some v" "listing is (compact v) = Some es'" "\<forall>i \<in> set is. plain_id i"
  shows "\<exists>es. listing is m = Some es \<and> map elem_name es' = map elem_name es"
proof -
  have nv: "node maxNestingDepth v" using json_parse_node [OF assms(1)] .
  have pc: "json_parse (compact v) = Some (squash v)" using compact_parse [OF nv] by simp
  from assms(2) obtain p r t where l: "unmarshal_response (compact v) = Some p" "prID p \<noteq> []" "prID p \<in> set is" "\<not> has_error p"
    "unmarshal_map (prResult p) = Some (Some r)" "map_of r ''tools'' = Some t" "unmarshal_raws t = Some es'" by (rule listingE)
  obtain t0 ms where v: "v = JObj t0 ms"
    using l(1,2) pc by (cases v) (auto simp: unmarshal_response_def unmarshal_struct_def field_raw_def field_members_def)
  obtain d1 where d1: "maxNestingDepth = Suc d1" "\<forall>(k, w) \<in> set ms. str_lit k \<and> node d1 w"
    using nv v node_objectD by blast
  then have lit: "\<forall>(k, w) \<in> set ms. str_lit k" by auto
  define raw where "raw f = field_raw f ms" for f
  define cmp where "cmp f = (case rev (field_members f ms) of [] \<Rightarrow> [] | w # _ \<Rightarrow> compact w)" for f
  have p: "prID p = cmp ''id''" "prResult p = cmp ''result''" "prError p = cmp ''error''"
    using l(1) pc v field_raw_squash [OF lit] by (auto simp: unmarshal_response_def unmarshal_struct_def cmp_def)
  have same: "plain_id (cmp f) \<Longrightarrow> cmp f = raw f" for f
    using compact_plain by (auto simp: cmp_def raw_def field_raw_def split: list.splits)
  obtain q where q: "unmarshal_response m = Some q" "prID q = raw ''id''" "prResult q = raw ''result''" "prError q = raw ''error''"
    using assms(1) v by (auto simp: unmarshal_response_def unmarshal_struct_def raw_def)
  have "plain_id (cmp ''id'')" using l(3) assms(3) p(1) by simp
  then have id: "prID q = prID p" using same p q by simp
  have "plain_id (cmp ''error'')" using l(4) p(3) by (auto simp: has_error_def plain_id_def is_open_def)
  then have err: "\<not> has_error q" using same l(4) p q by (simp add: has_error_def)
  define R where "R = hd (rev (field_members ''result'' ms))"
  have "rev (field_members ''result'' ms) \<noteq> []"
  proof
    assume "rev (field_members ''result'' ms) = []"
    then have "cmp ''result'' = []" by (simp only: cmp_def list.case)
    then show False using l(5) p(2) by (simp add: unmarshal_map_def)
  qed
  then obtain rest where rest: "rev (field_members ''result'' ms) = R # rest" unfolding R_def by (metis list.collapse)
  then have "R \<in> set (field_members ''result'' ms)" by (metis list.set_intros(1) set_rev)
  then have R: "cmp ''result'' = compact R" "raw ''result'' = raw_of R" "node d1 R"
    using d1(2) rest by (auto simp: cmp_def raw_def field_raw_def field_members_def)
  have dl: "d1 \<le> maxNestingDepth" using d1(1) by simp
  from tools_compact [OF R(3) dl] l(5-7) p(2) R(1) obtain r0 t1 es where "unmarshal_map (raw ''result'') = Some (Some r0)"
    "map_of r0 ''tools'' = Some t1" "unmarshal_raws t1 = Some es" and es: "map elem_name es' = map elem_name es" using R(2) by metis
  then have "listing is m = Some es" using q id err l(2,3) by (simp add: listing_def)
  with es show ?thesis by blast
qed

subsection \<open>Processed bodies\<close>

text \<open>The messages a client finds in a body: the body itself, and the entries of an array.\<close>

definition client_messages :: "bytes \<Rightarrow> bytes list" where
  "client_messages b = b # (case unmarshal_raws b of None \<Rightarrow> [] | Some ms \<Rightarrow> ms)"

definition message_allowed :: "rewriteState \<Rightarrow> bytes \<Rightarrow> bool" where
  "message_allowed st m \<longleftrightarrow>
     (\<forall>elems. listing (ids st) m = Some elems \<longrightarrow> (\<forall>el \<in> set elems. \<exists>n. elem_name el = Some n \<and> allows (policy st) n))"

lemma listing_parsed: "listing is m = Some es \<Longrightarrow> \<exists>t ms. json_parse m = Some (JObj t ms)"
proof (erule listingE)
  fix p assume p: "unmarshal_response m = Some p" "prID p \<noteq> []"
  then obtain v where v: "json_parse m = Some v" "struct_members v \<noteq> None"
    by (auto simp: unmarshal_response_def unmarshal_struct_def)
  then show ?thesis using p by (cases v) (auto simp: unmarshal_response_def unmarshal_struct_def field_raw_def field_members_def)
qed

lemma listing_same_value: "json_parse m = json_parse m' \<Longrightarrow> listing is m = listing is m'"
  by (simp add: listing_def unmarshal_response_def unmarshal_struct_def)

lemma raws_same_value: "json_parse m = json_parse m' \<Longrightarrow> unmarshal_raws m = unmarshal_raws m'"
  by (simp add: unmarshal_raws_def)

lemma parse_trimmed: "json_parse b = Some v \<Longrightarrow> json_parse (TrimSpace b) = Some v"
  using TrimSpace_json json_parse_raw by simp

lemma message_allowed_trim: "message_allowed st (TrimSpace b) \<Longrightarrow> message_allowed st b"
proof -
  assume a: "message_allowed st (TrimSpace b)"
  have "listing (ids st) (TrimSpace b) = Some es" if l: "listing (ids st) b = Some es" for es
  proof -
    obtain v where "json_parse b = Some v" using listing_parsed [OF l] by blast
    then show ?thesis using parse_trimmed listing_same_value l by metis
  qed
  with a show ?thesis by (auto simp: message_allowed_def)
qed

lemma container_first:
  assumes "node d v" "v = JArr t vs \<and> c = CHR ''['' \<or> v = JObj t ms \<and> c = CHR ''{''"
  shows "hd t = c"
proof (cases "is_open t")
  case True
  with assms obtain d' where "parse_container (parse_value d') t = Some (v, [])" by (auto elim: node_open)
  then show ?thesis using container_children assms(2) by (fastforce simp: prefix_def)
next
  case False
  then have "parse_scalar t = Some (v, [])" using assms by (cases d) (auto simp: node_def)
  then show ?thesis using assms(2) by (cases t) (auto simp: parse_scalar_def split: if_splits)
qed

lemma not_array_first:
  assumes "listing is b = Some es"
  shows "hd (TrimSpace b) \<noteq> CHR ''[''"
proof -
  obtain t ms where p: "json_parse b = Some (JObj t ms)" using listing_parsed [OF assms] by blast
  then show ?thesis using TrimSpace_json [OF p] container_first [OF json_parse_node [OF p], of t _ _ ms] by auto
qed

lemma array_first:
  assumes "unmarshal_raws b = Some (m # ms)"
  shows "hd (TrimSpace b) = CHR ''[''"
proof -
  obtain t vs where p: "json_parse b = Some (JArr t vs)"
    using assms by (auto simp: unmarshal_raws_def elim: slice_of.elims)
  then show ?thesis using TrimSpace_json [OF p] container_first [OF json_parse_node [OF p], of t vs] by auto
qed

lemma delivered_message:
  assumes "ids_apart st" "strict st" "handleMessage rt st m = (oc, st')" "delivered m oc = Some d"
  shows "message_allowed st d"
  using delivered_named [OF assms(1,3,4)] assms(2) by (fastforce simp: message_allowed_def)

lemma message_allowed_checks: "same_checks st st' \<Longrightarrow> message_allowed st' m = message_allowed st m"
  by (simp add: message_allowed_def same_checks_def)

lemma batch_messages:
  "ids_apart st \<Longrightarrow> strict st \<Longrightarrow> handle_batch rt st ms = (Inr (outs, chg), st') \<Longrightarrow> \<forall>d \<in> set outs. message_allowed st d"
proof (induction ms arbitrary: st outs chg)
  case (Cons m ms)
  from Cons.prems(3) obtain oc st1 d ds c where h: "handleMessage rt st m = (oc, st1)" "delivered m oc = Some d"
    "outs = d # ds" "handle_batch rt st1 ms = (Inr (ds, c), st')" by (rule handle_batch_Cons)
  have s: "same_checks st st1" using handleMessage_checks h(1) by (metis snd_conv)
  then have "strict st1" using Cons.prems(2) by (simp add: same_checks_def)
  from Cons.IH [OF ids_apart_checks [OF s Cons.prems(1)] this h(4)] show ?case
    using delivered_message [OF Cons.prems(1,2) h(1,2)] h(3) message_allowed_checks [OF s] by simp
qed simp

lemma batch_unchanged: "handle_batch rt st ms = (Inr (outs, False), st') \<Longrightarrow> outs = ms"
proof (induction ms arbitrary: st outs)
  case (Cons m ms)
  obtain oc st1 where h: "handleMessage rt st m = (oc, st1)" by fastforce
  obtain res st2 where r: "handle_batch rt st1 ms = (res, st2)" by fastforce
  show ?case using Cons h r by (cases oc; cases res) (auto split: if_splits)
qed simp

lemma node_null: "node d JNull"
  using node_mono [of 0 JNull d] by (simp add: node_def parse_simps)

lemma parse_null: "json_parse ''null'' = Some JNull"
  using node_json_parse [OF node_null [of 0]] by simp

text \<open>The array a rewritten batch is sent as, as its reader parses it.\<close>

lemma marshalled_batch:
  assumes "marshal_raws outs = Some joined"
  shows "\<exists>vs. list_all2 (\<lambda>d v. if d = [] then v = JNull else json_parse d = Some v) outs vs \<and>
    (\<forall>w. json_parse joined = Some w \<longrightarrow> w = squash (JArr [] vs))"
proof -
  define val where "val d = (if d = [] then JNull else the (json_parse d))" for d
  have c: "compact_raw d \<noteq> None" if "d \<in> set outs" for d
  proof -
    obtain cs where "those (map compact_raw outs) = Some cs" using assms by (auto simp: marshal_raws_def)
    then have "map compact_raw outs = map Some cs" by (simp add: those_eq_Some_iff)
    then have "compact_raw d \<in> set (map Some cs)" using that by (metis image_eqI list.set_map)
    then show ?thesis by auto
  qed
  have n: "node maxNestingDepth (val d) \<and> compact_raw d = compact_raw (raw_of (val d))" if d: "d \<in> set outs" for d
  proof (cases "d = []")
    case True
    then show ?thesis using node_null parse_null by (simp add: val_def compact_raw_def)
  next
    case False
    then obtain v where v: "json_parse d = Some v" using c [OF d] by (auto simp: compact_raw_def)
    then show ?thesis using json_parse_node [OF v] json_parse_raw [OF v] node_ends [OF json_parse_node [OF v]] False
      by (simp add: val_def compact_raw_def)
  qed
  let ?vs = "map val outs"
  have nd: "\<forall>v \<in> set ?vs. node maxNestingDepth v" using n by simp
  have "map compact_raw outs = map compact_raw (map raw_of ?vs)" using n by simp
  then have "marshal_raws outs = marshal_raws (map raw_of ?vs)" by (simp only: marshal_raws_def)
  then have j: "joined = raw_of (squash (JArr [] ?vs))" using assms marshal_raws_nodes [OF nd] by simp
  have na: "node (Suc maxNestingDepth) (squash (JArr [] ?vs))"
    using squash_node [OF node_array [OF nd]] by simp
  have "w = squash (JArr [] ?vs)" if w: "json_parse joined = Some w" for w
  proof -
    have h: "skip_ws joined = joined" using node_ends [OF na] j by (intro skip_ws_id) (auto simp: solid_def is_ws_def)
    obtain r where "parse_value maxNestingDepth joined = Some (w, r)" using w h by (auto simp: json_parse_def split: option.splits if_splits)
    then have "parse_value (Suc maxNestingDepth) joined = Some (w, r)" by (rule parse_value_mono)
    then show ?thesis using na unfolding node_def j by (metis option.inject prod.inject)
  qed
  moreover have "list_all2 (\<lambda>d v. if d = [] then v = JNull else json_parse d = Some v) outs ?vs"
    using c by (fastforce simp: list.rel_map val_def compact_raw_def intro!: list.rel_refl_strong)
  ultimately show ?thesis by blast
qed

lemma compacted_allowed:
  assumes "message_allowed st d" "json_parse d = Some v" "\<forall>i \<in> set (ids st). plain_id i"
  shows "message_allowed st (compact v)"
  unfolding message_allowed_def
proof (intro allI impI ballI)
  fix es' el assume l: "listing (ids st) (compact v) = Some es'" "el \<in> set es'"
  obtain es where es: "listing (ids st) d = Some es" "map elem_name es' = map elem_name es"
    using listing_compact [OF assms(2) l(1) assms(3)] by blast
  have "elem_name el \<in> elem_name ` set es" using es(2) l(2) by (metis image_eqI list.set_map)
  then show "\<exists>n. elem_name el = Some n \<and> allows (policy st) n" using assms(1) es(1) by (auto simp: message_allowed_def)
qed

definition body_allowed :: "rewriteState \<Rightarrow> bytes \<Rightarrow> bool" where
  "body_allowed st b \<longleftrightarrow> (\<forall>m \<in> set (client_messages b). message_allowed st m)"

lemma body_allowedI:
  "(\<And>es. listing (ids st) b = Some es \<Longrightarrow> message_allowed st b) \<Longrightarrow>
   (\<And>m ms. unmarshal_raws b = Some ms \<Longrightarrow> m \<in> set ms \<Longrightarrow> message_allowed st m) \<Longrightarrow> body_allowed st b"
  by (cases "unmarshal_raws b") (auto simp: body_allowed_def client_messages_def message_allowed_def)

lemma allowed_single:
  assumes "hd (TrimSpace b) \<noteq> CHR ''[''" "message_allowed st (TrimSpace b)"
  shows "body_allowed st b"
proof (rule body_allowedI)
  show "message_allowed st b" using assms(2) message_allowed_trim by blast
  show "message_allowed st m" if "unmarshal_raws b = Some ms" "m \<in> set ms" for m ms
    using that array_first assms(1) by (cases ms) auto
qed

lemma allowed_batch:
  assumes "hd (TrimSpace b) = CHR ''[''" "\<And>m ms. unmarshal_raws (TrimSpace b) = Some ms \<Longrightarrow> m \<in> set ms \<Longrightarrow> message_allowed st m"
  shows "body_allowed st b"
proof (rule body_allowedI)
  show "message_allowed st b" if "listing (ids st) b = Some es" for es using not_array_first [OF that] assms(1) by simp
  show "message_allowed st m" if u: "unmarshal_raws b = Some ms" "m \<in> set ms" for m ms
  proof -
    obtain v where "json_parse b = Some v" using u(1) by (auto simp: unmarshal_raws_def)
    then have "json_parse (TrimSpace b) = json_parse b" using parse_trimmed by simp
    then show ?thesis using assms(2) u raws_same_value by metis
  qed
qed

lemma allowed_joined:
  assumes "marshal_raws outs = Some joined" "\<forall>d \<in> set outs. message_allowed st d" "\<forall>i \<in> set (ids st). plain_id i"
  shows "body_allowed st joined"
proof -
  obtain vs where vs: "list_all2 (\<lambda>d v. if d = [] then v = JNull else json_parse d = Some v) outs vs"
    "\<forall>w. json_parse joined = Some w \<longrightarrow> w = squash (JArr [] vs)" using marshalled_batch [OF assms(1)] by (elim exE conjE)
  have c: "message_allowed st (compact v)" if v: "v \<in> set vs" for v
  proof -
    obtain d where d: "d \<in> set outs" "if d = [] then v = JNull else json_parse d = Some v"
    proof -
      obtain i where "i < length vs" "v = vs ! i" using v by (auto simp: in_set_conv_nth)
      then show ?thesis using that [of "outs ! i"] vs(1) by (simp add: list_all2_conv_all_nth)
    qed
    show ?thesis
    proof (cases "d = []")
      case True
      have "listing (ids st) ''null'' \<noteq> Some es" for es using listing_parsed [of "ids st" "''null''" es] parse_null by auto
      then show ?thesis using True d(2) by (simp add: message_allowed_def)
    next
      case False
      then show ?thesis using compacted_allowed [of st d v] assms(2,3) d by simp
    qed
  qed
  have sl: "json_parse joined = Some w \<Longrightarrow> slice_of w = Some (map squash vs) \<and> struct_members w = None" for w using vs(2) by fastforce
  show ?thesis
  proof (rule body_allowedI)
    show "message_allowed st joined" if "listing (ids st) joined = Some es" for es
      using listing_parsed [OF that] sl by fastforce
    show "message_allowed st m" if u: "unmarshal_raws joined = Some ms" "m \<in> set ms" for m ms
    proof -
      obtain w where "json_parse joined = Some w" using u(1) by (auto simp: unmarshal_raws_def)
      then have "ms = map compact vs" using u(1) sl by (auto simp: unmarshal_raws_def)
      then show ?thesis using u(2) c by auto
    qed
  qed
qed

lemmas process_simps = processJSONBody_def Let_def blockResponse_def blockResponseCode_def swapBody_def

lemma processed_batch:
  assumes "ids_apart st" "strict st" "\<forall>i \<in> set (ids st). plain_id i"
    and "processJSONBody rt st resp = (Some r, st')" "rStatusCode r = 200"
    and cap: "length (rBody resp) \<le> maxRPCPeek \<and> \<not> rBodyErr resp" and b: "TrimSpace (rBody resp) = CHR ''['' # cs"
  shows "body_allowed st (rBody r)"
proof -
  have "unmarshal_raws (CHR ''['' # cs) \<noteq> None"
    using assms(2,4,5) cap b by (cases "unmarshal_raws (CHR ''['' # cs)") (auto simp: process_simps)
  then obtain msgs where msgs: "unmarshal_raws (CHR ''['' # cs) = Some msgs" by blast
  obtain res st1 where h: "handle_batch rt st msgs = (res, st1)" by fastforce
  have "\<not> isl res" using assms(4,5) cap b msgs h by (cases res) (auto simp: process_simps)
  then obtain outs chg where x: "handle_batch rt st msgs = (Inr (outs, chg), st1)" using h by (cases res) auto
  note outs = batch_messages [OF assms(1,2) x]
  show ?thesis
  proof (cases chg)
    case True
    then obtain joined where "marshal_raws outs = Some joined" "rBody r = joined"
      using assms(4) cap b msgs x by (auto simp: process_simps split: option.splits)
    then show ?thesis using allowed_joined outs assms(3) by blast
  next
    case False
    then have "r = resp" "outs = msgs" using assms(4) cap b msgs x batch_unchanged by (auto simp: process_simps)
    then show ?thesis using allowed_batch [of "rBody resp" st] outs b msgs by simp
  qed
qed

lemma processed_message:
  assumes "ids_apart st" "strict st"
    and "processJSONBody rt st resp = (Some r, st')" "rStatusCode r = 200"
    and cap: "length (rBody resp) \<le> maxRPCPeek \<and> \<not> rBodyErr resp" and b: "TrimSpace (rBody resp) = c # cs" "c \<noteq> CHR ''[''"
  shows "body_allowed st (rBody r)"
proof -
  obtain oc st1 where h: "handleMessage rt st (c # cs) = (oc, st1)" by fastforce
  show ?thesis
  proof (cases oc)
    case (msgBlock i code reason)
    then show ?thesis using assms(3,4) cap b h by (auto simp: process_simps)
  next
    case (msgRewrite out)
    then have r: "rBody r = out" using assms(3) cap b h by (auto simp: process_simps)
    have a: "message_allowed st out" using delivered_message [OF assms(1,2) h] msgRewrite by simp
    have "examineMessage rt st (c # cs) = (msgRewrite out, st1)"
      using handle_route [of rt st "c # cs"] h scanMessage_no_rewrite msgRewrite by (metis fst_conv)
    then obtain es where "listing (ids st) out = Some es" by (rule rewrite_listing)
    then obtain t ms where "json_parse out = Some (JObj t ms)" using listing_parsed by blast
    then have "unmarshal_raws out = None" by (simp add: unmarshal_raws_def)
    then show ?thesis using a r by (intro body_allowedI) auto
  next
    case (msgPass bad)
    have "strict st1" using handleMessage_checks [of st rt "c # cs"] h assms(2) by (simp add: same_checks_def)
    then have "r = resp" using assms(3,4) cap b h msgPass by (auto simp: process_simps split: if_splits)
    moreover have "message_allowed st (c # cs)" using delivered_message [OF assms(1,2) h] msgPass by simp
    ultimately show ?thesis using allowed_single b by simp
  qed
qed

text \<open>Under strict processing a body that goes out with status 200 lists only allowed tools.\<close>

lemma processed_allowed:
  assumes "ids_apart st" "strict st" "\<forall>i \<in> set (ids st). plain_id i"
    and "processJSONBody rt st resp = (Some r, st')" "rStatusCode r = 200"
  shows "body_allowed st (rBody r)"
proof (cases "TrimSpace (rBody resp)")
  case Nil
  then have "json_parse (rBody resp) = None"
    using TrimSpace_json node_ends [OF json_parse_node] by (metis option.exhaust)
  then have "body_allowed st (rBody resp)"
    using listing_parsed by (intro body_allowedI) (fastforce simp: unmarshal_raws_def)+
  moreover have "r = resp" using assms(2,4,5) Nil by (auto simp: process_simps split: if_splits)
  ultimately show ?thesis by simp
next
  case (Cons c cs)
  have "length (rBody resp) \<le> maxRPCPeek \<and> \<not> rBodyErr resp"
    using assms(2,4,5) by (auto simp: process_simps split: if_splits)
  then show ?thesis using processed_batch [OF assms] processed_message [OF assms(1,2,4,5)] Cons by metis
qed

subsection \<open>What the client receives\<close>

text \<open>A response with status 200 is an event stream, rewritten as it is read, or its body has been processed.\<close>

lemma modified_allowed:
  assumes "ids_apart st" "strict st" "\<forall>i \<in> set (ids st). plain_id i"
    and "modifyResponse rt (Some st) resp = (Some (r, sse), st')" "rStatusCode r = 200"
  shows "if HasPrefix (header_get (rHeader r) ''Content-Type'') ''text/event-stream'' then sse \<and> st' = Some st
    else \<not> sse \<and> body_allowed st (rBody r)"
proof -
  let ?ct = "header_get (rHeader resp) ''Content-Type''"
  have ok: "rStatusCode resp = 200" using assms(4,5) by (auto simp: modifyResponse_def split: if_splits)
  show ?thesis
  proof (cases "HasPrefix ?ct ''application/json''")
    case True
    obtain o1 st1 where p: "processJSONBody rt st resp = (o1, st1)" by fastforce
    then obtain r1 where r1: "o1 = Some r1" "rBody r = rBody r1" "rStatusCode r = rStatusCode r1" "\<not> sse"
      "rHeader r ''Content-Type'' = rHeader r1 ''Content-Type''"
      using assms(4) ok True by (auto simp: modifyResponse_def Let_def split: if_splits)
    have "rHeader r1 ''Content-Type'' = rHeader resp ''Content-Type'' \<or> rHeader r1 ''Content-Type'' = [''application/json'']"
      using p r1(1) by (auto simp: process_simps split: if_splits list.splits option.splits prod.splits sum.splits msgOutcome.splits)
    then have "HasPrefix (header_get (rHeader r) ''Content-Type'') ''application/json''"
      using True r1(5) by (auto simp: header_get_def HasPrefix_def)
    then have "\<not> HasPrefix (header_get (rHeader r) ''Content-Type'') ''text/event-stream''" by (auto simp: HasPrefix_def prefix_def)
    then show ?thesis using processed_allowed [OF assms(1-3)] p r1 assms(5) by simp
  next
    case False
    then show ?thesis using assms(2,4,5) ok
      by (auto simp: modifyResponse_def Let_def blockResponse_def blockResponseCode_def swapBody_def header_get_def split: if_splits)
  qed
qed

lemma ErrorHandler_new:
  "ccFinal (cwConn (ErrorHandler err \<lparr>cwConn = new_conn room, cwStatus = 0, cwWritten = 0\<rparr>)) \<noteq> Some (200, h)"
  by (simp add: ErrorHandler_def Let_def cw_WriteHeader_def cw_Write_def conn_WriteHeader_def conn_Write_def conn_Set_def new_conn_def)

lemma sent_body:
  assumes "w3 = cw_WriteHeader code (\<lparr>cwConn = (new_conn room)\<lparr>ccHeader := hd0\<rparr>, cwStatus = 0, cwWritten = 0\<rparr>)" "200 \<le> code"
    and "(ok, w4) = (if b = [] then (True, w3) else cw_Write b w3)" "ok"
  shows "ccFinal (cwConn w4) = Some (code, hd0) \<and> ccBody (cwConn w4) = b"
  using assms
  by (auto simp: cw_WriteHeader_def cw_Write_def conn_WriteHeader_def conn_Write_def new_conn_def Let_def split: if_splits option.splits)

lemma proxied_response:
  assumes "plain_answers ex" "p = proxy_ServeHTTP rt ex t n ost rq b \<lparr>cwConn = new_conn room, cwStatus = 0, cwWritten = 0\<rparr>"
    and "\<not> pxAborted p" "ccFinal (cwConn (pxWriter p)) = Some (200, h)"
  obtains resp r sse st' where "modifyResponse rt ost resp = (Some (r, sse), st')" "rStatusCode r = 200" "rHeader r = h"
    "\<not> sse \<Longrightarrow> ccBody (cwConn (pxWriter p)) = rBody r"
    "\<And>s. sse \<Longrightarrow> st' = Some s \<Longrightarrow> ccBody (cwConn (pxWriter p)) = fst (stream_body rt (exChunks ex) s (rBody r))"
proof -
  let ?w = "\<lparr>cwConn = new_conn room, cwStatus = 0, cwWritten = 0\<rparr>"
  let ?out = "proxy_rewrite t n (exHeader ex rq) (ost \<noteq> None) rq b"
  have "\<not> isl (exRoundTrip ex ?out)"
    using assms(2,4) ErrorHandler_new by (cases "exRoundTrip ex ?out") (auto simp: proxy_ServeHTTP_def Let_def)
  then obtain r0 where r0: "exRoundTrip ex ?out = Inr ([], r0)" "200 \<le> rStatusCode r0"
    using assms(1) by (cases "exRoundTrip ex ?out") (auto simp: plain_answers_def)
  let ?resp = "r0\<lparr>rHeader := exHop ex (rHeader r0)\<rparr>"
  obtain om st' where m: "modifyResponse rt ost ?resp = (om, st')" by fastforce
  have "om \<noteq> None" using assms(2,4) ErrorHandler_new r0 m by (cases om) (auto simp: proxy_ServeHTTP_def Let_def)
  then obtain r sse where r: "om = Some (r, sse)" by auto
  have code: "200 \<le> rStatusCode r" using modifyResponse_status m r r0(2) by fastforce
  define w3 where "w3 = cw_WriteHeader (rStatusCode r) (\<lparr>cwConn = (new_conn room)\<lparr>ccHeader := rHeader r\<rparr>, cwStatus = 0, cwWritten = 0\<rparr>)"
  obtain b1 st1 where b1: "(case st' of
      Some s \<Rightarrow> if sse then (case stream_body rt (exChunks ex) s (rBody r) of (b, s1) \<Rightarrow> (b, Some s1)) else (rBody r, Some s)
    | None \<Rightarrow> (rBody r, None)) = (b1, st1)" by fastforce
  obtain ok w4 where w4: "(ok, w4) = (if b1 = [] then (True, w3) else cw_Write b1 w3)" by (metis surj_pair)
  have "new_conn room\<lparr>ccHeader := \<lambda>k. ccHeader (new_conn room) k @ rHeader r k\<rparr> = (new_conn room)\<lparr>ccHeader := rHeader r\<rparr>"
    by (simp add: new_conn_def)
  then have p: "pxWriter p = w4" "pxAborted p = (\<not> ok \<or> rBodyErr r)"
    using assms(2) r0 m r b1 w4 by (auto simp: proxy_ServeHTTP_def Let_def w3_def [symmetric] split: prod.split if_splits)
  then have "ccFinal (cwConn w4) = Some (rStatusCode r, rHeader r) \<and> ccBody (cwConn w4) = b1"
    using sent_body [OF w3_def code w4] assms(3) by simp
  moreover have "\<not> sse \<Longrightarrow> b1 = rBody r" using b1 by (auto split: option.splits)
  moreover have "b1 = fst (stream_body rt (exChunks ex) s (rBody r))" if "sse" "st' = Some s" for s
    using b1 that by (cases "stream_body rt (exChunks ex) s (rBody r)") simp
  ultimately show ?thesis using that [of ?resp r sse st'] m r p assms(4) by simp
qed

end
