(* ===== verification/Sse_Delivery.thy ===== *)
theory Sse_Delivery
  imports Delivery
begin

text \<open>
  Event streams as the client reads them: the rewritten stream is cut into lines and events again,
  and no event that a client dispatches lists a tool that is not allowed.
\<close>

subsection \<open>Line breaks inside JSON texts\<close>

text \<open>No line of the text but the first starts like a data line.\<close>

definition tidy :: "bytes \<Rightarrow> bool" where
  "tidy x \<longleftrightarrow> successively (\<lambda>a b. a = LF \<longrightarrow> b \<noteq> CHR ''d'') x"

definition neat :: "bytes \<Rightarrow> bool" where
  "neat x \<longleftrightarrow> x \<noteq> [] \<and> hd x \<noteq> CHR ''d'' \<and> last x \<noteq> LF \<and> tidy x"

lemma tidy_append: "tidy (x @ y) \<longleftrightarrow> tidy x \<and> tidy y \<and> (x = [] \<or> y = [] \<or> last x \<noteq> LF \<or> hd y \<noteq> CHR ''d'')"
  by (auto simp: tidy_def successively_append_iff)

lemma tidy_simps [simp]: "tidy []" "tidy [c]"
  by (simp_all add: tidy_def)

lemma tidy_no_LF: "LF \<notin> set x \<Longrightarrow> tidy x"
  by (induction x) (auto simp: tidy_def successively_Cons)

lemma tidy_no_d: "CHR ''d'' \<notin> set x \<Longrightarrow> tidy x"
proof (induction x)
  case (Cons c x)
  then have "x = [] \<or> hd x \<noteq> CHR ''d''" by (metis list.set_intros(2) list.set_sel(1))
  with Cons show ?case by (simp add: tidy_def successively_Cons)
qed simp

lemma ws_not_d: "\<not> is_ws CHR ''d''"
  by (simp add: is_ws_def)

lemma tidy_ws: "\<forall>c \<in> set w. is_ws c \<Longrightarrow> tidy w"
  using ws_not_d by (intro tidy_no_d) blast

lemma neat_no_LF: "x \<noteq> [] \<Longrightarrow> LF \<notin> set x \<Longrightarrow> hd x \<noteq> CHR ''d'' \<Longrightarrow> neat x"
  unfolding neat_def using last_in_set [of x] tidy_no_LF by metis

lemma neat_glue:
  assumes "neat x" "\<forall>c \<in> set w. is_ws c" "neat y"
  shows "neat (x @ w @ y)"
proof -
  have "w = [] \<or> hd w \<noteq> CHR ''d''" using assms(2) ws_not_d by (cases w) auto
  then show ?thesis using assms tidy_ws [OF assms(2)] by (auto simp: neat_def tidy_append)
qed

lemma neat_delim: "c \<in> set '',:[]{}'' \<Longrightarrow> neat [c]"
  by (auto simp: neat_def)

definition neat_parser :: "'a parser \<Rightarrow> bool" where
  "neat_parser p \<longleftrightarrow> (\<forall>s v r. p s = Some (v, r) \<longrightarrow> (\<exists>x. s = x @ r \<and> neat x))"

lemma neat_parserD: "neat_parser p \<Longrightarrow> p s = Some (v, r) \<Longrightarrow> \<exists>x. s = x @ r \<and> neat x"
  unfolding neat_parser_def by blast

lemma seq_neat:
  assumes "neat_parser p" "parse_seq cl p s = Some (vs, r)" "cl \<in> {CHR '']'', CHR ''}''}"
  shows "\<exists>x. s = x @ r \<and> neat x"
  using assms(2)
proof (induction "length s" arbitrary: s vs rule: less_induct)
  case less
  from less.prems obtain v r1 c r2 where p: "p s = Some (v, r1)" and ws: "skip_ws r1 = c # r2"
    by (subst (asm) parse_seq.simps) (auto split: option.splits list.splits)
  obtain x where x: "s = x @ r1" "neat x" using neat_parserD [OF assms(1) p] by blast
  obtain w where w: "r1 = w @ c # r2" "\<forall>a \<in> set w. is_ws a" using skip_ws_append [OF ws] by blast
  show ?case
  proof (cases "c = cl")
    case True
    with less.prems p ws have "r = r2" by (subst (asm) parse_seq.simps) simp
    moreover have "neat (x @ w @ [c])" using neat_glue [OF x(2) w(2) neat_delim] True assms(3) by auto
    ultimately show ?thesis using x(1) w(1) by (intro exI [of _ "x @ w @ [c]"]) simp
  next
    case False
    with less.prems p ws obtain vs' where c: "c = CHR '',''" and l: "length r2 < length s" and rec: "parse_seq cl p (skip_ws r2) = Some (vs', r)"
      by (subst (asm) parse_seq.simps) (auto split: if_splits)
    have "length (skip_ws r2) < length s" using skip_ws_length [of r2] l by linarith
    then obtain y where y: "skip_ws r2 = y @ r" "neat y" using less.hyps rec by blast
    obtain w2 where w2: "r2 = w2 @ skip_ws r2" "\<forall>a \<in> set w2. is_ws a" using skip_ws_split [of r2] by blast
    have "neat (x @ w @ ([c] @ w2 @ y))"
      using neat_glue [OF x(2) w(2) neat_glue [OF neat_delim w2(2) y(2), of c]] c by simp
    then show ?thesis using x(1) w(1) w2(1) y(1) by (intro exI [of _ "x @ w @ [c] @ w2 @ y"]) simp
  qed
qed

lemma str_text_no_LF: "scan_str s = Some (t, r) \<Longrightarrow> LF \<notin> set t"
  using scan_str_body [of s t r] str_body_no_LF by auto

lemma pair_neat:
  assumes "neat_parser p"
  shows "neat_parser (parse_pair p)"
  unfolding neat_parser_def
proof (intro allI impI)
  fix s kv r assume "parse_pair p s = Some (kv, r)"
  then obtain cs k r0 r1 v where s: "s = QUOTE # cs" and k: "scan_str cs = Some (k, r0)" and c1: "skip_ws r0 = CHR '':'' # r1" and
    v: "p (skip_ws r1) = Some (v, r)"
    by (cases s) (auto simp: parse_pair_def split: if_splits elim!: list_case_someE)
  have ks: "cs = k @ r0" using scan_str_consume [OF k] by simp
  obtain w where w: "r0 = w @ CHR '':'' # r1" "\<forall>x \<in> set w. is_ws x" using skip_ws_append [OF c1] by blast
  obtain x where x: "skip_ws r1 = x @ r" "neat x" using neat_parserD [OF assms v] by blast
  obtain w2 where w2: "r1 = w2 @ skip_ws r1" "\<forall>a \<in> set w2. is_ws a" using skip_ws_split [of r1] by blast
  have "neat (QUOTE # k)" using str_text_no_LF [OF k] by (intro neat_no_LF) auto
  then have "neat ((QUOTE # k) @ w @ ('':'' @ w2 @ x))"
    by (rule neat_glue [OF _ w(2) neat_glue [OF neat_delim w2(2) x(2)]]) simp
  then show "\<exists>x. s = x @ r \<and> neat x" using s ks w(1) w2(1) x(1) by (intro exI [of _ "(QUOTE # k) @ w @ '':'' @ w2 @ x"]) simp
qed

lemma bracket_neat:
  assumes "neat_parser q" "parse_seq cl q (skip_ws cs) = Some (vs, r) \<or> skip_ws cs = cl # r" "cl \<in> {CHR '']'', CHR ''}''}" "op \<in> {CHR ''['', CHR ''{''}"
  shows "\<exists>x. op # cs = x @ r \<and> neat x"
proof -
  obtain w where w: "cs = w @ skip_ws cs" "\<forall>a \<in> set w. is_ws a" using skip_ws_split [of cs] by blast
  have "\<exists>y. skip_ws cs = y @ r \<and> neat y"
    using assms(2)
  proof
    assume "skip_ws cs = cl # r"
    then show ?thesis using neat_delim [of cl] assms(3) by (intro exI [of _ "[cl]"]) auto
  qed (rule seq_neat [OF assms(1) _ assms(3)])
  then obtain y where y: "skip_ws cs = y @ r" "neat y" by blast
  have "neat ([op] @ w @ y)" using neat_glue [OF neat_delim w(2) y(2), of op] assms(4) by auto
  then show ?thesis using w(1) y(1) by (intro exI [of _ "[op] @ w @ y"]) simp
qed

lemma scalar_neat: "neat_parser parse_scalar"
  unfolding neat_parser_def
proof (intro allI impI)
  fix s v r assume p: "parse_scalar s = Some (v, r)"
  then have s: "s = raw_of v @ r" "\<not> is_open (raw_of v)" using scalar_val by blast+
  have "neat (raw_of v)"
  proof (cases "v = JNull \<or> (\<exists>b. v = JBool b)")
    case True
    then show ?thesis by (auto intro!: neat_no_LF split: if_splits)
  next
    case False
    obtain c cs where c: "s = c # cs" using p by (cases s) (simp_all add: parse_scalar_def)
    show ?thesis
    proof (cases "c = QUOTE")
      case True
      then obtain t where "v = JStr (QUOTE # t)" "scan_str cs = Some (t, r)" using p c by (auto simp: parse_scalar_def)
      then show ?thesis using str_text_no_LF [of cs t r] by (auto intro!: neat_no_LF)
    next
      case q: False
      then obtain l where "v = JNum l" and n: "scan_num s = Some (l, r)" using p c False by (auto simp: parse_scalar_def split: if_splits)
      moreover have "\<not> num_char LF" "\<not> num_char CHR ''d''" by (simp_all add: num_char_def)
      moreover have "l \<noteq> []" "\<forall>c \<in> set l. num_char c" using scan_num_consume [OF n] scan_num_chars [OF n] by simp_all
      ultimately have "LF \<notin> set l" "hd l \<noteq> CHR ''d''" "l \<noteq> []" using hd_in_set [of l] by metis+
      then show ?thesis using \<open>v = JNum l\<close> by (simp add: neat_no_LF)
    qed
  qed
  then show "\<exists>x. s = x @ r \<and> neat x" using s by blast
qed

lemma container_neat:
  assumes "neat_parser p"
  shows "neat_parser (parse_container p)"
  unfolding neat_parser_def
proof (intro allI impI)
  fix s v r assume p: "parse_container p s = Some (v, r)"
  then obtain c cs where s: "s = c # cs" by (cases s) (auto simp: parse_container_def)
  have "\<exists>vs. parse_seq CHR '']'' p (skip_ws cs) = Some (vs, r) \<or> skip_ws cs = CHR '']'' # r" if "c = CHR ''[''"
    using p s that by (auto simp: parse_container_def prefix_def split: if_splits)
  moreover have "\<exists>ms. parse_seq CHR ''}'' (parse_pair p) (skip_ws cs) = Some (ms, r) \<or> skip_ws cs = CHR ''}'' # r" if "c = CHR ''{''"
    using p s that by (auto simp: parse_container_def prefix_def split: if_splits)
  moreover have "c = CHR ''['' \<or> c = CHR ''{''" using p s by (auto simp: parse_container_def split: if_splits)
  ultimately show "\<exists>x. s = x @ r \<and> neat x"
    using bracket_neat [OF assms] bracket_neat [OF pair_neat [OF assms]] s by blast
qed

lemma value_neat: "neat_parser (parse_value d)"
proof (induction d)
  case 0
  then show ?case using scalar_neat by (simp add: neat_parser_def)
next
  case (Suc d)
  then show ?case using scalar_neat container_neat [OF Suc] by (simp add: neat_parser_def)
qed

lemma node_neat: "node d v \<Longrightarrow> neat (raw_of v)"
  using neat_parserD [OF value_neat, of d "raw_of v" v "[]"] by (simp add: node_def)

subsection \<open>Lines and events\<close>

definition is_line :: "bytes \<Rightarrow> bool" where
  "is_line l \<longleftrightarrow> (\<exists>y. l = y @ [LF] \<and> LF \<notin> set y)"

text \<open>The complete lines of a stream; what follows the last line feed is not a line yet.\<close>

function lines_of :: "bytes \<Rightarrow> bytes list" where
  "lines_of s =
     (case dropWhile (\<lambda>c. c \<noteq> LF) s of
        [] \<Rightarrow> []
      | _ # rest \<Rightarrow> (takeWhile (\<lambda>c. c \<noteq> LF) s @ [LF]) # lines_of rest)"
  by pat_completeness auto
termination
  by (relation "measure length") (auto dest: dropWhile_rest_shorter)

declare lines_of.simps [simp del]

lemma lines_of_line: "LF \<notin> set y \<Longrightarrow> lines_of (y @ LF # rest) = (y @ [LF]) # lines_of rest"
proof -
  assume y: "LF \<notin> set y"
  have "takeWhile (\<lambda>c. c \<noteq> LF) (y @ LF # rest) = y" "dropWhile (\<lambda>c. c \<noteq> LF) (y @ LF # rest) = LF # rest"
    using y by (auto intro!: takeWhile_append_stop dropWhile_append_stop)
  then show ?thesis by (subst lines_of.simps) simp
qed

lemma lines_of_none: "LF \<notin> set y \<Longrightarrow> lines_of y = []"
proof -
  assume "LF \<notin> set y"
  then have "dropWhile (\<lambda>c. c \<noteq> LF) y = []" by (auto simp: dropWhile_eq_Nil_conv)
  then show ?thesis by (subst lines_of.simps) (simp del: dropWhile_eq_Nil_conv)
qed

lemma lines_of_concat: "\<forall>l \<in> set ls. is_line l \<Longrightarrow> lines_of (concat ls @ s) = ls @ lines_of s"
  by (induction ls) (auto simp: is_line_def lines_of_line)

lemma lines_of_split: "\<exists>ls. s @ [LF] = concat ls \<and> (\<forall>l \<in> set ls. is_line l) \<and> lines_of (s @ [LF]) = ls"
proof (induction "length s" arbitrary: s rule: less_induct)
  case less
  show ?case
  proof (cases "LF \<in> set s")
    case False
    then show ?thesis using lines_of_line [OF False, of "[]"] by (intro exI [of _ "[s @ [LF]]"]) (auto simp: is_line_def lines_of_none)
  next
    case True
    then obtain y r where y: "s = y @ LF # r" "LF \<notin> set y" using split_list_first by metis
    then obtain ls where ls: "r @ [LF] = concat ls" "\<forall>l \<in> set ls. is_line l" "lines_of (r @ [LF]) = ls" using less [of r] by auto
    then show ?thesis using y lines_of_line [OF y(2), of "r @ [LF]"]
      by (intro exI [of _ "(y @ [LF]) # ls"]) (auto simp: is_line_def)
  qed
qed

text \<open>
  A client that takes lines as the rewriter does: a blank line dispatches the data lines before it,
  joined by line feeds, if there are any.
\<close>

definition is_data :: "bytes \<Rightarrow> bool" where
  "is_data l \<longleftrightarrow> HasPrefix (trimEOL l) ''data:''"

fun client_line :: "bytes \<Rightarrow> bytes list \<times> bytes list \<Rightarrow> bytes list \<times> bytes list" where
  "client_line l (ds, es) =
     (if trimEOL l = [] then ([], if ds = [] then es else es @ [join [LF] ds])
      else if is_data l then (ds @ [data_value (trimEOL l)], es)
      else (ds, es))"

definition client_run :: "bytes list \<Rightarrow> bytes list \<times> bytes list \<Rightarrow> bytes list \<times> bytes list" where
  "client_run ls c = fold client_line ls c"

definition client_events :: "bytes \<Rightarrow> bytes list" where
  "client_events s = snd (client_run (lines_of s) ([], []))"

lemma client_run_simps [simp]: "client_run [] c = c" "client_run (l # ls) c = client_run ls (client_line l c)"
  "client_run (ls @ ls') c = client_run ls' (client_run ls c)"
  by (simp_all add: client_run_def)

lemma client_run_event:
  "\<forall>l \<in> set ls. trimEOL l \<noteq> [] \<Longrightarrow> client_run ls (ds, es) = (ds @ map (data_value \<circ> trimEOL) (filter is_data ls), es)"
  by (induction ls arbitrary: ds) auto

lemma client_run_other:
  "\<forall>l \<in> set ls. \<not> is_data l \<Longrightarrow>
     client_run ls (ds, es) = (ds, es) \<or> client_run ls (ds, es) = ([], if ds = [] then es else es @ [join [LF] ds])"
proof (induction ls arbitrary: ds es)
  case (Cons l ls)
  then have IH: "client_run ls (ds, es) = (ds, es) \<or> client_run ls (ds, es) = ([], if ds = [] then es else es @ [join [LF] ds])" for ds es
    by simp
  show ?case using IH [of ds es] IH [of "[]" "if ds = [] then es else es @ [join [LF] ds]"] Cons.prems
    by (cases "trimEOL l = []") simp_all
qed simp

subsection \<open>A replaced event\<close>

lemma trimEOL_line: "trimEOL (x @ [LF]) = TrimSuffix x [CR]"
  by (simp add: trimEOL_def TrimSuffix_snoc)

lemma TrimSuffix_CR: "\<exists>z. a = TrimSuffix a [CR] @ z \<and> (z = [] \<or> z = [CR])"
  by (cases a rule: rev_cases) (auto simp: TrimSuffix_def suffix_def)

lemma TrimSuffix_append: "y \<noteq> [] \<Longrightarrow> TrimSuffix (x @ y) [c] = x @ TrimSuffix y [c]"
  by (cases y rule: rev_cases) (auto simp: TrimSuffix_def suffix_def)

lemma data_line:
  assumes "a \<noteq> []" "l = ''data: '' @ a @ [LF]"
  shows "trimEOL l = ''data: '' @ TrimSuffix a [CR]" "is_data l" "data_value (trimEOL l) = TrimSuffix a [CR]"
proof -
  show t: "trimEOL l = ''data: '' @ TrimSuffix a [CR]"
    using trimEOL_line [of "''data: '' @ a"] TrimSuffix_append [OF assms(1), of "''data: ''" CR] assms(2) by simp
  show "is_data l" "data_value (trimEOL l) = TrimSuffix a [CR]"
    unfolding is_data_def t by (simp_all add: HasPrefix_def data_value_def)
qed

lemma line_no_data: "is_line l \<Longrightarrow> hd l \<noteq> CHR ''d'' \<Longrightarrow> \<not> is_data l"
proof
  assume "is_line l" "hd l \<noteq> CHR ''d''" "is_data l"
  then obtain y where y: "l = y @ [LF]" by (auto simp: is_line_def)
  have "prefix ''data:'' (TrimSuffix y [CR])" using \<open>is_data l\<close> y by (simp add: is_data_def trimEOL_line HasPrefix_def)
  then have "hd y = CHR ''d''" "y \<noteq> []" using TrimSuffix_CR [of y] by (auto simp: prefix_def)
  then show False using y \<open>hd l \<noteq> CHR ''d''\<close> by simp
qed

lemma later_lines: "tidy (LF # b) \<Longrightarrow> \<forall>l \<in> set (lines_of (b @ [LF])). \<not> is_data l"
proof (induction "length b" arbitrary: b rule: less_induct)
  case less
  have h: "b = [] \<or> hd b \<noteq> CHR ''d''" using less.prems tidy_append [of "[LF]" b] by auto
  show ?case
  proof (cases "LF \<in> set b")
    case False
    have "is_line (b @ [LF])" using False by (auto simp: is_line_def)
    moreover have "hd (b @ [LF]) \<noteq> CHR ''d''" using h by (cases b) auto
    ultimately show ?thesis using lines_of_line [OF False, of "[]"] line_no_data by (simp add: lines_of_none)
  next
    case True
    then obtain y r where y: "b = y @ LF # r" "LF \<notin> set y" using split_list_first by metis
    have "tidy (LF # r)" using less.prems y(1) tidy_append [of "LF # y" "LF # r"] by simp
    then have "\<forall>l \<in> set (lines_of (r @ [LF])). \<not> is_data l" using less.hyps [of r] y(1) by simp
    moreover have "\<not> is_data (y @ [LF])" using h y line_no_data [of "y @ [LF]"] by (cases y) (auto simp: is_line_def)
    ultimately show ?thesis using lines_of_line [OF y(2), of "r @ [LF]"] y(1) by simp
  qed
qed

text \<open>A JSON text cut off before a line break is not JSON.\<close>

lemma cut_not_json:
  assumes "node maxNestingDepth J" "raw_of J = d @ r" "r \<noteq> []" "hd r \<in> {LF, CR}"
  shows "json_parse d = None"
proof (rule ccontr)
  assume "json_parse d \<noteq> None"
  then obtain v where v: "json_parse d = Some v" by blast
  then have "d \<noteq> []" by auto
  then have "skip_ws d = d" using node_ends [OF assms(1)] assms(2) by (intro skip_ws_id) (auto simp: solid_def is_ws_def)
  then obtain w where w: "parse_value maxNestingDepth d = Some (v, w)" "skip_ws w = []"
    using v by (auto simp: json_parse_def split: option.splits if_splits)
  have "\<forall>c \<in> set w. is_ws c" using skip_ws_split [of w] w(2) by simp
  then have "numstop (w @ r)" using assms(3,4) ws_not_num by (cases w; cases r) (auto simp: num_char_def)
  moreover have "d = raw_of v @ w" "accepts (parse_value maxNestingDepth) (raw_of v) v" using pv.val [OF w(1)] by simp_all
  ultimately have "parse_value maxNestingDepth (raw_of J) = Some (v, w @ r)" using acceptsD assms(2) by simp
  then show False using assms(1,3) by (simp add: node_def)
qed

lemma payload_event:
  assumes "node maxNestingDepth J" "trimEOL blnk = []" "is_line blnk"
  obtains ls d where "''data: '' @ raw_of J @ [LF] @ blnk = concat ls" "\<forall>l \<in> set ls. is_line l"
    "client_run ls ([], es) = ([], es @ [d])" "d = raw_of J \<or> json_parse d = None"
proof (cases "LF \<in> set (raw_of J)")
  case False
  let ?l = "''data: '' @ raw_of J @ [LF]"
  have e: "raw_of J \<noteq> []" "solid (last (raw_of J))" using node_ends [OF assms(1)] by simp_all
  then have "TrimSuffix (raw_of J) [CR] = raw_of J"
    by (cases "raw_of J" rule: rev_cases) (auto simp: TrimSuffix_def suffix_def solid_def)
  then have "client_run [?l, blnk] ([], es) = ([], es @ [raw_of J])" using data_line [OF e(1), of ?l] assms(2) by simp
  moreover have "is_line ?l" unfolding is_line_def using False by (intro exI [of _ "''data: '' @ raw_of J"]) simp
  ultimately show ?thesis using that [of "[?l, blnk]" "raw_of J"] assms(3) by simp
next
  case True
  then obtain a b where x: "raw_of J = a @ LF # b" "LF \<notin> set a" using split_list_first by metis
  let ?l = "''data: '' @ a @ [LF]"
  obtain ls where ls: "b @ [LF] = concat ls" "\<forall>l \<in> set ls. is_line l" "lines_of (b @ [LF]) = ls" using lines_of_split by blast
  have a: "a \<noteq> []" using node_ends [OF assms(1)] x(1) by (auto simp: solid_def)
  have "tidy (LF # b)" using node_neat [OF assms(1)] x(1) by (simp add: neat_def tidy_append)
  then have nd: "\<forall>l \<in> set ls. \<not> is_data l" using later_lines ls(3) by blast
  let ?d = "TrimSuffix a [CR]"
  obtain z where z: "a = ?d @ z" "z = [] \<or> z = [CR]" using TrimSuffix_CR [of a] by blast
  have "raw_of J = ?d @ (z @ LF # b)" using x(1) z(1) by (metis append_assoc)
  then have j: "json_parse ?d = None" using cut_not_json [OF assms(1)] z(2) by auto
  have "client_run (?l # ls) ([], es) = client_run ls ([?d], es)" using data_line [OF a, of ?l] by simp
  then have "client_run (?l # ls @ [blnk]) ([], es) = ([], es @ [?d])"
    using client_run_other [OF nd, of "[?d]" es] assms(2) by auto
  moreover have "is_line ?l" unfolding is_line_def using x(2) by (intro exI [of _ "''data: '' @ a"]) simp
  moreover have "''data: '' @ raw_of J @ [LF] @ blnk = concat (?l # ls @ [blnk])" using x(1) ls(1) by simp
  ultimately show ?thesis using that [of "?l # ls @ [blnk]" ?d] j ls(2) assms(3) by simp
qed

lemma unparsed_allowed: "json_parse d = None \<Longrightarrow> message_allowed st d"
  using listing_parsed by (fastforce simp: message_allowed_def)

text \<open>A text from brace to brace that parses is the text of its value.\<close>

lemma braced_node:
  assumes "json_parse x = Some J" "x \<noteq> []" "hd x = CHR ''{''" "last x = CHR ''}''"
  shows "raw_of J = x" "node maxNestingDepth J"
  using TrimSpace_json [OF assms(1)] TrimSpace_around [of "[]" "[]" x] assms json_parse_node [OF assms(1)] by (simp_all add: solid_def)

lemma rewrite_rebuilt: "examineMessage rt st m = (msgRewrite out, st') \<Longrightarrow> \<exists>p nr. out = rebuilt_message p nr"
  by (auto simp: examineMessage_def Let_def split: option.splits if_splits prod.splits)

lemma rewrite_node:
  assumes "handleMessage rt st m = (msgRewrite out, st')"
  obtains J where "raw_of J = out" "node maxNestingDepth J"
proof -
  have e: "examineMessage rt st m = (msgRewrite out, st')"
    using handle_route [of rt st m] assms scanMessage_no_rewrite by (metis fst_conv)
  then obtain es where "listing (ids st) out = Some es" by (rule rewrite_listing)
  then obtain J where "json_parse out = Some J" using listing_parsed by blast
  moreover have "out \<noteq> []" "hd out = CHR ''{''" "last out = CHR ''}''"
    using rewrite_rebuilt [OF e] by (auto simp: rebuilt_message_def)
  ultimately show ?thesis using that braced_node by blast
qed

lemma block_id:
  assumes "handleMessage rt st m = (msgBlock i code reason, st')"
  shows "\<exists>p. unmarshal_response m = Some p \<and> i = prID p"
proof -
  have "\<exists>p. unmarshal_response m = Some p \<and> i = prID p" if "examineMessage rt st m = (msgBlock i code reason, st')"
    using that by (auto simp: examineMessage_def Let_def split: option.splits if_splits prod.splits)
  moreover have "\<exists>p. unmarshal_response m = Some p \<and> i = prID p" if "scanMessage rt sc st m = (msgBlock i code reason, st')" for sc
    using that by (auto simp: scanMessage_def Let_def split: option.splits if_splits sum.splits)
  ultimately show ?thesis using handle_route [of rt st m] assms by metis
qed

lemma error_node:
  assumes "id0 = [] \<or> (\<exists>m p. unmarshal_response m = Some p \<and> id0 = prID p)"
  obtains J where "raw_of J = jsonrpcError id0 code msg" "node maxNestingDepth J" "message_allowed st (jsonrpcError id0 code msg)"
proof -
  from assms obtain i e where "e = ''{'' @ join '','' (map (\<lambda>(k, v). k @ '':'' @ raw_of v) (error_object code msg)) @ ''}''"
    and u: "unmarshal_struct (jsonrpcError id0 code msg) = Some [(marshal_string ''jsonrpc'', JStr (marshal_string ''2.0'')),
       (marshal_string ''id'', i), (marshal_string ''error'', JObj e (error_object code msg))]" by (rule jsonrpcError_struct)
  then have "\<exists>p. unmarshal_response (jsonrpcError id0 code msg) = Some p \<and> has_error p"
    by (auto simp: unmarshal_response_def response_fields has_error_def)
  then have "message_allowed st (jsonrpcError id0 code msg)" by (auto simp: message_allowed_def listing_def)
  moreover obtain J where "json_parse (jsonrpcError id0 code msg) = Some J" using u by (auto simp: unmarshal_struct_def)
  moreover have "jsonrpcError id0 code msg \<noteq> []" "hd (jsonrpcError id0 code msg) = CHR ''{''" "last (jsonrpcError id0 code msg) = CHR ''}''"
    by (simp_all add: jsonrpcError_def Let_def)
  ultimately show ?thesis using that braced_node by blast
qed

subsection \<open>The rewritten stream\<close>

text \<open>A stream that ends between events and whose events are allowed.\<close>

definition clean :: "rewriteState \<Rightarrow> bytes \<Rightarrow> bool" where
  "clean st s \<longleftrightarrow> (\<exists>ls es. s = concat ls \<and> (\<forall>l \<in> set ls. is_line l) \<and> client_run ls ([], []) = ([], es) \<and>
     (\<forall>e \<in> set es. message_allowed st e))"

lemma clean_event:
  assumes "clean st s" "\<forall>l \<in> set ls. is_line l"
    and "\<And>es. \<exists>es'. client_run ls ([], es) = ([], es @ es') \<and> (\<forall>e \<in> set es'. message_allowed st e)"
  shows "clean st (s @ concat ls)"
proof -
  obtain ls0 es where s: "s = concat ls0" "\<forall>l \<in> set ls0. is_line l" "client_run ls0 ([], []) = ([], es)" "\<forall>e \<in> set es. message_allowed st e"
    using assms(1) by (auto simp: clean_def)
  obtain es' where "client_run ls ([], es) = ([], es @ es')" "\<forall>e \<in> set es'. message_allowed st e" using assms(3) by blast
  then show ?thesis unfolding clean_def using s assms(2) by (intro exI [of _ "ls0 @ ls"] exI [of _ "es @ es'"]) auto
qed

text \<open>Lines that are not data lines, then one payload: the event a client dispatches is the payload, or no JSON.\<close>

lemma clean_payload:
  assumes "clean st s" "node maxNestingDepth J" "message_allowed st (raw_of J)" "trimEOL blnk = []" "is_line blnk"
    and "\<forall>l \<in> set ls. is_line l \<and> trimEOL l \<noteq> [] \<and> \<not> is_data l"
  shows "clean st (s @ concat ls @ ''data: '' @ raw_of J @ [LF] @ blnk)"
proof -
  obtain ls0 es where s: "s = concat ls0" "\<forall>l \<in> set ls0. is_line l" "client_run ls0 ([], []) = ([], es)" "\<forall>e \<in> set es. message_allowed st e"
    using assms(1) by (auto simp: clean_def)
  from assms(2,4,5) obtain ls' d where p: "''data: '' @ raw_of J @ [LF] @ blnk = concat ls'" "\<forall>l \<in> set ls'. is_line l"
    "client_run ls' ([], es) = ([], es @ [d])" "d = raw_of J \<or> json_parse d = None" by (rule payload_event)
  have "filter is_data ls = []" using assms(6) by (simp add: filter_empty_conv)
  then have "client_run ls ([], es) = ([], es)" using client_run_event [of ls "[]" es] assms(6) by simp
  then have "client_run (ls0 @ ls @ ls') ([], []) = ([], es @ [d])" using s(3) p(3) by simp
  moreover have "message_allowed st d" using p(4) assms(3) unparsed_allowed by blast
  moreover have "s @ concat ls @ ''data: '' @ raw_of J @ [LF] @ blnk = concat (ls0 @ ls @ ls')" unfolding p(1) using s(1) by simp
  ultimately show ?thesis unfolding clean_def using s(2,4) p(2) assms(6)
    by (intro exI [of _ "ls0 @ ls @ ls'"] exI [of _ "es @ [d]"]) auto
qed

text \<open>The event under way, and the state between two bytes.\<close>

definition event_ok :: "sseRewriter \<Rightarrow> bool" where
  "event_ok r \<longleftrightarrow> (\<forall>l \<in> set (evLines r). is_line l \<and> trimEOL l \<noteq> []) \<and> evIsData r = map is_data (evLines r) \<and>
     evData r = map (data_value \<circ> trimEOL) (filter is_data (evLines r))"

definition stream_ok :: "rewriteState \<Rightarrow> sseRewriter \<Rightarrow> bool" where
  "stream_ok st r \<longleftrightarrow> clean st (rwOut r) \<and> event_ok r \<and> LF \<notin> set (rwLine r) \<and> \<not> rwRaw r \<and> same_checks st (rwSt r)"

lemma event_ok_reset [simp]: "event_ok (resetEvent r)"
  by (simp add: event_ok_def)

lemma other_lines_filter: "event_ok r \<Longrightarrow> other_lines r = concat (filter (\<lambda>l. \<not> is_data l) (evLines r))"
proof -
  have "map fst (filter (\<lambda>(l, d). \<not> d) (zip ls (map is_data ls))) = filter (\<lambda>l. \<not> is_data l) ls" for ls by (induction ls) auto
  then show "event_ok r \<Longrightarrow> ?thesis" by (simp add: other_lines_def event_ok_def)
qed

lemma clean_pass:
  assumes "clean st s" "event_ok r" "trimEOL blnk = []" "is_line blnk" "evData r \<noteq> [] \<Longrightarrow> message_allowed st (join [LF] (evData r))"
  shows "clean st (s @ concat (evLines r) @ blnk)"
proof -
  have "clean st (s @ concat (evLines r @ [blnk]))"
  proof (rule clean_event [OF assms(1)])
    show "\<forall>l \<in> set (evLines r @ [blnk]). is_line l" using assms(2,4) by (auto simp: event_ok_def)
    fix es
    have "client_run (evLines r) ([], es) = (evData r, es)" using client_run_event [of "evLines r" "[]" es] assms(2) by (simp add: event_ok_def)
    then show "\<exists>es'. client_run (evLines r @ [blnk]) ([], es) = ([], es @ es') \<and> (\<forall>e \<in> set es'. message_allowed st e)"
      using assms(3,5) by (cases "evData r = []") auto
  qed
  then show ?thesis by simp
qed

lemma emit_replaced_ok:
  assumes "clean st (rwOut r)" "event_ok r" "node maxNestingDepth J" "message_allowed st (raw_of J)" "trimEOL blnk = []" "is_line blnk"
  shows "clean st (rwOut (emitReplaced (raw_of J) blnk r))"
proof -
  have "\<forall>l \<in> set (filter (\<lambda>l. \<not> is_data l) (evLines r)). is_line l \<and> trimEOL l \<noteq> [] \<and> \<not> is_data l"
    using assms(2) by (auto simp: event_ok_def)
  from clean_payload [OF assms(1,3-6) this] show ?thesis by (simp add: emitReplaced_def other_lines_filter [OF assms(2)])
qed

lemma event_ok_state [simp]: "event_ok (r\<lparr>rwSt := s\<rparr>) = event_ok r" "event_ok (r\<lparr>rwLine := l\<rparr>) = event_ok r" "event_ok (emit b r) = event_ok r"
  by (simp_all add: event_ok_def)

lemma finishEvent_ok:
  assumes "stream_ok st r" "ids_apart st" "strict st" "trimEOL blnk = []" "is_line blnk"
  shows "stream_ok st (finishEvent rt blnk r)"
proof -
  have r: "clean st (rwOut r)" "event_ok r" "same_checks st (rwSt r)" using assms(1) by (simp_all add: stream_ok_def)
  have rs: "ids_apart (rwSt r)" "strict (rwSt r)" using r(3) assms(2,3) ids_apart_checks by (auto simp: same_checks_def)
  let ?m = "join [LF] (evData r)"
  obtain oc st1 where h: "handleMessage rt (rwSt r) ?m = (oc, st1)" by fastforce
  have st1: "same_checks st st1" using handleMessage_checks [of "rwSt r" rt ?m] h r(3) same_checks_trans by (metis snd_conv)
  show ?thesis
  proof (cases "evData r = []")
    case True
    then show ?thesis using clean_pass [OF r(1,2) assms(4,5)] assms(1) by (simp add: finishEvent_def stream_ok_def)
  next
    case False
    have d: "message_allowed st d" if "delivered ?m oc = Some d" for d
      using delivered_message [OF rs h that] message_allowed_checks [OF r(3)] by simp
    show ?thesis
    proof (cases oc)
      case (msgPass b)
      then show ?thesis using clean_pass [OF r(1,2) assms(4,5)] d assms(1) h False st1 by (simp add: finishEvent_def stream_ok_def)
    next
      case (msgRewrite out)
      from h [unfolded msgRewrite] obtain J where J: "raw_of J = out" "node maxNestingDepth J" by (rule rewrite_node)
      then show ?thesis using emit_replaced_ok [of st "r\<lparr>rwSt := st1\<rparr>" J blnk] r d assms msgRewrite h False st1
        by (simp add: finishEvent_def stream_ok_def) (simp add: emitReplaced_def)
    next
      case (msgBlock i code reason)
      have "i = [] \<or> (\<exists>m p. unmarshal_response m = Some p \<and> i = prID p)" using block_id [OF h [unfolded msgBlock]] by blast
      then obtain J where J: "raw_of J = jsonrpcError i code reason" "node maxNestingDepth J" "message_allowed st (jsonrpcError i code reason)"
        by (rule error_node)
      moreover have "same_checks st (noteOnce reason st1)" using st1 by (simp add: same_checks_def)
      ultimately show ?thesis
        using emit_replaced_ok [of st "r\<lparr>rwSt := noteOnce reason st1\<rparr>" J blnk] r assms msgBlock h False
        by (simp add: finishEvent_def stream_ok_def) (simp add: emitReplaced_def)
    qed
  qed
qed

lemma emitCapError_ok:
  assumes "stream_ok st r"
  shows "clean st (rwOut (emitCapError r))" "same_checks st (rwSt (emitCapError r))"
proof -
  have "[] = [] \<or> (\<exists>m p. unmarshal_response m = Some p \<and> [] = prID p)" by simp
  then obtain J where J: "raw_of J = jsonrpcError [] (strictCode (rwSt r)) capReason" "node maxNestingDepth J"
    "message_allowed st (jsonrpcError [] (strictCode (rwSt r)) capReason)" by (rule error_node)
  have "trimEOL [LF] = []" "is_line [LF]" using trimEOL_blank [of "[]"] by (simp_all add: is_line_def)
  then show "clean st (rwOut (emitCapError r))"
    using clean_payload [of st "rwOut r" J "[LF]" "[]"] J assms by (simp add: emitCapError_def stream_ok_def)
  show "same_checks st (rwSt (emitCapError r))" using assms by (simp add: emitCapError_def stream_ok_def same_checks_def)
qed

lemma overflow_ok:
  assumes "stream_ok st r" "strict st"
  shows "stream_ok st (overflowPartial (r\<lparr>rwLine := l\<rparr>))" "LF \<notin> set (rwLine r) \<Longrightarrow> stream_ok st (overflowLine l r)"
proof -
  have "strict (rwSt r)" using assms by (simp add: stream_ok_def same_checks_def)
  moreover have "stream_ok st (r\<lparr>rwLine := []\<rparr>)" using assms(1) by (simp add: stream_ok_def)
  ultimately show "stream_ok st (overflowPartial (r\<lparr>rwLine := l\<rparr>))" "LF \<notin> set (rwLine r) \<Longrightarrow> stream_ok st (overflowLine l r)"
    using emitCapError_ok [of st "r\<lparr>rwLine := []\<rparr>"] emitCapError_ok [OF assms(1)] assms(1)
    by (simp_all add: overflowPartial_def overflowLine_def stream_ok_def Let_def emitCapError_def)
qed

lemma completeLine_ok:
  assumes "stream_ok st r" "ids_apart st" "strict st" "is_line l" "rwLine r = []"
  shows "stream_ok st (completeLine rt l r)"
proof (cases "trimEOL l = []")
  case True
  then show ?thesis using finishEvent_ok [OF assms(1-3)] assms(4) by (simp add: completeLine_def)
next
  case False
  let ?r = "r\<lparr>evSize := evSize r + length l\<rparr>"
  have "stream_ok st ?r" using assms(1) by (simp add: stream_ok_def event_ok_def)
  then have "stream_ok st (overflowLine l ?r)" using overflow_ok(2) assms(3,5) by simp
  then show ?thesis using assms False
    by (auto simp: completeLine_def Let_def stream_ok_def event_ok_def is_data_def [symmetric])
qed

lemma ingest_ok:
  "ids_apart st \<Longrightarrow> strict st \<Longrightarrow> stream_ok st r \<Longrightarrow> stream_ok st (ingest rt r b)"
proof (induction rt r b rule: ingest.induct)
  case (1 rt r b)
  show ?case
  proof (cases "b = []")
    case b: False
    have nr: "\<not> rwRaw r" using "1.prems"(3) by (simp add: stream_ok_def)
    show ?thesis
    proof (cases "rwDiscard r")
      case True
      obtain r' b' where s: "scanBoundary r b = (r', b')" by fastforce
      have "stream_ok st r'" using s nr "1.prems"(3)
        by (auto simp: scanBoundary_def stream_ok_def event_ok_def Let_def split: prod.splits option.splits)
      then show ?thesis using "1.IH"(1) [OF b _ s [symmetric]] "1.prems"(1,2) True b s by (simp add: ingest_mode)
    next
      case False
      obtain y rest where "LF \<notin> set b \<or> (b = y @ LF # rest \<and> LF \<notin> set y)" using split_list_first [of LF b] by blast
      then consider "LF \<notin> set b" | "b = y @ LF # rest" "LF \<notin> set y" by blast
      then show ?thesis
      proof cases
        case 1
        have "stream_ok st (r\<lparr>rwLine := rwLine r @ b\<rparr>)" using 1 "1.prems"(3) by (simp add: stream_ok_def)
        then show ?thesis using ingest_no_LF [OF nr False 1 b, of rt] overflow_ok(1) "1.prems"(2,3) by simp
      next
        case 2
        let ?l = "rwLine r @ y @ [LF]"
        have d: "dropWhile (\<lambda>c. c \<noteq> LF) b = LF # rest" "takeWhile (\<lambda>c. c \<noteq> LF) b = y"
          using 2 by (auto intro!: takeWhile_append_stop dropWhile_append_stop)
        have "is_line ?l" using 2(2) "1.prems"(3) by (auto simp: is_line_def stream_ok_def)
        moreover have "stream_ok st (r\<lparr>rwLine := []\<rparr>)" using "1.prems"(3) by (simp add: stream_ok_def)
        ultimately have "stream_ok st (completeLine rt ?l (r\<lparr>rwLine := []\<rparr>))" using completeLine_ok "1.prems"(1,2) by simp
        then show ?thesis using "1.IH"(2) [OF b _ d(1), unfolded d(2)] "1.prems"(1,2) nr False ingest_LF [of r y rt rest] 2 by simp
      qed
    qed
  qed (use 1 in simp)
qed

lemma new_stream_ok: "stream_ok st (newSSERewriter st)"
proof -
  have "clean st []" unfolding clean_def by (intro exI [of _ "[]"]) simp
  then show ?thesis by (simp add: stream_ok_def newSSERewriter_def event_ok_def)
qed

lemma finish_events:
  assumes "stream_ok st r"
  shows "\<forall>e \<in> set (client_events (rwOut (finish r))). message_allowed st e"
proof -
  obtain ls es where s: "rwOut r = concat ls" "\<forall>l \<in> set ls. is_line l" "client_run ls ([], []) = ([], es)" "\<forall>e \<in> set es. message_allowed st e"
    using assms by (auto simp: stream_ok_def clean_def)
  show ?thesis
  proof (cases "rwDiscard r")
    case True
    then show ?thesis using s lines_of_concat [OF s(2), of "[]"] by (simp add: finish_def client_events_def lines_of_none)
  next
    case False
    have ev: "\<forall>l \<in> set (evLines r). is_line l \<and> trimEOL l \<noteq> []" "LF \<notin> set (rwLine r)" "\<not> rwRaw r"
      using assms by (auto simp: stream_ok_def event_ok_def)
    have "lines_of (concat (ls @ evLines r) @ rwLine r) = ls @ evLines r"
      using lines_of_concat [of "ls @ evLines r" "rwLine r"] s(2) ev by (simp add: lines_of_none ball_Un)
    then show ?thesis using s ev False client_run_event [of "evLines r" "[]" es] by (simp add: finish_def client_events_def)
  qed
qed

lemma streamed_events:
  assumes "ids_apart st" "strict st"
  shows "\<forall>e \<in> set (client_events (rwOut (finish (foldl (ingest rt) (newSSERewriter st) cs)))). message_allowed st e"
proof -
  have "stream_ok st r \<Longrightarrow> stream_ok st (foldl (ingest rt) r cs)" for r
    by (induction cs arbitrary: r) (simp_all add: ingest_ok [OF assms])
  then show ?thesis using finish_events new_stream_ok by blast
qed


subsection \<open>What the client receives\<close>

text \<open>The messages a client finds in a body, by its content type.\<close>

definition received :: "header \<Rightarrow> bytes \<Rightarrow> bytes list" where
  "received h b = (if HasPrefix (header_get h ''Content-Type'') ''text/event-stream'' then client_events b else client_messages b)"

text \<open>Every tool of every listing among the messages has an allowed name.\<close>

definition listings_allowed :: "bytes list \<Rightarrow> bytes list \<Rightarrow> bytes list \<Rightarrow> bool" where
  "listings_allowed tools is msgs \<longleftrightarrow>
     (\<forall>m \<in> set msgs. \<forall>elems. listing is m = Some elems \<longrightarrow> (\<forall>el \<in> set elems. \<exists>n \<in> set tools. elem_name el = Some n))"


definition list_request :: bytes where
  "list_request = ''{'' @ marshal_string ''id'' @ '':1,'' @ marshal_string ''method'' @ '':'' @ marshal_string ''tools/list'' @ ''}''"

definition list_response :: httpResponse where
  "list_response = demo_response\<lparr>rBody := ''data: '' @ response_text [''a'', ''b''] @ [LF, LF],
     rHeader := (\<lambda>_. [])(''Content-Type'' := [''text/event-stream''])\<rparr>"

abbreviation list_serve :: served where
  "list_serve \<equiv> fst (ServeHTTP (demo_env (demo_exchange [] list_response)) (demo_request list_request) (new_conn None) allow_gateway)"

lemma list_request_facts:
  "ToolsListIDs (summarizeRPC list_request) = [''1'']" "ToolsCallIDs (summarizeRPC list_request) = []" "plain_id ''1''"
  by code_simp+

lemma list_serve_facts:
  "map_option oBody (svOut list_serve) = Some list_request \<and> \<not> svAborted list_serve \<and>
   (case ccFinal (svConn list_serve) of None \<Rightarrow> False | Some (c, h) \<Rightarrow>
      c = 200 \<and> map (map_option (map elem_name) \<circ> listing [''1'']) (received h (ccBody (svConn list_serve))) = [Some [Some ''a'']])"
  by code_simp


end
