(* ===== verification/Error_Answers.thy ===== *)
theory Error_Answers
  imports Serving
begin

text \<open>
  The answers the gateway writes itself, \<^verbatim>\<open>writeJSONError\<close> and the proxy's error handler of
  \<^verbatim>\<open>gateway/gateway.go\<close>: JSON-RPC errors whatever the text of the reason.
\<close>

text \<open>
  A complete HTTP answer whose body is a JSON-RPC error object: the version, a null id, no result, and
  an error with an integer code and a string message.
\<close>

definition jsonrpc_error_answer :: "int \<Rightarrow> int \<Rightarrow> bytes \<Rightarrow> clientConn \<Rightarrow> bool" where
  "jsonrpc_error_answer status code msg c \<longleftrightarrow>
     (\<exists>h e ems. ccFinal c = Some (status, h) \<and> h ''Content-Type'' = [''application/json''] \<and>
        unmarshal_response (ccBody c) =
          Some \<lparr>prJSONRPC = marshal_string ''2.0'', prID = ''null'', prResult = [], prError = e\<rparr> \<and>
        unmarshal_struct e = Some ems \<and> assign_field int_step 0 ''code'' ems = Some code \<and>
        field_str ''message'' ems = Some (unquote (marshal_string msg)))"

text \<open>A connection on which nothing final was sent, to a client that reads everything.\<close>

definition idle_conn :: "clientConn \<Rightarrow> bool" where
  "idle_conn c \<longleftrightarrow> ccFinal c = None \<and> ccBody c = [] \<and> ccRoom c = None"

lemma idle_new [simp]: "idle_conn (new_conn None)"
  by (simp add: idle_conn_def new_conn_def)

lemma idle_Set [simp]: "idle_conn (conn_Set k v c) = idle_conn c"
  by (simp add: idle_conn_def conn_Set_def)

lemma error_line_decodes:
  assumes "- (2 ^ 63) \<le> code" "code < 2 ^ 63"
  obtains e ems where "unmarshal_response (jsonrpcError [] code msg @ [LF]) =
      Some \<lparr>prJSONRPC = marshal_string ''2.0'', prID = ''null'', prResult = [], prError = e\<rparr>"
    "unmarshal_struct e = Some ems" "assign_field int_step 0 ''code'' ems = Some code"
    "field_str ''message'' ems = Some (unquote (marshal_string msg))"
proof -
  obtain e ems where d: "unmarshal_response (jsonrpcError [] code msg) =
      Some \<lparr>prJSONRPC = marshal_string ''2.0'', prID = (if [] = ([] :: bytes) then ''null'' else []), prResult = [], prError = e\<rparr>"
    "unmarshal_struct e = Some ems" "assign_field int_step 0 ''code'' ems = Some code"
    "field_str ''message'' ems = Some (unquote (marshal_string msg))"
    by (rule jsonrpcError_decodes [of "[]" code msg]) (use assms in auto)
  then obtain v where "json_parse (jsonrpcError [] code msg) = Some v"
    by (auto simp: unmarshal_response_def unmarshal_struct_def bind_eq_Some_conv)
  from json_parse_line [OF this] this have "unmarshal_response (jsonrpcError [] code msg @ [LF]) = unmarshal_response (jsonrpcError [] code msg)"
    by (simp add: unmarshal_response_def unmarshal_struct_def)
  with d that show ?thesis by simp
qed

lemma writeJSONError_answer:
  assumes "idle_conn c" "200 \<le> status" "- (2 ^ 63) \<le> code" "code < 2 ^ 63"
  shows "jsonrpc_error_answer status code msg (writeJSONError status code msg c)"
proof -
  have "ccFinal (writeJSONError status code msg c) = Some (status, (ccHeader c)(''Content-Type'' := [''application/json'']))"
    "ccBody (writeJSONError status code msg c) = jsonrpcError [] code msg @ [LF]"
    using assms(1,2) by (simp_all add: idle_conn_def writeJSONError_def conn_Set_def conn_WriteHeader_def conn_Write_def Let_def)
  with error_line_decodes [OF assms(3,4), of msg] show ?thesis unfolding jsonrpc_error_answer_def by (metis fun_upd_same)
qed

lemma ErrorHandler_answer:
  assumes "idle_conn (cwConn w)" "cwStatus w = 0"
  shows "jsonrpc_error_answer 502 (- 32001) ''upstream unavailable'' (cwConn (ErrorHandler err w)) \<and> cwStatus (ErrorHandler err w) = 502"
proof -
  have "cwConn (ErrorHandler err w) = writeJSONError 502 (- 32001) ''upstream unavailable'' (cwConn w)" "cwStatus (ErrorHandler err w) = 502"
    using assms(2) by (simp_all add: ErrorHandler_def writeJSONError_def cw_WriteHeader_def cw_Write_def Let_def split: prod.splits)
  then show ?thesis using writeJSONError_answer [OF assms(1)] by simp
qed

text \<open>The statuses and codes of the errors the gateway answers with.\<close>

definition error_codes :: "(int \<times> int) list" where
  "error_codes = [(404, - 32001), (429, - 32002), (403, - 32003), (502, - 32001)]"

lemma refused_answer:
  assumes "handleProxy env rq c g = (s, g')" "idle_conn c" "svOut s = None"
  shows "\<exists>(st, code) \<in> set error_codes. \<exists>msg e. jsonrpc_error_answer st code msg (svConn s) \<and> svEntries s = [e] \<and> eStatus e = st"
  using assms(1)
proof (cases rule: handleProxyE)
  case (unknown e)
  have "jsonrpc_error_answer 404 (- 32001) ''unknown upstream'' (svConn s)" unfolding unknown by (simp add: writeJSONError_answer assms(2))
  then show ?thesis using unknown by (auto simp: error_codes_def)
next
  case (limited t w g1 e)
  have "jsonrpc_error_answer 429 (- 32002) ''rate limited'' (svConn s)" unfolding limited by (simp add: writeJSONError_answer assms(2))
  then show ?thesis using limited by (auto simp: error_codes_def)
next
  case (admitted t w g1)
  from admitted(3) show ?thesis
  proof (cases rule: forward_requestE)
    case (blocked buffered sm berr body e)
    let ?m = "blockReason (map_of (policies g1) (route_name (rqPath rq))) sm"
    have "jsonrpc_error_answer 403 (- 32003) ?m (svConn s)" unfolding blocked by (simp add: writeJSONError_answer assms(2))
    then show ?thesis using blocked by (auto simp: error_codes_def)
  qed (use assms(3) in simp)
qed

lemma proxy_unreachable:
  assumes "exRoundTrip ex (pxOut (proxy_ServeHTTP rt ex t n ost rq body w)) = Inl err"
  shows "pxWriter (proxy_ServeHTTP rt ex t n ost rq body w) = ErrorHandler err w" "\<not> pxAborted (proxy_ServeHTTP rt ex t n ost rq body w)"
  using assms unfolding pxOut_rewrite by (simp_all add: proxy_ServeHTTP_def Let_def)

lemma unreachable_answer:
  assumes "ServeHTTP env rq c g = (s, g')" "idle_conn c" "svOut s = Some out" "exRoundTrip (reExchange env) out = Inl err"
  shows "\<exists>e. jsonrpc_error_answer 502 (- 32001) ''upstream unavailable'' (svConn s) \<and> svEntries s = [e] \<and> eStatus e = 502"
  using assms(1,3)
proof (cases rule: forwardedE)
  case (1 t w g1 buffered sm berr body p)
  let ?w = "\<lparr>cwConn = c, cwStatus = 0, cwWritten = 0\<rparr>"
  have "pxWriter p = ErrorHandler err ?w" "\<not> pxAborted p"
    using assms(4) unfolding 1(7) 1(6) by (rule proxy_unreachable)+
  moreover have "eStatus (response_entry (ErrorHandler err ?w) x y z) = 502" for x y z
    using ErrorHandler_answer [of ?w err] assms(2) by (simp add: response_entry_def Let_def split: option.splits)
  ultimately show ?thesis using ErrorHandler_answer [of ?w err] assms(2) 1(8,10) by simp
qed



end
