(* ===== verification/Body_Reader.thy ===== *)
theory Body_Reader
  imports Gateway
begin

text \<open>
  The body the upstream reads, \<^verbatim>\<open>gateway/gateway.go\<close>: the buffered bytes first and then, for a body over the
  cap, the rest of the client's body through a \<^verbatim>\<open>countingReader\<close>.  \<open>peek_body\<close> and \<open>forward_request\<close>
  speak of the whole body and of the number of bytes the transport has read; the reader refines them.
\<close>

subsection \<open>Readers\<close>

text \<open>The unread rest of the client's body and the shared counter.\<close>

record countingReader =
  crRest :: bytes
  crN :: nat

text \<open>
  \<^verbatim>\<open>Read\<close>: \<open>n\<close> is the number of bytes the connection has for the call, at most the space of the
  caller; every byte it gives is counted.
\<close>

definition cr_Read :: "nat \<Rightarrow> countingReader \<Rightarrow> bytes \<times> countingReader" where
  "cr_Read n c = (let b = take n (crRest c) in (b, c\<lparr>crRest := drop n (crRest c), crN := crN c + length b\<rparr>))"

text \<open>
  \<^verbatim>\<open>r.Body\<close> after the peek: the unread part of the buffer, and the reader of the rest when there is
  one.  \<^verbatim>\<open>io.MultiReader\<close> turns to it when the buffer is used up.
\<close>

record readCloser =
  rcBuf :: bytes
  rcRest :: "countingReader option"

definition body_Read :: "nat \<Rightarrow> readCloser \<Rightarrow> bytes \<times> readCloser" where
  "body_Read n r =
     (if rcBuf r \<noteq> [] then (take n (rcBuf r), r\<lparr>rcBuf := drop n (rcBuf r)\<rparr>)
      else case rcRest r of
             None \<Rightarrow> ([], r)
           | Some c \<Rightarrow> (case cr_Read n c of (b, c1) \<Rightarrow> (b, r\<lparr>rcRest := Some c1\<rparr>)))"

definition peeked_body :: "bytes \<Rightarrow> readCloser" where
  "peeked_body b =
     (if length b \<le> maxRPCPeek then \<lparr>rcBuf = b, rcRest = None\<rparr>
      else \<lparr>rcBuf = take (maxRPCPeek + 1) b, rcRest = Some \<lparr>crRest = drop (maxRPCPeek + 1) b, crN = 0\<rparr>\<rparr>)"

fun body_reads :: "nat list \<Rightarrow> readCloser \<Rightarrow> bytes \<times> readCloser" where
  "body_reads [] r = ([], r)"
| "body_reads (n # ns) r = (case body_Read n r of (b, r1) \<Rightarrow> (case body_reads ns r1 of (bs, r2) \<Rightarrow> (b @ bs, r2)))"

definition extraIn :: "readCloser \<Rightarrow> nat" where
  "extraIn r = (case rcRest r of None \<Rightarrow> 0 | Some c \<Rightarrow> crN c)"

subsection \<open>What is read\<close>

text \<open>The bytes a reader still has.\<close>

definition unread :: "readCloser \<Rightarrow> bytes" where
  "unread r = rcBuf r @ (case rcRest r of None \<Rightarrow> [] | Some c \<Rightarrow> crRest c)"

text \<open>The state after \<open>k\<close> bytes of a body were read, of which \<open>m\<close> were buffered.\<close>

definition read_up_to :: "bytes \<Rightarrow> nat \<Rightarrow> nat \<Rightarrow> readCloser \<Rightarrow> bool" where
  "read_up_to b m k r \<longleftrightarrow> k \<le> length b \<and> unread r = drop k b \<and> rcBuf r = drop k (take m b) \<and> extraIn r = k - m"

lemma body_Read_step:
  assumes "read_up_to b m k r" "m \<le> length b" "body_Read n r = (x, r')"
  shows "x = take (length x) (drop k b) \<and> read_up_to b m (k + length x) r'"
proof (cases "rcBuf r = []")
  case False
  have buf: "rcBuf r = drop k (take m b)" and k: "k < m" using assms(1) False by (auto simp: read_up_to_def)
  have x: "x = take n (drop k (take m b))" "r' = r\<lparr>rcBuf := drop n (drop k (take m b))\<rparr>"
    using assms(3) False buf by (auto simp: body_Read_def)
  have e: "rcBuf r @ (case rcRest r of None \<Rightarrow> [] | Some c \<Rightarrow> crRest c) = drop k b" "extraIn r = 0"
    using assms(1) k by (auto simp: read_up_to_def unread_def)
  have l: "length x = min n (m - k)" using x(1) assms(2) by simp
  have "x = take (length x) (drop k b)" unfolding l x(1) using k by (simp add: take_drop min_def)
  moreover have "rcBuf r' = drop (k + length x) (take m b)" using x(2) l assms(2) by (auto simp: min_def add.commute)
  moreover have "unread r' = drop (k + length x) b"
  proof -
    have "rcBuf r = x @ rcBuf r'" unfolding x buf by (simp del: drop_drop)
    then have "unread r = x @ unread r'" using x(2) by (simp add: unread_def)
    then show ?thesis using assms(1) by (metis append_eq_conv_conj drop_drop add.commute read_up_to_def)
  qed
  moreover have "extraIn r' = k + length x - m" using e(2) x(2) l k by (simp add: extraIn_def)
  ultimately show ?thesis using l k assms(2) by (simp add: read_up_to_def)
next
  case True
  have k: "m \<le> k \<or> b = []" "k \<le> length b" using assms(1,2) True by (auto simp: read_up_to_def)
  show ?thesis
  proof (cases "rcRest r")
    case None
    then show ?thesis using assms(1,3) True by (simp add: body_Read_def)
  next
    case (Some c)
    have c: "crRest c = drop k b" "crN c = k - m" using assms(1) True Some by (simp_all add: read_up_to_def unread_def extraIn_def)
    have x: "x = take n (drop k b)" "r' = r\<lparr>rcRest := Some (c\<lparr>crRest := drop n (drop k b), crN := k - m + length x\<rparr>)\<rparr>"
      using assms(3) True Some c by (auto simp: body_Read_def cr_Read_def Let_def)
    have l: "length x = min n (length b - k)" using x(1) by simp
    have "drop n (drop k b) = drop (k + length x) b" using l by (auto simp: min_def add.commute)
    moreover have "x = take (length x) (drop k b)" using x(1) by (metis append_take_drop_id append_eq_conv_conj)
    ultimately show ?thesis using x l k True assms(1)
      by (auto simp: read_up_to_def unread_def extraIn_def)
  qed
qed

lemma body_reads_steps:
  assumes "read_up_to b m k r" "m \<le> length b" "body_reads ns r = (x, r')"
  shows "x = take (length x) (drop k b) \<and> read_up_to b m (k + length x) r'"
  using assms(1,3)
proof (induction ns arbitrary: k r x)
  case (Cons n ns)
  obtain y r1 where y: "body_Read n r = (y, r1)" by fastforce
  obtain z r2 where z: "body_reads ns r1 = (z, r2)" by fastforce
  have x: "x = y @ z" "r' = r2" using Cons.prems(2) y z by auto
  note s = body_Read_step [OF Cons.prems(1) assms(2) y]
  have "body_reads ns r1 = (z, r')" using z x(2) by simp
  note t = Cons.IH [OF conjunct2 [OF s] this]
  have "x = take (length x) (drop k b)"
    using s t x(1) by (metis append_eq_conv_conj drop_drop add.commute length_append take_add)
  moreover have "read_up_to b m (k + length x) r'" using t x(1) by (simp add: add.assoc)
  ultimately show ?case by blast
qed simp

lemma body_Read_progress:
  assumes "read_up_to b m k r" "k < length b" "0 < n" "body_Read n r = (x, r')"
  shows "0 < length x"
proof -
  have "unread r \<noteq> []" using assms(1,2) by (simp add: read_up_to_def)
  then show ?thesis using assms(3,4)
    by (auto simp: unread_def body_Read_def cr_Read_def Let_def split: if_splits option.splits)
qed

lemma body_reads_progress:
  assumes "read_up_to b m k r" "m \<le> length b" "\<forall>n\<in>set ns. 0 < n" "body_reads ns r = (x, r')"
  shows "min (length ns) (length b - k) \<le> length x"
  using assms(1,3,4)
proof (induction ns arbitrary: k r x)
  case (Cons n ns)
  obtain y r1 where y: "body_Read n r = (y, r1)" by fastforce
  obtain z r2 where z: "body_reads ns r1 = (z, r2)" by fastforce
  have x: "x = y @ z" "r' = r2" using Cons.prems(3) y z by auto
  note s = body_Read_step [OF Cons.prems(1) assms(2) y]
  have "body_reads ns r1 = (z, r')" "\<forall>n\<in>set ns. 0 < n" using z x(2) Cons.prems(2) by simp_all
  then have "min (length ns) (length b - (k + length y)) \<le> length z" using Cons.IH [OF conjunct2 [OF s]] by blast
  moreover have "k < length b \<Longrightarrow> 0 < length y" using body_Read_progress [OF Cons.prems(1) _ _ y] Cons.prems(2) by simp
  moreover have "length x = length y + length z" using x(1) by simp
  ultimately show ?case by (simp only: list.size) linarith
qed simp

text \<open>
  C17. The upstream reads the client's body: however the transport reads, it gets the bytes of the client's
  body in order from the first one, and the number the audit entry adds up, buffered bytes and
  counted bytes, is the larger of what was buffered and what was read.  Reads that each make progress
  reach the end of the body.
\<close>

theorem body_read_through:
  assumes "rqBody rq = Some b" "rqBodyErr rq = None" "body_reads ns (peeked_body b) = (x, r)"
  shows "x = take (length x) b \<and>
    ((\<forall>n\<in>set ns. 0 < n) \<and> length b \<le> length ns \<longrightarrow> x = b) \<and>
    (case peek_body rq of (buffered, _, _, body) \<Rightarrow>
       body = b \<and> buffered + extraIn r = buffered + (min (length x) (length body) - buffered))"
proof -
  define m where "m = (if length b \<le> maxRPCPeek then length b else maxRPCPeek + 1)"
  have m: "m \<le> length b" by (simp add: m_def)
  have r: "read_up_to b m 0 (peeked_body b)" by (simp add: read_up_to_def peeked_body_def unread_def extraIn_def m_def)
  from body_reads_steps [OF r m assms(3)]
  have x: "x = take (length x) b" "read_up_to b m (length x) r" by simp_all
  then have "length x \<le> length b" "extraIn r = length x - m" by (simp_all add: read_up_to_def)
  moreover have "\<exists>sm. peek_body rq = (m, sm, [], b)" using assms(1,2) by (simp add: peek_body_def m_def)
  moreover have "x = b" if "\<forall>n\<in>set ns. 0 < n" "length b \<le> length ns"
    using body_reads_progress [OF r m that(1) assms(3)] that(2) x(1) by simp
  ultimately show ?thesis using x(1) by auto
qed

definition short_request :: httpRequest where
  "short_request = \<lparr>rqMethod = ''POST'', rqPath = ''/mcp/fs'', rqRawQuery = [], rqHost = ''g'', rqRemoteAddr = ''1.2.3.4:5'',
     rqHeader = (\<lambda>_. []), rqBody = Some ''abcde'', rqBodyErr = None\<rparr>"

theorem body_read_through_witness:
  "fst (body_reads [2, 1, 1, 4, 1] (peeked_body ''abcde'')) = ''abcde'' \<and>
   (case peek_body short_request of (buffered, _, _, body) \<Rightarrow> body = ''abcde'')"
proof -
  obtain x r where r: "body_reads [2, 1, 1, 4, 1] (peeked_body ''abcde'') = (x, r)" by fastforce
  from body_read_through [OF _ _ this, of short_request] r show ?thesis by (auto simp: short_request_def)
qed

end
