(* ===== verification/Scan_Pool.thy ===== *)
theory Scan_Pool
  imports Promptproof "HOL-Library.Multiset"
begin

text \<open>
  The coprocess pool of \<^verbatim>\<open>gateway/promptproof.go\<close>: \<^verbatim>\<open>ppProc\<close> with \<^verbatim>\<open>ensure\<close>, \<^verbatim>\<open>scan\<close>, \<^verbatim>\<open>kill\<close> and
  \<^verbatim>\<open>shutdown\<close> over an explicit table of child processes and open descriptors, and \<^verbatim>\<open>Scan\<close> and
  \<^verbatim>\<open>Close\<close> as the steps of any number of goroutines that share the pool's channel.
\<close>

subsection \<open>Processes and descriptors\<close>

text \<open>The children that were started and not reaped, the open descriptors, and the next unused number.\<close>

record os =
  procs :: "nat list"
  fds :: "nat list"
  fresh :: nat

definition os_ok :: "os \<Rightarrow> bool" where
  "os_ok w \<longleftrightarrow> distinct (procs w) \<and> distinct (fds w) \<and> (\<forall>x \<in> set (procs w) \<union> set (fds w). x < fresh w)"

definition open_fd :: "os \<Rightarrow> nat \<times> os" where
  "open_fd w = (fresh w, w\<lparr>fds := fresh w # fds w, fresh := Suc (fresh w)\<rparr>)"

definition close_fd :: "nat \<Rightarrow> os \<Rightarrow> os" where
  "close_fd d w = w\<lparr>fds := remove1 d (fds w)\<rparr>"

definition start_proc :: "os \<Rightarrow> nat \<times> os" where
  "start_proc w = (fresh w, w\<lparr>procs := fresh w # procs w, fresh := Suc (fresh w)\<rparr>)"

definition reap_proc :: "nat \<Rightarrow> os \<Rightarrow> os" where
  "reap_proc c w = w\<lparr>procs := remove1 c (procs w)\<rparr>"

text \<open>\<^verbatim>\<open>os.Pipe\<close>: its two ends, or an error.\<close>

definition os_Pipe :: "bytes option \<Rightarrow> os \<Rightarrow> (bytes + nat \<times> nat) \<times> os" where
  "os_Pipe failure w =
     (case failure of
        Some e \<Rightarrow> (Inl e, w)
      | None \<Rightarrow> (let (r, w1) = open_fd w; (x, w2) = open_fd w1 in (Inr (r, x), w2)))"

subsection \<open>One coprocess\<close>

record ppProc =
  pBin :: bytes
  pArgs :: "bytes list"
  pCmd :: "nat option"
  pStdin :: "nat option"
  pStdoutR :: "nat option"

text \<open>What the system answers when a coprocess is started: the errors of the two pipes and of \<^verbatim>\<open>Start\<close>.\<close>

record spawn_env =
  inPipe :: "bytes option"
  outPipe :: "bytes option"
  startErr :: "bytes option"

definition ensure :: "spawn_env \<Rightarrow> ppProc \<Rightarrow> os \<Rightarrow> bytes option \<times> ppProc \<times> os" where
  "ensure env p w =
     (if pCmd p \<noteq> None then (None, p, w)
      else case os_Pipe (inPipe env) w of
        (Inl e, w1) \<Rightarrow> (Some e, p, w1)
      | (Inr (inR, inW), w1) \<Rightarrow>
          (case os_Pipe (outPipe env) w1 of
             (Inl e, w2) \<Rightarrow> (Some e, p, close_fd inW (close_fd inR w2))
           | (Inr (outR, outW), w2) \<Rightarrow>
               (case startErr env of
                  Some e \<Rightarrow> (Some e, p, close_fd outW (close_fd outR (close_fd inW (close_fd inR w2))))
                | None \<Rightarrow>
                    (let (c, w3) = start_proc w2; w4 = close_fd outW (close_fd inR w3)
                     in (None, p\<lparr>pCmd := Some c, pStdin := Some inW, pStdoutR := Some outR\<rparr>, w4)))))"

definition close_opt :: "nat option \<Rightarrow> os \<Rightarrow> os" where
  "close_opt d w = (case d of None \<Rightarrow> w | Some x \<Rightarrow> close_fd x w)"

definition kill :: "ppProc \<Rightarrow> os \<Rightarrow> ppProc \<times> os" where
  "kill p w =
     (case pCmd p of
        None \<Rightarrow> (p, w)
      | Some c \<Rightarrow>
          (p\<lparr>pCmd := None, pStdin := None, pStdoutR := None\<rparr>,
           reap_proc c (close_opt (pStdoutR p) (close_opt (pStdin p) w))))"

definition shutdown :: "ppProc \<Rightarrow> os \<Rightarrow> ppProc \<times> os" where
  "shutdown p w =
     (case pCmd p of
        None \<Rightarrow> (p, w)
      | Some c \<Rightarrow> (p\<lparr>pCmd := None\<rparr>, close_opt (pStdoutR p) (reap_proc c (close_opt (pStdin p) w))))"

text \<open>
  How the exchange over the pipes ends: a line of output, an error of a write or of the read, or no
  answer before the time-out.
\<close>

datatype io_result = Line bytes | IOErr bytes | NoAnswer

text \<open>The frame a scan writes: the length in decimal, a line feed, the content.\<close>

definition frame :: "bytes \<Rightarrow> bytes" where
  "frame content = Itoa (int (length content)) @ [LF] @ content"

definition proc_scan ::
  "go_rt \<Rightarrow> spawn_env \<Rightarrow> (bytes \<Rightarrow> io_result) \<Rightarrow> bytes \<Rightarrow> ppProc \<Rightarrow> os \<Rightarrow> (bytes + scanResult) \<times> ppProc \<times> os" where
  "proc_scan rt env exch content p w =
     (case ensure env p w of
        (Some e, p1, w1) \<Rightarrow> (Inl e, p1, w1)
      | (None, p1, w1) \<Rightarrow>
          (case exch (frame content) of
             Line l \<Rightarrow> (parseReport rt l, p1, w1)
           | IOErr e \<Rightarrow> (Inl (''promptproof scan I/O: '' @ e), kill p1 w1)
           | NoAnswer \<Rightarrow> (Inl ''promptproof scan timed out after 5s'', kill p1 w1)))"

subsection \<open>Ownership\<close>

text \<open>What a \<^verbatim>\<open>ppProc\<close> holds: its child, and its ends of the pipes while the child runs.\<close>

definition children :: "ppProc \<Rightarrow> nat multiset" where
  "children p = (case pCmd p of None \<Rightarrow> {#} | Some c \<Rightarrow> {#c#})"

definition handles :: "ppProc \<Rightarrow> nat multiset" where
  "handles p = (if pCmd p = None then {#} else mset_set (set_option (pStdin p)) + mset_set (set_option (pStdoutR p)))"

text \<open>
  A change of one coprocess that neither loses nor invents anything: whatever else others hold stays
  accounted for.
\<close>

definition conserves :: "ppProc \<Rightarrow> os \<Rightarrow> ppProc \<Rightarrow> os \<Rightarrow> bool" where
  "conserves p w p' w' \<longleftrightarrow>
     (\<forall>cs hs. os_ok w \<longrightarrow> mset (procs w) = children p + cs \<longrightarrow> mset (fds w) = handles p + hs \<longrightarrow>
        os_ok w' \<and> mset (procs w') = children p' + cs \<and> mset (fds w') = handles p' + hs)"

lemma conserves_refl [simp, intro]: "conserves p w p w"
  by (simp add: conserves_def)

lemma conserves_trans: "conserves p w p1 w1 \<Longrightarrow> conserves p1 w1 p2 w2 \<Longrightarrow> conserves p w p2 w2"
  by (simp add: conserves_def)

lemma os_ok_close [simp]: "os_ok w \<Longrightarrow> os_ok (close_opt d w)" "os_ok w \<Longrightarrow> os_ok (close_fd x w)" "os_ok w \<Longrightarrow> os_ok (reap_proc c w)"
  by (auto simp: os_ok_def close_opt_def close_fd_def reap_proc_def split: option.splits dest: notin_set_remove1)

lemma close_sel [simp]:
  "procs (close_fd x w) = procs w" "procs (close_opt d w) = procs w" "fds (reap_proc c w) = fds w"
  "mset (fds (close_fd x w)) = mset (fds w) - {#x#}" "mset (procs (reap_proc c w)) = mset (procs w) - {#c#}"
  "mset (fds (close_opt d w)) = mset (fds w) - mset_set (set_option d)"
  by (simp_all add: close_fd_def close_opt_def reap_proc_def split: option.split)

lemma open_fd_spec:
  "open_fd w = (d, w') \<Longrightarrow> os_ok w \<Longrightarrow> os_ok w' \<and> procs w' = procs w \<and> mset (fds w') = add_mset d (mset (fds w))"
  by (auto simp: open_fd_def os_ok_def less_Suc_eq)

lemma start_proc_spec:
  "start_proc w = (c, w') \<Longrightarrow> os_ok w \<Longrightarrow> os_ok w' \<and> fds w' = fds w \<and> mset (procs w') = add_mset c (mset (procs w))"
  by (auto simp: start_proc_def os_ok_def less_Suc_eq)

lemma os_Pipe_spec:
  "os_Pipe failure w = (r, w') \<Longrightarrow> os_ok w \<Longrightarrow> os_ok w' \<and> procs w' = procs w \<and>
     (case r of Inl e \<Rightarrow> w' = w | Inr (i, x) \<Rightarrow> mset (fds w') = {#i, x#} + mset (fds w))"
  by (auto simp: os_Pipe_def split: option.splits prod.splits dest!: open_fd_spec)

lemma ensure_conserves: "ensure env p w = (e, p', w') \<Longrightarrow> conserves p w p' w'"
  by (auto simp: ensure_def conserves_def children_def handles_def Let_def
      split: sum.splits option.splits if_splits prod.splits dest!: os_Pipe_spec start_proc_spec)

lemma kill_conserves: "kill p w = (p', w') \<Longrightarrow> conserves p w p' w'"
  by (auto simp: kill_def conserves_def children_def handles_def split: option.splits)

lemma shutdown_conserves: "shutdown p w = (p', w') \<Longrightarrow> conserves p w p' w'"
  by (auto simp: shutdown_def conserves_def children_def handles_def split: option.splits)

lemma shutdown_releases: "shutdown p w = (p', w') \<Longrightarrow> children p' = {#} \<and> handles p' = {#}"
  by (auto simp: shutdown_def children_def handles_def split: option.splits)

lemma proc_scan_conserves: "proc_scan rt env exch content p w = (r, p', w') \<Longrightarrow> conserves p w p' w'"
  by (auto simp: proc_scan_def split: prod.splits option.splits io_result.splits
      dest!: ensure_conserves kill_conserves [OF sym] intro: conserves_trans [OF _ kill_conserves])

subsection \<open>The pool\<close>

text \<open>
  Where a goroutine is in \<^verbatim>\<open>Scan\<close>: waiting for a coprocess, holding one, having its result, having read
  \<^verbatim>\<open>s.closed\<close>, and returned.
\<close>

datatype scan_pc =
    Waiting bytes
  | Holding bytes ppProc
  | Scanned ppProc "bytes + scanResult"
  | Checked ppProc "bytes + scanResult" bool
  | Returned "bytes + scanResult"

datatype closing = Opened | Draining | Drained

record scan_pool =
  spCap :: nat
  spPool :: "ppProc list"
  spClosed :: bool
  spClosing :: closing
  spScans :: "scan_pc list"
  spOS :: os

definition drain :: "ppProc list \<Rightarrow> os \<Rightarrow> os" where
  "drain ps w = fold (\<lambda>p w. snd (shutdown p w)) ps w"

text \<open>The loop of \<^verbatim>\<open>newScanner\<close>; a coprocess that does not start closes the ones before it.\<close>

fun fill_pool :: "ppProc \<Rightarrow> (nat \<Rightarrow> spawn_env) \<Rightarrow> nat \<Rightarrow> nat \<Rightarrow> ppProc list \<Rightarrow> os \<Rightarrow> (bytes + ppProc list) \<times> os" where
  "fill_pool p envs i 0 ps w = (Inr ps, w)"
| "fill_pool p envs i (Suc n) ps w =
     (case ensure (envs i) p w of
        (Some e, _, w1) \<Rightarrow> (Inl e, drain ps w1)
      | (None, p1, w1) \<Rightarrow> fill_pool p envs (Suc i) n (ps @ [p1]) w1)"

definition start_pool :: "go_rt \<Rightarrow> (nat \<Rightarrow> spawn_env) \<Rightarrow> Scanner \<Rightarrow> os \<Rightarrow> (bytes \<times> os) + scan_pool" where
  "start_pool rt envs sc w =
     (case fill_pool \<lparr>pBin = bin sc, pArgs = scArgs sc, pCmd = None, pStdin = None, pStdoutR = None\<rparr> envs 0 (poolSize sc) [] w of
        (Inl e, w1) \<Rightarrow> Inl (''promptproof: starting '' @ Quote (is_print rt) (bin sc) @ '': '' @ e, w1)
      | (Inr ps, w1) \<Rightarrow>
          Inr \<lparr>spCap = poolSize sc, spPool = ps, spClosed = False, spClosing = Opened, spScans = [], spOS = w1\<rparr>)"

text \<open>
  The steps of \<^verbatim>\<open>Scan\<close>.  A receive needs a coprocess in the channel and a send a free slot; the flag is
  read under the mutex, in a step of its own.
\<close>

inductive scan_step :: "go_rt \<Rightarrow> scan_pool \<Rightarrow> scan_pool \<Rightarrow> bool" for rt where
  receive: "\<lbrakk>i < length (spScans s); spScans s ! i = Waiting c; spPool s = p # ps\<rbrakk> \<Longrightarrow>
    scan_step rt s (s\<lparr>spPool := ps, spScans := (spScans s)[i := Holding c p]\<rparr>)"
| exchange: "\<lbrakk>i < length (spScans s); spScans s ! i = Holding c p; proc_scan rt env exch c p (spOS s) = (r, p', w')\<rbrakk> \<Longrightarrow>
    scan_step rt s (s\<lparr>spScans := (spScans s)[i := Scanned p' r], spOS := w'\<rparr>)"
| check: "\<lbrakk>i < length (spScans s); spScans s ! i = Scanned p r\<rbrakk> \<Longrightarrow>
    scan_step rt s (s\<lparr>spScans := (spScans s)[i := Checked p r (spClosed s)]\<rparr>)"
| send: "\<lbrakk>i < length (spScans s); spScans s ! i = Checked p r False; length (spPool s) < spCap s\<rbrakk> \<Longrightarrow>
    scan_step rt s (s\<lparr>spPool := spPool s @ [p], spScans := (spScans s)[i := Returned r]\<rparr>)"
| retire: "\<lbrakk>i < length (spScans s); spScans s ! i = Checked p r True; shutdown p (spOS s) = (p', w')\<rbrakk> \<Longrightarrow>
    scan_step rt s (s\<lparr>spScans := (spScans s)[i := Returned r], spOS := w'\<rparr>)"

text \<open>
  With the steps of \<^verbatim>\<open>Close\<close> (once: a second call waits for the first) and new calls of \<^verbatim>\<open>Scan\<close>.
  The coprocess \<^verbatim>\<open>Close\<close> takes from the channel is its own, so taking and shutting it down is one step.
\<close>

definition begin_close :: "scan_pool \<Rightarrow> scan_pool" where
  "begin_close s = s\<lparr>spClosed := True, spClosing := Draining\<rparr>"

inductive pool_step :: "go_rt \<Rightarrow> scan_pool \<Rightarrow> scan_pool \<Rightarrow> bool" for rt where
  call: "pool_step rt s (s\<lparr>spScans := spScans s @ [Waiting c]\<rparr>)"
| scan: "scan_step rt s t \<Longrightarrow> pool_step rt s t"
| close_begin: "spClosing s = Opened \<Longrightarrow> pool_step rt s (begin_close s)"
| close_drain: "\<lbrakk>spClosing s = Draining; spPool s = p # ps; shutdown p (spOS s) = (p', w')\<rbrakk> \<Longrightarrow>
    pool_step rt s (s\<lparr>spPool := ps, spOS := w'\<rparr>)"
| close_end: "\<lbrakk>spClosing s = Draining; spPool s = []\<rbrakk> \<Longrightarrow> pool_step rt s (s\<lparr>spClosing := Drained\<rparr>)"

subsection \<open>The invariant\<close>

fun held :: "scan_pc \<Rightarrow> ppProc multiset" where
  "held (Holding c p) = {#p#}"
| "held (Scanned p r) = {#p#}"
| "held (Checked p r b) = {#p#}"
| "held _ = {#}"

definition owned :: "scan_pool \<Rightarrow> ppProc multiset" where
  "owned s = mset (spPool s) + (\<Sum>pc \<in># mset (spScans s). held pc)"

text \<open>
  Every child and every open descriptor, besides those of the rest of the program (\<open>cs\<close>, \<open>hs\<close>),
  belongs to exactly one coprocess record in the channel or in the hands of one scan, and there are
  never more records than slots; before \<^verbatim>\<open>Close\<close>, exactly as many.
\<close>

definition pool_ok :: "nat multiset \<Rightarrow> nat multiset \<Rightarrow> scan_pool \<Rightarrow> bool" where
  "pool_ok cs hs s \<longleftrightarrow> os_ok (spOS s) \<and>
     mset (procs (spOS s)) = (\<Sum>p \<in># owned s. children p) + cs \<and>
     mset (fds (spOS s)) = (\<Sum>p \<in># owned s. handles p) + hs \<and>
     size (owned s) \<le> spCap s \<and> (spClosing s = Opened \<longrightarrow> size (owned s) = spCap s) \<and>
     (spClosed s \<longleftrightarrow> spClosing s \<noteq> Opened)"

lemma held_update:
  assumes "i < length scs" "scs ! i = pc"
  shows "(\<Sum>pc \<in># mset (scs[i := pc']). held pc) + held pc = (\<Sum>pc \<in># mset scs. held pc) + held pc'"
proof -
  have m: "pc \<in># mset scs" using assms by (metis nth_mem set_mset_mset)
  then obtain R where R: "mset scs = add_mset pc R" by (metis mset_add)
  then show ?thesis using assms by (simp add: mset_update)
qed

lemma owned_swap:
  assumes "i < length (spScans s)" "spScans s ! i = pc" "mset ps + held pc' + D = mset (spPool s) + held pc + E"
  shows "owned (s\<lparr>spPool := ps, spScans := (spScans s)[i := pc'], spOS := w'\<rparr>) + D = owned s + E"
proof -
  have "owned (s\<lparr>spPool := ps, spScans := (spScans s)[i := pc'], spOS := w'\<rparr>) + D + held pc =
      mset ps + ((\<Sum>pc \<in># mset ((spScans s)[i := pc']). held pc) + held pc) + D" by (simp add: owned_def)
  also have "\<dots> = (mset ps + held pc' + D) + (\<Sum>pc \<in># mset (spScans s). held pc)"
    unfolding held_update [OF assms(1,2)] by simp
  also have "\<dots> = owned s + E + held pc" unfolding assms(3) by (simp add: owned_def)
  finally show ?thesis by simp
qed

text \<open>One coprocess changes hands or state and everything else stays accounted for.\<close>

lemma pool_ok_replace:
  assumes "pool_ok cs hs s" "owned s = add_mset p M" "owned t = add_mset p' M" "conserves p (spOS s) p' (spOS t)"
    and "spCap t = spCap s" "spClosing t = spClosing s" "spClosed t = spClosed s"
  shows "pool_ok cs hs t"
proof -
  let ?C = "(\<Sum>p \<in># M. children p) + cs" and ?H = "(\<Sum>p \<in># M. handles p) + hs"
  have "os_ok (spOS s)" "mset (procs (spOS s)) = children p + ?C" "mset (fds (spOS s)) = handles p + ?H"
    using assms(1,2) by (simp_all add: pool_ok_def add.assoc)
  with assms(4) have "os_ok (spOS t)" "mset (procs (spOS t)) = children p' + ?C" "mset (fds (spOS t)) = handles p' + ?H"
    unfolding conserves_def by blast+
  then show ?thesis using assms by (simp add: pool_ok_def add.assoc)
qed

lemma pool_ok_same:
  "pool_ok cs hs s \<Longrightarrow> owned t = owned s \<Longrightarrow> spOS t = spOS s \<Longrightarrow> spCap t = spCap s \<Longrightarrow> spClosing t = spClosing s \<Longrightarrow>
     spClosed t = spClosed s \<Longrightarrow> pool_ok cs hs t"
  by (simp add: pool_ok_def)

lemma pool_ok_drop:
  assumes "pool_ok cs hs s" "owned s = add_mset p (owned t)" "shutdown p (spOS s) = (p', spOS t)" "spClosed s"
    and "spCap t = spCap s" "spClosing t = spClosing s" "spClosed t = spClosed s"
  shows "pool_ok cs hs t"
proof -
  let ?C = "(\<Sum>p \<in># owned t. children p) + cs" and ?H = "(\<Sum>p \<in># owned t. handles p) + hs"
  have "os_ok (spOS s)" "mset (procs (spOS s)) = children p + ?C" "mset (fds (spOS s)) = handles p + ?H"
    using assms(1,2) by (simp_all add: pool_ok_def add.assoc)
  with shutdown_conserves [OF assms(3)] have "os_ok (spOS t)" "mset (procs (spOS t)) = children p' + ?C"
      "mset (fds (spOS t)) = handles p' + ?H"
    unfolding conserves_def by blast+
  then show ?thesis using assms shutdown_releases [OF assms(3)] by (simp add: pool_ok_def)
qed

text \<open>A scan that read the flag as set finds it set for good.\<close>

definition flag_kept :: "scan_pool \<Rightarrow> bool" where
  "flag_kept s \<longleftrightarrow> (\<forall>p r. Checked p r True \<in> set (spScans s) \<longrightarrow> spClosed s)"

lemma scan_step_ok:
  assumes "scan_step rt s t" "pool_ok cs hs s" "flag_kept s"
  shows "pool_ok cs hs t"
  using assms
proof (cases rule: scan_step.cases)
  case (receive i c p ps)
  then show ?thesis using owned_swap [OF receive(2,3), of ps "Holding c p" "{#}" "{#}" "spOS s"]
    by (intro pool_ok_same [OF assms(2)]) simp_all
next
  case (exchange i c p env exch r p' w')
  have m: "p \<in># owned s" using exchange(2,3) by (auto simp: owned_def in_set_conv_nth intro!: bexI [of _ "Holding c p"])
  then obtain M where M: "owned s = add_mset p M" by (metis mset_add)
  have "owned t + {#p#} = owned s + {#p'#}"
    using owned_swap [OF exchange(2,3), of "spPool s" "Scanned p' r" "{#p#}" "{#p'#}" w'] exchange(1) by simp
  then have "owned t = add_mset p' M" using M by simp
  then show ?thesis using pool_ok_replace [OF assms(2) M] proc_scan_conserves [OF exchange(4)] exchange(1) by simp
next
  case (check i p r)
  then show ?thesis using owned_swap [OF check(2,3), of "spPool s" "Checked p r (spClosed s)" "{#}" "{#}" "spOS s"]
    by (intro pool_ok_same [OF assms(2)]) simp_all
next
  case (send i p r)
  then show ?thesis using owned_swap [OF send(2,3), of "spPool s @ [p]" "Returned r" "{#}" "{#}" "spOS s"]
    by (intro pool_ok_same [OF assms(2)]) simp_all
next
  case (retire i p r p' w')
  have "owned t + {#p#} = owned s" using owned_swap [OF retire(2,3), of "spPool s" "Returned r" "{#p#}" "{#}" w'] retire(1) by simp
  moreover have "spClosed s" using assms(3) retire(2,3) by (auto simp: flag_kept_def in_set_conv_nth)
  ultimately show ?thesis using retire by (intro pool_ok_drop [OF assms(2), of p t p']) simp_all
qed

lemma scan_step_flag: "scan_step rt s t \<Longrightarrow> flag_kept s \<Longrightarrow> flag_kept t"
  by (induction rule: scan_step.induct) (auto simp: flag_kept_def dest!: set_update_subset_insert [THEN subsetD])

definition pool_inv :: "nat multiset \<Rightarrow> nat multiset \<Rightarrow> scan_pool \<Rightarrow> bool" where
  "pool_inv cs hs s \<longleftrightarrow> pool_ok cs hs s \<and> flag_kept s"

lemma pool_step_inv:
  assumes "pool_step rt s t" "pool_inv cs hs s"
  shows "pool_inv cs hs t"
proof -
  have s: "pool_ok cs hs s" "flag_kept s" using assms(2) by (simp_all add: pool_inv_def)
  have "pool_ok cs hs t \<and> flag_kept t" using assms(1)
  proof (cases rule: pool_step.cases)
    case (call c)
    have "pool_ok cs hs t" by (rule pool_ok_same [OF s(1)]) (simp_all add: call owned_def)
    moreover have "flag_kept t" using s(2) by (simp add: flag_kept_def call)
    ultimately show ?thesis ..
  next
    case scan
    then show ?thesis using scan_step_ok [OF scan s] scan_step_flag [OF scan s(2)] by simp
  next
    case close_begin
    have o: "owned t = owned s" by (simp add: close_begin owned_def begin_close_def)
    show ?thesis using s(1) unfolding pool_ok_def flag_kept_def o by (simp add: close_begin begin_close_def)
  next
    case (close_drain p ps p' w')
    have "pool_ok cs hs t"
      by (rule pool_ok_drop [OF s(1), of p t p']) (use s(1) close_drain in \<open>simp_all add: pool_ok_def owned_def\<close>)
    then show ?thesis using s(2) by (simp add: flag_kept_def close_drain(1))
  next
    case close_end
    have o: "owned t = owned s" by (simp add: close_end owned_def)
    show ?thesis using s unfolding pool_ok_def flag_kept_def o by (simp add: close_end)
  qed
  then show ?thesis by (simp add: pool_inv_def)
qed

text \<open>What every step keeps holds after any number of steps.\<close>

locale step_invariant =
  fixes step :: "'s \<Rightarrow> 's \<Rightarrow> bool" and inv :: "'s \<Rightarrow> bool"
  assumes step_keeps: "step s t \<Longrightarrow> inv s \<Longrightarrow> inv t"
begin

lemma run_keeps: "step\<^sup>*\<^sup>* s t \<Longrightarrow> inv s \<Longrightarrow> inv t"
  by (induction rule: rtranclp_induct) (auto intro: step_keeps)

end

interpretation pool: step_invariant "pool_step rt" "pool_inv cs hs" for rt cs hs
  by unfold_locales (rule pool_step_inv)

subsection \<open>Starting\<close>

lemma drain_spec:
  assumes "os_ok w" "mset (procs w) = (\<Sum>p \<in># mset ps. children p) + cs" "mset (fds w) = (\<Sum>p \<in># mset ps. handles p) + hs"
  shows "os_ok (drain ps w) \<and> mset (procs (drain ps w)) = cs \<and> mset (fds (drain ps w)) = hs"
  using assms
proof (induction ps arbitrary: w)
  case (Cons p ps)
  obtain p' w' where sh: "shutdown p w = (p', w')" by fastforce
  have "os_ok w' \<and> mset (procs w') = children p' + ((\<Sum>p \<in># mset ps. children p) + cs) \<and>
      mset (fds w') = handles p' + ((\<Sum>p \<in># mset ps. handles p) + hs)"
    using shutdown_conserves [OF sh] Cons.prems unfolding conserves_def by (simp add: add.assoc)
  with Cons.IH [of w'] shutdown_releases [OF sh] show ?case by (simp add: drain_def sh)
qed (simp add: drain_def)

lemma ensure_started: "ensure env p w = (None, p', w') \<Longrightarrow> pCmd p' \<noteq> None \<and> (pCmd p = None \<longrightarrow> size (children p') = 1 \<and> size (handles p') = 2)"
  by (auto simp: ensure_def children_def handles_def Let_def split: sum.splits option.splits if_splits prod.splits)

lemma ensure_failed: "ensure env p w = (Some e, p', w') \<Longrightarrow> p' = p \<and> pCmd p = None"
  by (auto simp: ensure_def Let_def split: sum.splits option.splits if_splits prod.splits)

lemma fill_pool_spec:
  assumes "fill_pool p envs i n ps w = (r, w')" "pCmd p = None" "os_ok w"
    and "mset (procs w) = (\<Sum>p \<in># mset ps. children p) + cs" "mset (fds w) = (\<Sum>p \<in># mset ps. handles p) + hs"
  shows "os_ok w' \<and> (case r of Inl e \<Rightarrow> mset (procs w') = cs \<and> mset (fds w') = hs
    | Inr qs \<Rightarrow> length qs = length ps + n \<and> mset (procs w') = (\<Sum>p \<in># mset qs. children p) + cs \<and>
        mset (fds w') = (\<Sum>p \<in># mset qs. handles p) + hs)"
  using assms
proof (induction p envs i n ps w rule: fill_pool.induct)
  case (2 p envs i n ps w)
  obtain e p1 w1 where en: "ensure (envs i) p w = (e, p1, w1)" by (metis prod_cases3)
  have p: "children p = {#}" "handles p = {#}" using "2.prems"(2) by (simp_all add: children_def handles_def)
  have c: "os_ok w1" "mset (procs w1) = children p1 + ((\<Sum>p \<in># mset ps. children p) + cs)"
      "mset (fds w1) = handles p1 + ((\<Sum>p \<in># mset ps. handles p) + hs)"
    using ensure_conserves [OF en] "2.prems" p unfolding conserves_def by auto
  show ?case
  proof (cases e)
    case None
    then show ?thesis using 2 en c by (cases r) (simp_all add: add.assoc)
  next
    case (Some x)
    then show ?thesis using "2.prems"(1) en c p ensure_failed [of "envs i" p w x p1 w1] drain_spec [of w1 ps cs hs] by auto
  qed
qed auto

lemma start_pool_Inr:
  assumes "start_pool rt envs sc w = Inr s" "os_ok w"
  shows "pool_inv (mset (procs w)) (mset (fds w)) s \<and> spCap s = poolSize sc \<and> spClosing s = Opened \<and> spScans s = []"
proof -
  let ?p = "\<lparr>pBin = bin sc, pArgs = scArgs sc, pCmd = None, pStdin = None, pStdoutR = None\<rparr>"
  obtain r w1 where f: "fill_pool ?p envs 0 (poolSize sc) [] w = (r, w1)" by fastforce
  have "os_ok w1 \<and> (case r of Inl e \<Rightarrow> mset (procs w1) = mset (procs w) \<and> mset (fds w1) = mset (fds w)
    | Inr qs \<Rightarrow> length qs = length ([] :: ppProc list) + poolSize sc \<and> mset (procs w1) = (\<Sum>p \<in># mset qs. children p) + mset (procs w) \<and>
        mset (fds w1) = (\<Sum>p \<in># mset qs. handles p) + mset (fds w))"
    by (rule fill_pool_spec [OF f]) (use assms(2) in simp_all)
  then show ?thesis using assms(1) f
    by (auto simp: start_pool_def pool_inv_def pool_ok_def flag_kept_def owned_def split: sum.splits)
qed

subsection \<open>Properties of the pool\<close>

lemma children_size: "size (\<Sum>p \<in># M. children p) \<le> size M"
  by (induction M) (auto simp: children_def split: option.split)

lemma send_ready:
  assumes "pool_ok cs hs t" "Checked p r False \<in> set (spScans t)"
  shows "length (spPool t) < spCap t"
proof -
  obtain R where "mset (spScans t) = add_mset (Checked p r False) R" using assms(2) by (metis mset_add set_mset_mset)
  then have "length (spPool t) < size (owned t)" by (simp add: owned_def)
  also have "\<dots> \<le> spCap t" using assms(1) by (simp add: pool_ok_def)
  finally show ?thesis .
qed

lemma scan_step_frame:
  "scan_step rt s t \<Longrightarrow> spCap t = spCap s \<and> spClosed t = spClosed s \<and> spClosing t = spClosing s \<and> length (spScans t) = length (spScans s)"
  by (induction rule: scan_step.induct) auto

lemma pool_step_cap: "pool_step rt s t \<Longrightarrow> spCap t = spCap s"
  by (induction rule: pool_step.induct) (auto simp: begin_close_def dest: scan_step_frame)

interpretation capped: step_invariant "pool_step rt" "\<lambda>s. spCap s = n" for rt n
  by unfold_locales (simp add: pool_step_cap)

text \<open>
  C9. Exclusive use, bounded number, nothing lost: after any interleaving of scans and \<^verbatim>\<open>Close\<close>, every
  child process the pool started and every pipe it opened belongs to exactly one coprocess record,
  which sits in the channel or is held by one scan, and at most \<open>poolSize\<close> coprocesses run.  A scan
  that puts its coprocess back never blocks on the channel.
\<close>

theorem pool_exclusive:
  assumes "os_ok w" "start_pool rt envs sc w = Inr s" "(pool_step rt)\<^sup>*\<^sup>* s t"
  shows "mset (procs (spOS t)) = (\<Sum>p \<in># owned t. children p) + mset (procs w) \<and>
    mset (fds (spOS t)) = (\<Sum>p \<in># owned t. handles p) + mset (fds w) \<and>
    distinct (procs (spOS t)) \<and> distinct (fds (spOS t)) \<and> length (procs (spOS t)) \<le> poolSize sc + length (procs w) \<and>
    (\<forall>p r. Checked p r False \<in> set (spScans t) \<longrightarrow> length (spPool t) < spCap t)"
proof -
  have i: "pool_inv (mset (procs w)) (mset (fds w)) s" "spCap s = poolSize sc" using start_pool_Inr [OF assms(2,1)] by auto
  note ok = pool.run_keeps [OF assms(3) i(1)]
  have cap: "spCap t = poolSize sc" using capped.run_keeps [OF assms(3) i(2)] .
  have o: "pool_ok (mset (procs w)) (mset (fds w)) t" using ok by (simp add: pool_inv_def)
  have "size (\<Sum>p \<in># owned t. children p) \<le> size (owned t)" by (rule children_size)
  then have "size (mset (procs (spOS t))) \<le> poolSize sc + length (procs w)" using o cap by (simp add: pool_ok_def)
  then show ?thesis using o send_ready [OF o] by (simp add: pool_ok_def os_ok_def)
qed

text \<open>
  A system in which \<open>n\<close> children can be started, and the pool of one coprocess of the examples.
\<close>

definition calm :: spawn_env where
  "calm = \<lparr>inPipe = None, outPipe = None, startErr = None\<rparr>"

definition idle_os :: os where
  "idle_os = \<lparr>procs = [], fds = [], fresh = 0\<rparr>"

definition demo_scanner :: Scanner where
  "demo_scanner = \<lparr>bin = ''promptproof'', scArgs = [''serve''], threshold = 2, action = ''block'', poolSize = 1\<rparr>"

definition demo_proc :: ppProc where
  "demo_proc = \<lparr>pBin = ''promptproof'', pArgs = [''serve''], pCmd = Some 4, pStdin = Some 1, pStdoutR = Some 2\<rparr>"

definition demo_pool :: scan_pool where
  "demo_pool = \<lparr>spCap = 1, spPool = [demo_proc], spClosed = False, spClosing = Opened, spScans = [],
     spOS = \<lparr>procs = [4], fds = [2, 1], fresh = 5\<rparr>\<rparr>"

lemma demo_start: "start_pool rt (\<lambda>_. calm) demo_scanner idle_os = Inr demo_pool"
  by (simp add: start_pool_def demo_scanner_def idle_os_def ensure_def calm_def os_Pipe_def open_fd_def start_proc_def
      close_fd_def demo_pool_def demo_proc_def)

lemma idle_os_ok: "os_ok idle_os"
  by (simp add: os_ok_def idle_os_def)

theorem pool_exclusive_witness: "length (procs (spOS (demo_pool\<lparr>spScans := [Waiting ''x'']\<rparr>))) \<le> 1"
proof -
  have "(pool_step plain)\<^sup>*\<^sup>* demo_pool (demo_pool\<lparr>spScans := [Waiting ''x'']\<rparr>)" for plain
    using pool_step.call [of plain demo_pool "''x''"] by (auto simp: demo_pool_def)
  from pool_exclusive [OF idle_os_ok demo_start this] show ?thesis by (simp add: demo_scanner_def idle_os_def)
qed

subsection \<open>Closing\<close>

text \<open>No scan stands between reading the flag as unset and putting its coprocess back.\<close>

definition none_returning :: "scan_pool \<Rightarrow> bool" where
  "none_returning s \<longleftrightarrow> (\<forall>p r. Checked p r False \<notin> set (spScans s))"

text \<open>From then on nothing is put back: the channel only shrinks.\<close>

definition shutting :: "scan_pool \<Rightarrow> bool" where
  "shutting s \<longleftrightarrow> none_returning s \<and> spClosed s \<and> spClosing s \<noteq> Opened \<and> (spClosing s = Drained \<longrightarrow> spPool s = [])"

lemma scan_step_shutting:
  assumes "scan_step rt s t" "shutting s"
  shows "shutting t"
  using assms
proof (cases rule: scan_step.cases)
  case (send i p r)
  then have "Checked p r False \<in> set (spScans s)" by (metis nth_mem)
  then show ?thesis using assms(2) by (simp add: shutting_def none_returning_def)
qed (auto simp: shutting_def none_returning_def dest!: set_update_subset_insert [THEN subsetD])

interpretation shutting: step_invariant "pool_step rt" shutting for rt
proof (unfold_locales, goal_cases)
  case (1 s t)
  then show ?case
  proof (cases rule: pool_step.cases)
    case scan
    then show ?thesis using scan_step_shutting 1(2) by blast
  qed (auto simp: shutting_def none_returning_def begin_close_def)
qed

fun at_rest :: "scan_pc \<Rightarrow> bool" where
  "at_rest (Waiting c) = True"
| "at_rest (Returned r) = True"
| "at_rest _ = False"

lemma held_at_rest: "list_all at_rest scs \<Longrightarrow> (\<Sum>pc \<in># mset scs. held pc) = {#}"
proof (induction scs)
  case (Cons pc scs)
  then show ?case by (cases pc) auto
qed simp

text \<open>
  C15. \<^verbatim>\<open>Close\<close> ends every coprocess: if no scan is between reading the flag and returning its coprocess
  when \<^verbatim>\<open>Close\<close> sets it, then once \<^verbatim>\<open>Close\<close> has returned and the scans in flight have finished, whatever
  the interleaving, no child runs and no pipe is open that the pool had started.
\<close>

theorem close_stops_all:
  assumes "os_ok w" "start_pool rt envs sc w = Inr s0" "(pool_step rt)\<^sup>*\<^sup>* s0 s" "spClosing s = Opened" "none_returning s"
    and "(pool_step rt)\<^sup>*\<^sup>* (begin_close s) t" "spClosing t = Drained" "list_all at_rest (spScans t)"
  shows "mset (procs (spOS t)) = mset (procs w) \<and> mset (fds (spOS t)) = mset (fds w)"
proof -
  have run: "(pool_step rt)\<^sup>*\<^sup>* s0 t"
    using assms(3,6) pool_step.close_begin [OF assms(4), of rt] by (meson rtranclp.rtrancl_into_rtrancl rtranclp_trans)
  have "shutting (begin_close s)" using assms(5) by (simp add: shutting_def begin_close_def none_returning_def)
  then have "shutting t" by (rule shutting.run_keeps [OF assms(6)])
  then have "owned t = {#}" using assms(7) held_at_rest [OF assms(8)] by (simp add: owned_def shutting_def)
  then show ?thesis using pool.run_keeps [OF run conjunct1 [OF start_pool_Inr [OF assms(2,1)]]]
    by (simp add: pool_inv_def pool_ok_def)
qed

lemma demo_shutdown: "shutdown demo_proc (spOS demo_pool) = (demo_proc\<lparr>pCmd := None\<rparr>, \<lparr>procs = [], fds = [], fresh = 5\<rparr>)"
  by (simp add: shutdown_def demo_proc_def demo_pool_def close_opt_def close_fd_def reap_proc_def)

theorem close_stops_all_witness:
  "\<forall>rt. \<exists>t. (pool_step rt)\<^sup>*\<^sup>* (begin_close demo_pool) t \<and> spClosing t = Drained \<and> procs (spOS t) = []"
proof
  fix rt
  let ?d = "(begin_close demo_pool)\<lparr>spPool := [], spOS := \<lparr>procs = [], fds = [], fresh = 5\<rparr>\<rparr>"
  have "pool_step rt (begin_close demo_pool) ?d"
    by (rule pool_step.close_drain [of _ demo_proc _ "demo_proc\<lparr>pCmd := None\<rparr>"])
      (use demo_shutdown in \<open>simp_all add: begin_close_def demo_pool_def\<close>)
  moreover have "pool_step rt ?d (?d\<lparr>spClosing := Drained\<rparr>)" by (rule pool_step.close_end) (simp_all add: begin_close_def)
  ultimately have r: "(pool_step rt)\<^sup>*\<^sup>* (begin_close demo_pool) (?d\<lparr>spClosing := Drained\<rparr>)" by (meson converse_rtranclp_into_rtranclp r_into_rtranclp)
  have "mset (procs (spOS (?d\<lparr>spClosing := Drained\<rparr>))) = mset (procs idle_os) \<and>
      mset (fds (spOS (?d\<lparr>spClosing := Drained\<rparr>))) = mset (fds idle_os)"
    by (rule close_stops_all [OF idle_os_ok demo_start rtranclp.rtrancl_refl _ _ r])
      (simp_all add: demo_pool_def none_returning_def begin_close_def)
  with r show "\<exists>t. (pool_step rt)\<^sup>*\<^sup>* (begin_close demo_pool) t \<and> spClosing t = Drained \<and> procs (spOS t) = []"
    by (intro exI [of _ "?d\<lparr>spClosing := Drained\<rparr>"]) simp
qed

text \<open>
  C40. Without the condition on the moment of \<^verbatim>\<open>Close\<close> this fails: a scan that read the flag before it was
  set puts its coprocess into the drained channel, where nobody shuts it down.
\<close>

theorem close_leaks_coprocess:
  "\<exists>t. (pool_step rt)\<^sup>*\<^sup>* demo_pool t \<and> spClosing t = Drained \<and> list_all at_rest (spScans t) \<and> procs (spOS t) \<noteq> []"
proof -
  let ?w = "spOS demo_pool" and ?r = "Inl ''promptproof: empty response''"
  define s1 where "s1 = demo_pool\<lparr>spScans := [Waiting ''x'']\<rparr>"
  define s2 where "s2 = s1\<lparr>spPool := [], spScans := [Holding ''x'' demo_proc]\<rparr>"
  define s3 where "s3 = s2\<lparr>spScans := [Scanned demo_proc ?r], spOS := ?w\<rparr>"
  define s4 where "s4 = s3\<lparr>spScans := [Checked demo_proc ?r False]\<rparr>"
  define s5 where "s5 = begin_close s4"
  define s6 where "s6 = s5\<lparr>spClosing := Drained\<rparr>"
  define s7 where "s7 = s6\<lparr>spPool := [demo_proc], spScans := [Returned ?r]\<rparr>"
  note ds = s1_def s2_def s3_def s4_def s5_def s6_def s7_def demo_pool_def begin_close_def
  have "pool_step rt demo_pool s1" using pool_step.call [of rt demo_pool "''x''"] by (simp add: ds)
  moreover have "pool_step rt s1 s2"
    using scan_step.receive [of 0 s1 "''x''" demo_proc "[]" rt] by (intro pool_step.scan) (simp add: ds)
  moreover have "proc_scan rt calm (\<lambda>_. Line []) ''x'' demo_proc ?w = (?r, demo_proc, ?w)"
    by (simp add: proc_scan_def ensure_def demo_proc_def parseReport_def)
  then have "pool_step rt s2 s3"
    using scan_step.exchange [of 0 s2 "''x''" demo_proc rt calm "\<lambda>_. Line []" ?r demo_proc ?w] by (intro pool_step.scan) (simp add: ds)
  moreover have "pool_step rt s3 s4" using scan_step.check [of 0 s3 demo_proc ?r rt] by (intro pool_step.scan) (simp add: ds)
  moreover have "pool_step rt s4 s5" unfolding s5_def by (rule pool_step.close_begin) (simp add: ds)
  moreover have "pool_step rt s5 s6" unfolding s6_def by (rule pool_step.close_end) (simp_all add: ds)
  moreover have "pool_step rt s6 s7" using scan_step.send [of 0 s6 demo_proc ?r rt] by (intro pool_step.scan) (simp add: ds)
  ultimately have "(pool_step rt)\<^sup>*\<^sup>* demo_pool s7" by (meson converse_rtranclp_into_rtranclp rtranclp.rtrancl_refl)
  then show ?thesis by (intro exI [of _ s7]) (simp add: ds)
qed

text \<open>A scan that still waits for a coprocess when \<^verbatim>\<open>Close\<close> has returned waits for ever.\<close>

definition starved :: "nat \<Rightarrow> bytes \<Rightarrow> scan_pool \<Rightarrow> bool" where
  "starved i c s \<longleftrightarrow> shutting s \<and> spClosing s = Drained \<and> i < length (spScans s) \<and> spScans s ! i = Waiting c"

lemma scan_step_starved:
  assumes "scan_step rt s t" "starved i c s"
  shows "starved i c t"
proof -
  have "shutting t" "spClosing t = Drained" "i < length (spScans t)"
    using assms scan_step_shutting scan_step_frame by (auto simp: starved_def)
  moreover have "spScans t ! i = Waiting c"
    using assms by (induction rule: scan_step.induct) (auto simp: starved_def shutting_def nth_list_update)
  ultimately show ?thesis by (simp add: starved_def)
qed

interpretation starved: step_invariant "pool_step rt" "starved i c" for rt i c
proof (unfold_locales, goal_cases)
  case (1 s t)
  then have "shutting t" using shutting.step_keeps by (auto simp: starved_def)
  with 1 show ?case
  proof (cases rule: pool_step.cases)
    case scan
    then show ?thesis using scan_step_starved 1(2) by blast
  qed (auto simp: starved_def nth_append)
qed

lemma waiting_starves:
  "shutting s \<Longrightarrow> spClosing s = Drained \<Longrightarrow> i < length (spScans s) \<Longrightarrow> spScans s ! i = Waiting c \<Longrightarrow> (pool_step rt)\<^sup>*\<^sup>* s t \<Longrightarrow>
     spScans t ! i = Waiting c"
  using starved.run_keeps [of rt s t i c] by (simp add: starved_def)

subsection \<open>Every scan returns\<close>

fun weight :: "scan_pc \<Rightarrow> nat" where
  "weight (Waiting c) = 4"
| "weight (Holding c p) = 3"
| "weight (Scanned p r) = 2"
| "weight (Checked p r b) = 1"
| "weight (Returned r) = 0"

definition work :: "scan_pool \<Rightarrow> nat" where
  "work s = sum_list (map weight (spScans s))"

lemma work_update:
  assumes "i < length scs" "weight pc < weight (scs ! i)"
  shows "sum_list (map weight (scs[i := pc])) < sum_list (map weight scs)"
proof -
  have "scs ! i \<in> set scs" using assms(1) by simp
  then have "weight (scs ! i) \<le> sum_list (map weight scs)" by (simp add: member_le_sum_list)
  then show ?thesis using assms by (simp add: map_update sum_list_update)
qed

lemma scan_step_work: "scan_step rt s t \<Longrightarrow> work t < work s"
  by (induction rule: scan_step.induct) (auto simp: work_def intro!: work_update)

lemma scan_steps_bound: "(scan_step rt ^^ n) s t \<Longrightarrow> n + work t \<le> work s"
proof (induction n arbitrary: t)
  case (Suc n)
  then obtain u where "(scan_step rt ^^ n) s u" "scan_step rt u t" by auto
  then show ?case using Suc.IH [of u] scan_step_work [of rt u t] by simp
qed simp

lemma work_le: "work s \<le> 4 * length (spScans s)"
proof -
  have "weight pc \<le> 4" for pc by (cases pc) auto
  then have "sum_list (map weight scs) \<le> 4 * length scs" for scs by (induction scs) (auto intro: add_le_mono)
  then show ?thesis by (simp add: work_def)
qed

fun has_returned :: "scan_pc \<Rightarrow> bool" where
  "has_returned (Returned r) = True"
| "has_returned _ = False"

lemma scan_progress:
  assumes "pool_inv cs hs s" "spClosing s = Opened" "0 < spCap s" "i < length (spScans s)" "\<not> has_returned (spScans s ! i)"
  shows "\<exists>t. scan_step rt s t"
proof (cases "list_all at_rest (spScans s)")
  case True
  then obtain c where c: "spScans s ! i = Waiting c" using assms(4,5) by (cases "spScans s ! i") (auto simp: list_all_length)
  have "mset (spPool s) = owned s" using held_at_rest [OF True] by (simp add: owned_def)
  then have "size (mset (spPool s)) = spCap s" using assms(1,2) by (simp add: pool_inv_def pool_ok_def)
  then obtain p ps where "spPool s = p # ps" using assms(3) by (cases "spPool s") auto
  with c assms(4) show ?thesis using scan_step.receive by blast
next
  case False
  then obtain j where j: "j < length (spScans s)" "\<not> at_rest (spScans s ! j)" by (auto simp: list_all_length)
  show ?thesis
  proof (cases "spScans s ! j")
    case (Holding c p)
    obtain r p' w' where "proc_scan rt calm (\<lambda>_. NoAnswer) c p (spOS s) = (r, p', w')" by (metis prod_cases3)
    then show ?thesis using scan_step.exchange [OF j(1) Holding] by blast
  next
    case (Scanned p r)
    then show ?thesis using scan_step.check [OF j(1)] by blast
  next
    case (Checked p r b)
    show ?thesis
    proof (cases b)
      case True
      obtain p' w' where "shutdown p (spOS s) = (p', w')" by fastforce
      then show ?thesis using scan_step.retire [OF j(1), of p r] Checked True by auto
    next
      case False
      then have "Checked p r False \<in> set (spScans s)" using Checked j(1) by (metis nth_mem)
      then have "length (spPool s) < spCap s" using assms(1) send_ready unfolding pool_inv_def by blast
      then show ?thesis using scan_step.send [OF j(1), of p r] Checked False by auto
    qed
  qed (use j in simp_all)
qed

lemma pool_size_pos: "0 < poolSize (scanner_of c)"
  by (simp add: scanner_of_def defaultScanPool_def Let_def)

lemma scan_run:
  "(scan_step rt ^^ n) s t \<Longrightarrow> (pool_step rt)\<^sup>*\<^sup>* s t \<and> spClosing t = spClosing s \<and> length (spScans t) = length (spScans s)"
proof (induction n arbitrary: t)
  case (Suc n)
  then obtain u where u: "(scan_step rt ^^ n) s u" "scan_step rt u t" by auto
  show ?case using Suc.IH [OF u(1)] scan_step_frame [OF u(2)] pool_step.scan [OF u(2)]
      rtranclp.rtrancl_into_rtrancl [of "pool_step rt" s u t] by simp
qed simp

text \<open>
  C18. No scan hangs while the pool is open: with \<open>k\<close> scans called, however they are scheduled, they make
  at most \<open>4 * k\<close> steps between them, and they stop only when every one of them has returned.
\<close>

theorem scans_return:
  assumes "os_ok w" "start_pool rt envs (scanner_of c) w = Inr s0" "(pool_step rt)\<^sup>*\<^sup>* s0 s" "spClosing s = Opened"
    and "(scan_step rt ^^ n) s t"
  shows "n \<le> 4 * length (spScans s) \<and>
    ((\<nexists>u. scan_step rt t u) \<longrightarrow> length (spScans t) = length (spScans s) \<and> list_all has_returned (spScans t))"
proof -
  note st = start_pool_Inr [OF assms(2,1)]
  note sr = scan_run [OF assms(5)]
  have run: "(pool_step rt)\<^sup>*\<^sup>* s0 t" by (rule rtranclp_trans [OF assms(3) conjunct1 [OF sr]])
  have inv: "pool_inv (mset (procs w)) (mset (fds w)) t" by (rule pool.run_keeps [OF run conjunct1 [OF st]])
  have "spCap s0 = poolSize (scanner_of c)" using st by simp
  from capped.run_keeps [OF run this] have cap: "0 < spCap t" using pool_size_pos by simp
  have fr: "spClosing t = Opened" "length (spScans t) = length (spScans s)" using sr assms(4) by simp_all
  have "n \<le> 4 * length (spScans s)" using scan_steps_bound [OF assms(5)] work_le [of s] by simp
  moreover have "has_returned (spScans t ! i)" if "\<nexists>u. scan_step rt t u" "i < length (spScans t)" for i
    using that scan_progress [OF inv fr(1) cap that(2), of rt] by metis
  ultimately show ?thesis using fr by (simp add: list_all_length)
qed

theorem scans_return_witness:
  "\<forall>rt. \<nexists>t. (scan_step rt ^^ 5) (demo_pool\<lparr>spScans := [Waiting ''x'']\<rparr>) t"
proof (intro allI notI, elim exE)
  fix rt t
  let ?c = "\<lparr>ppEnabled = True, ppBinary = [], ppThreshold = [], ppAction = [], ppSuspiciousAt = 0, ppDangerousAt = 0, ppPool = 1\<rparr>"
  assume t: "(scan_step rt ^^ 5) (demo_pool\<lparr>spScans := [Waiting ''x'']\<rparr>) t"
  have c: "scanner_of ?c = demo_scanner" by (simp add: scanner_of_def demo_scanner_def verdictRank_def Let_def)
  have r: "(pool_step rt)\<^sup>*\<^sup>* demo_pool (demo_pool\<lparr>spScans := [Waiting ''x'']\<rparr>)"
    using pool_step.call [of rt demo_pool "''x''"] by (auto simp: demo_pool_def)
  from scans_return [OF idle_os_ok _ r _ t, of "\<lambda>_. calm" ?c] show False
    unfolding c using demo_start by (simp add: demo_pool_def)
qed

subsection \<open>One scan as its caller sees it\<close>

text \<open>
  The result of an exchange is that of \<open>Scan\<close>, with the coprocess' answer (or the error that stands
  for it) as the run-time parameter.
\<close>

definition answer_of :: "spawn_env \<Rightarrow> (bytes \<Rightarrow> io_result) \<Rightarrow> bytes \<Rightarrow> ppProc \<Rightarrow> os \<Rightarrow> bytes + bytes" where
  "answer_of env exch content p w =
     (case fst (ensure env p w) of
        Some e \<Rightarrow> Inl e
      | None \<Rightarrow>
          (case exch (frame content) of
             Line l \<Rightarrow> Inr l
           | IOErr e \<Rightarrow> Inl (''promptproof scan I/O: '' @ e)
           | NoAnswer \<Rightarrow> Inl ''promptproof scan timed out after 5s''))"

lemma proc_scan_Scan:
  "scan_answer rt n content = answer_of env exch content p w \<Longrightarrow> fst (proc_scan rt env exch content p w) = Scan rt n content"
  by (auto simp: proc_scan_def Scan_def answer_of_def split: prod.split option.split io_result.split)

text \<open>A coprocess is alive after a scan exactly if the exchange was not broken off.\<close>

lemma proc_scan_restart:
  "proc_scan rt env exch content p w = (r, p', w') \<Longrightarrow> pCmd p' = None \<longleftrightarrow>
     (case fst (ensure env p w) of Some e \<Rightarrow> True | None \<Rightarrow> (case exch (frame content) of Line l \<Rightarrow> False | _ \<Rightarrow> True))"
  by (auto simp: proc_scan_def kill_def split: prod.splits option.splits io_result.splits dest: ensure_started ensure_failed)

end
