(* ===== verification/Lockinit.thy ===== *)
theory Lockinit
  imports Gateway Go_Indent
begin

text \<open>
  \<^verbatim>\<open>gateway/lockinit.go\<close> and \<^verbatim>\<open>writeLockFile\<close> of \<^verbatim>\<open>gateway/lock.go\<close>: the lock-init client that fetches the
  tools of every upstream, page by page, and writes or merges the lockfile.
\<close>

subsection \<open>What lock-init depends on\<close>

record rpcRequest =
  qURL :: bytes
  qHeader :: header
  qBody :: bytes

datatype write_outcome = Written | OpenFailed bytes | WriteFailed nat bytes

text \<open>
  The HTTP client answers a request with an error or a response; it is given all requests made so
  far, so a server may keep state.  \<open>leWrite\<close> is the outcome of writing a file: a failed write has
  written a part of the data.
\<close>

record lock_env =
  leRt :: go_rt
  leURL :: url_parser
  leURLErr :: "bytes \<Rightarrow> bytes"
  leHTTP :: "rpcRequest list \<Rightarrow> bytes + httpResponse"
  leReadErr :: bytes
  leStat :: "bytes \<Rightarrow> bool"
  leFile :: "bytes \<Rightarrow> bytes option"
  leWrite :: "bytes \<Rightarrow> write_outcome"

definition lockProtocolVersion :: bytes where "lockProtocolVersion = ''2025-06-18''"

definition maxLockPages :: nat where "maxLockPages = 100"

subsection \<open>SSE payloads\<close>

text \<open>\<^verbatim>\<open>bytes.Split\<close>; \<open>acc\<close> is the piece under way, reversed.\<close>

function split_bytes :: "bytes \<Rightarrow> bytes \<Rightarrow> bytes \<Rightarrow> bytes list" where
  "split_bytes sep acc [] = [rev acc]"
| "split_bytes sep acc (c # cs) =
     (if prefix sep (c # cs) then rev acc # split_bytes sep [] (drop (length sep - 1) cs)
      else split_bytes sep (c # acc) cs)"
  by pat_completeness auto
termination
  by (relation "measure (\<lambda>(_, _, s). length s)") auto

fun crlf_to_lf :: "bytes \<Rightarrow> bytes" where
  "crlf_to_lf (c # d # cs) = (if c = CR \<and> d = LF then LF # crlf_to_lf cs else c # crlf_to_lf (d # cs))"
| "crlf_to_lf cs = cs"

definition add_line :: "bytes \<Rightarrow> bytes \<Rightarrow> bytes" where
  "add_line payload line =
     (if \<not> HasPrefix line ''data:'' then payload
      else
        (let v0 = drop 5 line; v = (if HasPrefix v0 '' '' then tl v0 else v0)
         in (if payload \<noteq> [] then payload @ [LF] else payload) @ v))"

definition is_response :: "bytes \<Rightarrow> bool" where
  "is_response payload =
     (case unmarshal_struct payload of
        None \<Rightarrow> False
      | Some ms \<Rightarrow> field_raw ''result'' ms \<noteq> [] \<or> field_raw ''error'' ms \<noteq> [])"

definition firstSSEResponse :: "bytes \<Rightarrow> bytes option" where
  "firstSSEResponse data =
     find (\<lambda>payload. payload \<noteq> [] \<and> is_response payload)
       (map (\<lambda>chunk. foldl add_line [] (split_bytes [LF] [] chunk)) (split_bytes [LF, LF] [] (crlf_to_lf data)))"

definition truncateForError :: "bytes \<Rightarrow> bytes" where
  "truncateForError b = (if length b \<le> 200 then b else take 200 b @ ''...'')"

subsection \<open>Requests\<close>

definition lock_headers :: "bytes \<Rightarrow> header" where
  "lock_headers session =
     (let h = (\<lambda>_. [])(''Content-Type'' := [''application/json''], ''Accept'' := [''application/json, text/event-stream''],
            ''Mcp-Protocol-Version'' := [lockProtocolVersion])
      in if session \<noteq> [] then h(''Mcp-Session-Id'' := [session]) else h)"

text \<open>The message as \<^verbatim>\<open>json.Marshal\<close> writes a map: keys in order, the raw parameters compacted.\<close>

definition rpc_body :: "bytes \<Rightarrow> bytes \<Rightarrow> int \<Rightarrow> bytes option" where
  "rpc_body method params i =
     map_option (\<lambda>ps. ''{'' @ join '','' ([marshal_string ''id'' @ '':'' @ Itoa i,
         marshal_string ''jsonrpc'' @ '':'' @ marshal_string ''2.0'', marshal_string ''method'' @ '':'' @ marshal_string method] @ ps) @ ''}'')
       (if params = [] then Some [] else map_option (\<lambda>c. [marshal_string ''params'' @ '':'' @ c]) (compact_raw params))"

definition doRPC ::
  "lock_env \<Rightarrow> bytes \<Rightarrow> bytes \<Rightarrow> bytes \<Rightarrow> bytes \<Rightarrow> int \<Rightarrow> rpcRequest list \<Rightarrow> (bytes + bytes \<times> header) \<times> rpcRequest list" where
  "doRPC env baseURL session method params i reqs =
     (case rpc_body method params i of
        None \<Rightarrow> (Inl (json_err (leRt env) params), reqs)
      | Some body \<Rightarrow>
          if leURL env baseURL = None then (Inl (leURLErr env baseURL), reqs)
          else
            (let reqs1 = reqs @ [\<lparr>qURL = baseURL, qHeader = lock_headers session, qBody = body\<rparr>];
                 fail = (\<lambda>e. (Inl e, reqs1)) in
             case leHTTP env reqs1 of
               Inl e \<Rightarrow> fail e
             | Inr resp \<Rightarrow>
                 if rBodyErr resp \<and> length (rBody resp) < maxRPCPeek then fail (leReadErr env)
                 else
                   (let data = take maxRPCPeek (rBody resp) in
                    if rStatusCode resp < 200 \<or> rStatusCode resp > 299 then
                      fail (method @ '': HTTP '' @ Itoa (rStatusCode resp) @ '': '' @ truncateForError data)
                    else case (if HasPrefix (header_get (rHeader resp) ''Content-Type'') ''text/event-stream''
                               then firstSSEResponse data else Some data) of
                      None \<Rightarrow> fail (method @ '': no JSON-RPC response found in SSE stream'')
                    | Some payload \<Rightarrow>
                        (case unmarshal_struct payload of
                           None \<Rightarrow> fail (method @ '': response not parseable: '' @ json_err (leRt env) payload)
                         | Some ms \<Rightarrow>
                             (let err = field_raw ''error'' ms; result = field_raw ''result'' ms in
                              if err \<noteq> [] \<and> err \<noteq> ''null'' then fail (method @ '': JSON-RPC error: '' @ truncateForError err)
                              else if result = [] then fail (method @ '': response has no result'')
                              else (Inr (result, rHeader resp), reqs1))))))"

definition notifyInitialized :: "lock_env \<Rightarrow> bytes \<Rightarrow> bytes \<Rightarrow> rpcRequest list \<Rightarrow> rpcRequest list" where
  "notifyInitialized env baseURL session reqs =
     (if leURL env baseURL = None then reqs
      else reqs @ [\<lparr>qURL = baseURL, qHeader = lock_headers session,
        qBody = ''{'' @ marshal_string ''jsonrpc'' @ '':'' @ marshal_string ''2.0'' @ '','' @ marshal_string ''method'' @ '':'' @
          marshal_string ''notifications/initialized'' @ ''}''\<rparr>])"

subsection \<open>Pages\<close>

fun raws_step :: "bytes list option \<Rightarrow> json \<Rightarrow> bytes list option option" where
  "raws_step cur (JArr _ vs) = Some (Some (map raw_of vs))"
| "raws_step cur JNull = Some None"
| "raws_step cur _ = None"

definition unmarshal_page :: "bytes \<Rightarrow> (bytes list option \<times> bytes) option" where
  "unmarshal_page s =
     do { ms \<leftarrow> unmarshal_struct s;
          tools \<leftarrow> assign_field raws_step None ''tools'' ms;
          cursor \<leftarrow> assign_field string_step [] ''nextCursor'' ms;
          Some (tools, cursor) }"

definition page_params :: "bytes \<Rightarrow> bytes" where
  "page_params cursor =
     (if cursor = [] then ''{}'' else ''{'' @ marshal_string ''cursor'' @ '':'' @ marshal_string cursor @ ''}'')"

text \<open>The loop over the pages: \<open>n\<close> of them are left to ask for.\<close>

fun fetch_pages ::
  "lock_env \<Rightarrow> bytes \<Rightarrow> bytes \<Rightarrow> nat \<Rightarrow> nat \<Rightarrow> bytes \<Rightarrow> bytes list \<Rightarrow> rpcRequest list \<Rightarrow> (bytes + bytes list) \<times> rpcRequest list" where
  "fetch_pages env baseURL session 0 page cursor acc reqs = (Inl ''tools/list pagination exceeded the page limit'', reqs)"
| "fetch_pages env baseURL session (Suc n) page cursor acc reqs =
     (case doRPC env baseURL session ''tools/list'' (page_params cursor) (int page + 2) reqs of
        (Inl e, reqs1) \<Rightarrow> (Inl (''tools/list: '' @ e), reqs1)
      | (Inr (result, _), reqs1) \<Rightarrow>
          (case unmarshal_page result of
             None \<Rightarrow> (Inl (''tools/list result: '' @ json_err (leRt env) result), reqs1)
           | Some (None, _) \<Rightarrow> (Inl ''tools/list result has no tools array'', reqs1)
           | Some (Some tools, next) \<Rightarrow>
               if next = [] then (Inr (acc @ tools), reqs1)
               else fetch_pages env baseURL session n (Suc page) next (acc @ tools) reqs1))"

definition init_params :: bytes where
  "init_params = ''{'' @ marshal_string ''protocolVersion'' @ '':'' @ marshal_string lockProtocolVersion @ '','' @
     marshal_string ''capabilities'' @ '':{},'' @ marshal_string ''clientInfo'' @ '':{'' @ marshal_string ''name'' @ '':'' @
     marshal_string ''mcp-gateway-lite'' @ '','' @ marshal_string ''version'' @ '':'' @ marshal_string Version @ ''}}''"

definition fetchAllTools :: "lock_env \<Rightarrow> bytes \<Rightarrow> rpcRequest list \<Rightarrow> (bytes + bytes list) \<times> rpcRequest list" where
  "fetchAllTools env baseURL reqs =
     (case doRPC env baseURL [] ''initialize'' init_params 1 reqs of
        (Inl e, reqs1) \<Rightarrow> (Inl (''initialize: '' @ e), reqs1)
      | (Inr (_, hdr), reqs1) \<Rightarrow>
          (let session = header_get hdr ''Mcp-Session-Id''
           in fetch_pages env baseURL session maxLockPages 0 [] [] (notifyInitialized env baseURL session reqs1)))"

subsection \<open>Lock records\<close>

text \<open>The map of per-tool digests; a nameless or repeated tool is an error.\<close>

fun add_details :: "go_rt \<Rightarrow> rawTool list \<Rightarrow> (bytes \<times> bytes) list \<Rightarrow> bytes + (bytes \<times> bytes) list" where
  "add_details rt [] m = Inr m"
| "add_details rt (t # ts) m =
     (if rtName t = [] then Inl ''tools/list entry without a name''
      else if map_of m (rtName t) \<noteq> None then Inl (''duplicate tool name '' @ Quote (is_print rt) (rtName t))
      else add_details rt ts (map_set (rtName t) (rtHash t) m))"

definition opt_node :: "('a \<Rightarrow> json) \<Rightarrow> 'a option \<Rightarrow> json" where
  "opt_node f x = (case x of None \<Rightarrow> JNull | Some y \<Rightarrow> f y)"

definition server_fields :: "lockServer \<Rightarrow> (bool \<times> bytes \<times> json) list" where
  "server_fields r =
     [(False, ''command'', text_node (lsCommand r)),
      (False, ''args'', opt_node (\<lambda>ss. array_node (map text_node ss)) (lsArgs r)),
      (False, ''envKeys'', opt_node (\<lambda>ss. array_node (map text_node ss)) (lsEnvKeys r)),
      (lsEntryHash r = [], ''entryHash'', text_node (lsEntryHash r)),
      (False, ''toolsHash'', opt_node text_node (lsToolsHash r)),
      (lsURL r = [], ''url'', text_node (lsURL r)),
      (lsToolsDetail r = None \<or> lsToolsDetail r = Some [], ''toolsDetail'',
       opt_node (\<lambda>m. object_node (map (\<lambda>(k, v). (k, text_node v)) m)) (lsToolsDetail r))]"

definition marshal_lockServer :: "lockServer \<Rightarrow> bytes" where
  "marshal_lockServer r = raw_of (object_node (struct_fields (server_fields r)))"

definition lock_record :: "bytes \<Rightarrow> bytes \<Rightarrow> (bytes \<times> bytes) list \<Rightarrow> lockServer" where
  "lock_record whole url m =
     \<lparr>lsCommand = [], lsArgs = Some [], lsEnvKeys = Some [], lsEntryHash = emptyEntryHash, lsToolsHash = Some whole,
      lsURL = url, lsToolsDetail = Some m\<rparr>"

definition lock_upstream :: "lock_env \<Rightarrow> Upstream \<Rightarrow> rpcRequest list \<Rightarrow> (bytes + bytes \<times> bytes) \<times> rpcRequest list" where
  "lock_upstream env u reqs =
     (case fetchAllTools env (URL u) reqs of
        (Inl e, reqs1) \<Rightarrow> (Inl e, reqs1)
      | (Inr elems, reqs1) \<Rightarrow>
          (case parseLockTools (json_err (leRt env)) elems of
             Inl e \<Rightarrow> (Inl e, reqs1)
           | Inr tools \<Rightarrow>
               (case add_details (leRt env) tools [] of
                  Inl e \<Rightarrow> (Inl e, reqs1)
                | Inr m \<Rightarrow>
                    (case toolsListHash (json_err (leRt env)) elems of
                       Inl e \<Rightarrow> (Inl e, reqs1)
                     | Inr whole \<Rightarrow>
                         (Inr (marshal_lockServer (lock_record whole (URL u) m),
                            ''locked '' @ Name u @ '': '' @ Itoa (int (length tools)) @ '' tools ('' @ whole @ '')'' @ [LF]), reqs1)))))"

subsection \<open>Writing the lockfile\<close>

definition MarshalIndent :: "bytes \<Rightarrow> bytes option" where
  "MarshalIndent marshalled = map_option (indented 0) (json_parse marshalled)"

definition marshal_lock :: "lockFile \<Rightarrow> bytes option" where
  "marshal_lock lf =
     map_option (\<lambda>srv. ''{'' @ marshal_string ''generatedBy'' @ '':'' @ marshal_string (''mcp-gateway-lite '' @ Version) @ '','' @
         marshal_string ''lockfileVersion'' @ '':'' @ Itoa (lfVersion lf) @ '','' @ marshal_string ''servers'' @ '':'' @ srv @ ''}'')
       (case lfServers lf of None \<Rightarrow> Some ''null'' | Some m \<Rightarrow> marshal_raw_map m)"

datatype init_error =
    InitConfig cfg_error
  | InitLockfile lock_error
  | InitUpstream bytes bytes
  | InitMarshal
  | InitWrite bytes

text \<open>The error, if any, and the new content of the file, if it was touched.\<close>

definition writeLockFile :: "lock_env \<Rightarrow> lockFile \<Rightarrow> init_error option \<times> bytes option" where
  "writeLockFile env lf =
     (case Option.bind (marshal_lock lf) MarshalIndent of
        None \<Rightarrow> (Some InitMarshal, None)
      | Some text \<Rightarrow>
          (let data = text @ [LF] in
           case leWrite env data of
             Written \<Rightarrow> (None, Some data)
           | OpenFailed e \<Rightarrow> (Some (InitWrite e), None)
           | WriteFailed n e \<Rightarrow> (Some (InitWrite e), Some (take n data))))"

fun lock_upstreams ::
  "lock_env \<Rightarrow> Upstream list \<Rightarrow> (bytes \<times> bytes) list \<Rightarrow> bytes \<Rightarrow> rpcRequest list \<Rightarrow>
     (init_error + (bytes \<times> bytes) list) \<times> bytes \<times> rpcRequest list" where
  "lock_upstreams env [] servers out reqs = (Inr servers, out, reqs)"
| "lock_upstreams env (u # us) servers out reqs =
     (case lock_upstream env u reqs of
        (Inl e, reqs1) \<Rightarrow> (Inl (InitUpstream (Name u) e), out, reqs1)
      | (Inr (encoded, line), reqs1) \<Rightarrow> lock_upstreams env us (map_set (Name u) encoded servers) (out @ line) reqs1)"

text \<open>What a run leaves: the error, standard output, the file if it was touched, the requests made.\<close>

record lock_outcome =
  loErr :: "init_error option"
  loOut :: bytes
  loFile :: "bytes option"
  loReqs :: "rpcRequest list"

definition existing_lock :: "lock_env \<Rightarrow> bytes \<Rightarrow> lock_error + lockFile" where
  "existing_lock env path =
     (if leStat env path then loadLockFile (leFile env) path
      else Inr \<lparr>lfVersion = LockfileVersion, lfGeneratedBy = [], lfServers = Some []\<rparr>)"

definition LockInit :: "lock_env \<Rightarrow> Config \<Rightarrow> bytes \<Rightarrow> lock_outcome" where
  "LockInit env cfg path =
     (case Validate (leURL env) cfg of
        Inl e \<Rightarrow> \<lparr>loErr = Some (InitConfig e), loOut = [], loFile = None, loReqs = []\<rparr>
      | Inr c \<Rightarrow>
          (case existing_lock env path of
             Inl e \<Rightarrow> \<lparr>loErr = Some (InitLockfile e), loOut = [], loFile = None, loReqs = []\<rparr>
           | Inr lf \<Rightarrow>
               (case lock_upstreams env (Upstreams c) (case lfServers lf of None \<Rightarrow> [] | Some m \<Rightarrow> m) [] [] of
                  (Inl e, out, reqs) \<Rightarrow> \<lparr>loErr = Some e, loOut = out, loFile = None, loReqs = reqs\<rparr>
                | (Inr servers, out, reqs) \<Rightarrow>
                    (case writeLockFile env (lf\<lparr>lfServers := Some servers\<rparr>) of
                       (Some e, f) \<Rightarrow> \<lparr>loErr = Some e, loOut = out, loFile = f, loReqs = reqs\<rparr>
                     | (None, f) \<Rightarrow> \<lparr>loErr = None, loOut = out @ ''wrote '' @ path @ [LF], loFile = f, loReqs = reqs\<rparr>))))"

end
