(* ===== verification/Locking.thy ===== *)
theory Locking
  imports Lockinit Handling
begin

text \<open>
  What lock-init guarantees: it makes a bounded number of requests, it does not touch the file
  unless every upstream could be locked, it keeps the records of other servers, and the lockfile it
  writes is one against which the gateway accepts what was locked.
\<close>

subsection \<open>Requests\<close>

lemma doRPC_reqs: "doRPC env u s m ps i reqs = (r, reqs') \<Longrightarrow> length reqs' \<le> Suc (length reqs)"
  by (simp add: doRPC_def Let_def split: option.splits if_splits sum.splits) auto

lemma notify_reqs: "length (notifyInitialized env u s reqs) \<le> Suc (length reqs)"
  by (simp add: notifyInitialized_def)

lemma fetch_pages_reqs: "fetch_pages env u s n page cursor acc reqs = (r, reqs') \<Longrightarrow> length reqs' \<le> length reqs + n"
proof (induction n arbitrary: page cursor acc reqs)
  case (Suc n)
  obtain res reqs1 where d: "doRPC env u s ''tools/list'' (page_params cursor) (int page + 2) reqs = (res, reqs1)" by fastforce
  have l: "length reqs1 \<le> Suc (length reqs)" using doRPC_reqs [OF d] .
  from Suc.prems d have "reqs' = reqs1 \<or> (\<exists>next acc'. fetch_pages env u s n (Suc page) next acc' reqs1 = (r, reqs'))"
    by (auto split: sum.splits option.splits if_splits)
  then show ?case
  proof
    assume "\<exists>next acc'. fetch_pages env u s n (Suc page) next acc' reqs1 = (r, reqs')"
    then obtain nx acc' where "fetch_pages env u s n (Suc page) nx acc' reqs1 = (r, reqs')" by blast
    from Suc.IH [OF this] l show ?thesis by simp
  qed (use l in simp)
qed simp

definition upstream_requests :: nat where
  "upstream_requests = maxLockPages + 2"

lemma fetchAllTools_reqs: "fetchAllTools env u reqs = (r, reqs') \<Longrightarrow> length reqs' \<le> length reqs + upstream_requests"
proof -
  assume f: "fetchAllTools env u reqs = (r, reqs')"
  obtain res reqs1 where d: "doRPC env u [] ''initialize'' init_params 1 reqs = (res, reqs1)" by fastforce
  have l: "length reqs1 \<le> Suc (length reqs)" using doRPC_reqs [OF d] .
  show ?thesis
  proof (cases res)
    case (Inl e)
    then show ?thesis using f d l by (simp add: fetchAllTools_def upstream_requests_def)
  next
    case (Inr rh)
    let ?s = "header_get (snd rh) ''Mcp-Session-Id''"
    have "fetch_pages env u ?s maxLockPages 0 [] [] (notifyInitialized env u ?s reqs1) = (r, reqs')"
      using f d Inr by (simp add: fetchAllTools_def Let_def split: prod.splits)
    from fetch_pages_reqs [OF this] notify_reqs [of env u ?s reqs1] l show ?thesis by (simp add: upstream_requests_def)
  qed
qed

lemma lock_upstream_fetch: "snd (lock_upstream env u reqs) = snd (fetchAllTools env (URL u) reqs)"
  by (simp add: lock_upstream_def split: prod.split sum.split)

lemma lock_upstream_reqs: "lock_upstream env u reqs = (r, reqs') \<Longrightarrow> length reqs' \<le> length reqs + upstream_requests"
  using lock_upstream_fetch [of env u reqs] fetchAllTools_reqs [of env "URL u" reqs] by (metis prod.collapse snd_conv)

lemma lock_upstreams_reqs:
  "lock_upstreams env us m out reqs = (r, out', reqs') \<Longrightarrow> length reqs' \<le> length reqs + upstream_requests * length us"
proof (induction us arbitrary: m out reqs)
  case (Cons u us)
  obtain res reqs1 where d: "lock_upstream env u reqs = (res, reqs1)" by fastforce
  have l: "length reqs1 \<le> length reqs + upstream_requests" using lock_upstream_reqs [OF d] .
  show ?case
  proof (cases res)
    case (Inl e)
    then show ?thesis using Cons.prems d l by simp
  next
    case (Inr el)
    then have "lock_upstreams env us (map_set (Name u) (fst el) m) (out @ snd el) reqs1 = (r, out', reqs')"
      using Cons.prems d by (simp split: prod.splits)
    from Cons.IH [OF this] l show ?thesis by simp
  qed
qed simp

lemma LockInitE:
  obtains (config) e where "LockInit env cfg path = \<lparr>loErr = Some (InitConfig e), loOut = [], loFile = None, loReqs = []\<rparr>"
  | (lockfile) e where "existing_lock env path = Inl e"
      "LockInit env cfg path = \<lparr>loErr = Some (InitLockfile e), loOut = [], loFile = None, loReqs = []\<rparr>"
  | (upstream) lf servers0 e out reqs where "existing_lock env path = Inr lf" 
      "lock_upstreams env (Upstreams cfg) servers0 [] [] = (Inl e, out, reqs)"
      "LockInit env cfg path = \<lparr>loErr = Some e, loOut = out, loFile = None, loReqs = reqs\<rparr>"
  | (written) c lf servers out reqs e f where "Validate (leURL env) cfg = Inr c" "Upstreams c = Upstreams cfg"
      "existing_lock env path = Inr lf"
      "lock_upstreams env (Upstreams cfg) (case lfServers lf of None \<Rightarrow> [] | Some m \<Rightarrow> m) [] [] = (Inr servers, out, reqs)"
      "writeLockFile env (lf\<lparr>lfServers := Some servers\<rparr>) = (e, f)"
      "LockInit env cfg path = \<lparr>loErr = e, loOut = (if e = None then out @ ''wrote '' @ path @ [LF] else out), loFile = f, loReqs = reqs\<rparr>"
proof (cases "Validate (leURL env) cfg")
  case (Inl e)
  then show ?thesis by (intro config) (simp add: LockInit_def)
next
  case (Inr c)
  then have u: "Upstreams c = Upstreams cfg" by (simp add: Validate_Inr)
  show ?thesis
  proof (cases "existing_lock env path")
    case (Inl e)
    then show ?thesis using Inr by (intro lockfile) (simp_all add: LockInit_def)
  next
    case (Inr lf)
    let ?m = "case lfServers lf of None \<Rightarrow> [] | Some m \<Rightarrow> m"
    obtain res out reqs where l: "lock_upstreams env (Upstreams cfg) ?m [] [] = (res, out, reqs)" by (metis prod_cases3)
    show ?thesis
    proof (cases res)
      case (Inl e)
      show ?thesis by (rule upstream [OF Inr l [unfolded Inl]]) (use \<open>Validate _ _ = _\<close> u Inr l Inl in \<open>simp add: LockInit_def\<close>)
    next
      case r: (Inr servers)
      obtain e f where w: "writeLockFile env (lf\<lparr>lfServers := Some servers\<rparr>) = (e, f)" by fastforce
      show ?thesis by (rule written [OF \<open>Validate _ _ = _\<close> u Inr l [unfolded r] w])
          (use \<open>Validate _ _ = _\<close> u Inr l r w in \<open>simp add: LockInit_def split: option.split\<close>)
    qed
  qed
qed

text \<open>
  Lock-init ends after a bounded number of requests, whatever the upstreams answer: a server that
  keeps sending cursors is given up after 100 pages, so at most 102 requests are made per upstream.
\<close>

theorem lock_init_requests_bounded: "length (loReqs (LockInit env cfg path)) \<le> 102 * length (Upstreams cfg)"
proof (cases rule: LockInitE [of env cfg path])
  case (upstream lf m e out reqs)
  from lock_upstreams_reqs [OF upstream(2)] upstream(3) show ?thesis by (simp add: upstream_requests_def maxLockPages_def)
next
  case (written c lf servers out reqs e f)
  from lock_upstreams_reqs [OF written(4)] written(6) show ?thesis by (simp add: upstream_requests_def maxLockPages_def)
qed simp_all

subsection \<open>Reading a lockfile back\<close>

lemma ascii_utf8: "\<forall>c \<in> set s. byte c < 0x80 \<Longrightarrow> valid_utf8 s"
proof -
  assume a: "\<forall>c \<in> set s. byte c < 0x80"
  have "s = utf8 (map byte s)" using a by (induction s) (simp_all add: utf8_def EncodeRune_ascii)
  moreover have "\<forall>r \<in> set (map byte s). is_scalar r" using a by (auto simp: is_scalar_def)
  ultimately show ?thesis using valid_utf8_utf8 by metis
qed

text \<open>Indenting the members of an object one level down.\<close>

definition indent_members :: "nat \<Rightarrow> (bytes \<times> json) list \<Rightarrow> (bytes \<times> json) list" where
  "indent_members n ms = map (\<lambda>(k, v). (k, indent n v)) ms"

lemma indent_object [simp]: "indent n (JObj t ms) = JObj (indented n (JObj t ms)) (indent_members (Suc n) ms)"
  by (simp add: indent_members_def)

lemma members_skel_indent [simp]: "members_skel (indent_members n ms) = members_skel ms"
  by (induction ms) (auto simp: indent_members_def)

lemma field_members_indent: "field_members f (indent_members n ms) = map (indent n) (field_members f ms)"
  by (induction ms) (auto simp: field_members_def indent_members_def)

lemma struct_members_indent: "struct_members v = Some ms \<Longrightarrow> struct_members (indent n v) = Some (indent_members (Suc n) ms)"
  by (cases v) (auto simp: indent_members_def)

lemma indent_object_members: "struct_members (indent n (object_node xs)) = Some (indent_members (Suc n) (named xs))"
  using struct_members_indent [of "object_node xs" "named xs" n] by (simp add: object_node_def)

text \<open>The servers of a lockfile: a map to values that fit two levels below the top.\<close>

definition servers_ok :: "(bytes \<times> json) list \<Rightarrow> bool" where
  "servers_ok jm \<longleftrightarrow> map_wf jm \<and> (\<forall>(k, v) \<in> set jm. valid_utf8 k \<and> node (maxNestingDepth - 2) v)"

abbreviation raws :: "(bytes \<times> json) list \<Rightarrow> (bytes \<times> bytes) list" where
  "raws jm \<equiv> map (\<lambda>(k, v). (k, raw_of v)) jm"

abbreviation lock_fields :: "int \<Rightarrow> (bytes \<times> json) list \<Rightarrow> (bool \<times> bytes \<times> json) list" where
  "lock_fields v jm \<equiv> [(False, ''generatedBy'', text_node (''mcp-gateway-lite '' @ Version)),
     (False, ''lockfileVersion'', int_node v), (False, ''servers'', object_node (map (\<lambda>(k, v). (k, squash v)) jm))]"

lemma lock_names_apart: "names_apart (map (fst \<circ> snd) (lock_fields v jm))"
  unfolding names_apart_def by code_simp

lemma marshal_lock_node:
  assumes "servers_ok jm" "lfServers lf = Some (raws jm)"
  shows "marshal_lock lf = Some (raw_of (object_node (struct_fields (lock_fields (lfVersion lf) jm)))) \<and>
    node maxNestingDepth (object_node (struct_fields (lock_fields (lfVersion lf) jm)))"
proof -
  have D: "maxNestingDepth = Suc (Suc (maxNestingDepth - 2))" by (simp add: maxNestingDepth_def)
  have n: "\<forall>(k, v) \<in> set jm. node (maxNestingDepth - 2) v" using assms(1) by (auto simp: servers_ok_def)
  have "marshal_raw_map (raws jm) = Some (raw_of (object_node (map (\<lambda>(k, v). (k, squash v)) jm)))"
    using marshal_raw_map_nodes [OF n] by (simp add: object_node_def named_def comp_def case_prod_unfold)
  then have "marshal_lock lf = Some (raw_of (object_node (struct_fields (lock_fields (lfVersion lf) jm))))"
    unfolding marshal_lock_def assms(2)
    by (simp add: object_node_def named_def struct_fields_def text_node_def int_node_def)
  moreover have "\<forall>(k, v) \<in> set (map (\<lambda>(k, v). (k, squash v)) jm). node (maxNestingDepth - 2) v" using n squash_node by fastforce
  then have "node (Suc (maxNestingDepth - 2)) (object_node (map (\<lambda>(k, v). (k, squash v)) jm))" by (rule object_node_node)
  then have "node (Suc (Suc (maxNestingDepth - 2))) (object_node (struct_fields (lock_fields (lfVersion lf) jm)))"
    by (intro object_node_node) (auto simp: struct_fields_def)
  ultimately show ?thesis by (simp only: D [symmetric])
qed

text \<open>The fields of the document that was written, read from its indented form.\<close>

lemma indented_field:
  assumes "layout_free st" "names_apart (map (fst \<circ> snd) fs)" "(om, f, v) \<in> set fs"
  shows "assign_field st i f (indent_members n (named (struct_fields fs))) = (if om then Some i else st i v)"
  unfolding assign_struct_field [OF assms(2,3), symmetric] by (rule assign_field_skel [OF assms(1) members_skel_indent])

lemma indented_servers:
  assumes "servers_ok jm"
  shows "raw_map_step None (indent 1 (object_node (map (\<lambda>(k, v). (k, squash v)) jm))) =
    Some (Some (map (\<lambda>(k, v). (k, indented 2 (squash v))) jm))"
proof -
  have f: "fold (\<lambda>(k, v). map_set (unquote k) (raw_of v)) (indent_members 2 (named (map (\<lambda>(k, v). (k, squash v)) js))) m =
      fold (\<lambda>(k, v). map_set k v) (map (\<lambda>(k, v). (k, indented 2 (squash v))) js) m" if "\<forall>(k, v) \<in> set js. valid_utf8 k" for js m
    using that by (induction js arbitrary: m) (auto simp: indent_members_def named_def unquote_marshal)
  have u: "\<forall>(k, v) \<in> set jm. valid_utf8 k" using assms by (auto simp: servers_ok_def)
  have "map_wf (map (\<lambda>(k, v). (k, indented 2 (squash v))) jm)" using assms
    by (simp add: servers_ok_def map_wf_def comp_def case_prod_unfold)
  from build_map_id [OF this] show ?thesis
    unfolding object_node_def indent_object raw_map_step.simps option.case
    using f [OF u, of "[]"] by (simp add: build_map_def numeral_2_eq_2)
qed

lemma lock_file_fields:
  assumes "servers_ok jm" "- (2 ^ 63) \<le> i" "i < 2 ^ 63"
  shows "assign_field int_step 0 ''lockfileVersion'' (indent_members 1 (named (struct_fields (lock_fields i jm)))) = Some i"
    and "assign_field string_step [] ''generatedBy'' (indent_members 1 (named (struct_fields (lock_fields i jm)))) = Some (''mcp-gateway-lite '' @ Version)"
    and "assign_field raw_map_step None ''servers'' (indent_members 1 (named (struct_fields (lock_fields i jm)))) =
      Some (Some (map (\<lambda>(k, v). (k, indented 2 (squash v))) jm))"
proof -
  note na = lock_names_apart [of i jm]
  let ?g = "''mcp-gateway-lite '' @ Version"
  show "assign_field int_step 0 ''lockfileVersion'' (indent_members 1 (named (struct_fields (lock_fields i jm)))) = Some i"
    by (subst indented_field [OF layout_free_int na, of False _ "int_node i"]) (use assms(2,3) in \<open>simp_all\<close>)
  have "list_all (\<lambda>c. byte c < 0x80) ?g" unfolding Version_def by code_simp
  then have "valid_utf8 ?g" by (intro ascii_utf8) (simp only: list_all_iff)
  then show "assign_field string_step [] ''generatedBy'' (indent_members 1 (named (struct_fields (lock_fields i jm)))) = Some ?g"
    by (subst indented_field [OF layout_free_string na, of False _ "text_node ?g"]) (simp_all only: list.set insert_iff simp_thms if_False string_step_text)
  have "field_members ''servers'' (indent_members 1 (named (struct_fields (lock_fields i jm)))) =
      [indent 1 (object_node (map (\<lambda>(k, v). (k, squash v)) jm))]"
    unfolding field_members_indent by (subst field_members_struct [OF na, of False]) simp_all
  then show "assign_field raw_map_step None ''servers'' (indent_members 1 (named (struct_fields (lock_fields i jm)))) =
      Some (Some (map (\<lambda>(k, v). (k, indented 2 (squash v))) jm))"
    unfolding assign_field_def using indented_servers [OF assms(1)] by simp
qed

lemma lock_file_roundtrip:
  assumes "servers_ok jm" "lfServers lf = Some (raws jm)" "- (2 ^ 63) \<le> lfVersion lf" "lfVersion lf < 2 ^ 63"
  obtains doc where "Option.bind (marshal_lock lf) MarshalIndent = Some doc"
    "unmarshal_lockFile (doc @ [LF]) = Some \<lparr>lfVersion = lfVersion lf, lfGeneratedBy = ''mcp-gateway-lite '' @ Version,
       lfServers = Some (map (\<lambda>(k, v). (k, indented 2 (squash v))) jm)\<rparr>"
proof -
  define T where "T = object_node (struct_fields (lock_fields (lfVersion lf) jm))"
  have ml: "marshal_lock lf = Some (raw_of T)" "node maxNestingDepth T" unfolding T_def using marshal_lock_node [OF assms(1,2)] by blast+
  have t: "Option.bind (marshal_lock lf) MarshalIndent = Some (indented 0 T)"
    using node_json_parse [OF ml(2)] by (simp add: MarshalIndent_def ml(1))
  have "json_parse (raw_of (indent 0 T) @ [LF]) = Some (indent 0 T)" by (rule json_parse_line [OF node_json_parse [OF indent_node [OF ml(2)] order_refl]])
  then have us: "unmarshal_struct (indented 0 T @ [LF]) = Some (indent_members 1 (named (struct_fields (lock_fields (lfVersion lf) jm))))"
    unfolding unmarshal_struct_def raw_indent by (simp only: Option.bind.bind_lunit T_def indent_object_members One_nat_def)
  have "unmarshal_lockFile (indented 0 T @ [LF]) = Some \<lparr>lfVersion = lfVersion lf, lfGeneratedBy = ''mcp-gateway-lite '' @ Version,
       lfServers = Some (map (\<lambda>(k, v). (k, indented 2 (squash v))) jm)\<rparr>"
    unfolding unmarshal_lockFile_def us by (simp only: Option.bind.bind_lunit lock_file_fields [OF assms(1,3,4)])
  from that [OF t this] show ?thesis .
qed

text \<open>The same for a server record, whatever the layout it is stored in.\<close>

lemma server_names_apart: "names_apart (map (fst \<circ> snd) (server_fields r))"
proof -
  have "names_apart [''command'', ''args'', ''envKeys'', ''entryHash'', ''toolsHash'', ''url'', ''toolsDetail'']"
    unfolding names_apart_def by code_simp
  then show ?thesis by (simp add: server_fields_def)
qed

definition texts_map :: "(bytes \<times> bytes) list \<Rightarrow> bool" where
  "texts_map m \<longleftrightarrow> map_wf m \<and> (\<forall>(k, v) \<in> set m. valid_utf8 k \<and> valid_utf8 v)"

lemma texts_map_node: "node (Suc d) (object_node (map (\<lambda>(k, v). (k, text_node v)) m))"
  by (rule object_node_node) auto

lemma texts_map_read:
  assumes "texts_map m"
  shows "string_map_step None (object_node (map (\<lambda>(k, v). (k, text_node v)) m)) = Some (Some m)"
proof -
  have "those (map (\<lambda>(k, v). map_option (Pair (unquote k)) (string_of v)) (named (map (\<lambda>(k, v). (k, text_node v)) m))) = Some m"
    unfolding those_eq_Some_iff using assms
    by (auto simp: named_def texts_map_def text_node_def unquote_marshal)
  then show ?thesis using build_map_id [of m] assms by (simp add: object_node_def texts_map_def build_map_def)
qed

lemma lock_record_node: "node (Suc (Suc d)) (object_node (struct_fields (server_fields (lock_record whole url m))))"
proof -
  have "\<forall>(om, k, v) \<in> set (server_fields (lock_record whole url m)). node (Suc d) v"
    using texts_map_node array_node_node [of "[]" d] by (auto simp: server_fields_def lock_record_def opt_node_def)
  from object_node_node [OF struct_fields_nodes [OF this]] show ?thesis .
qed

lemma lock_record_read:
  assumes "texts_map m" "valid_utf8 whole" "json_parse raw = Some v"
    and "skel v = skel (object_node (struct_fields (server_fields (lock_record whole url m))))"
  shows "\<exists>r. unmarshal_lockServer raw = Some r \<and> lsToolsHash r = Some whole \<and> lsToolsDetail r = (if m = [] then None else Some m)"
proof -
  let ?r = "lock_record whole url m"
  let ?ns = "named (struct_fields (server_fields ?r))"
  have "struct_members (object_node (struct_fields (server_fields ?r))) = Some ?ns" by (simp add: object_node_def)
  from struct_members_skel [OF this assms(4)] obtain ms where ms: "struct_members v = Some ms" "members_skel ms = members_skel ?ns" by blast
  have us: "unmarshal_struct raw = Some ms" using assms(3) ms(1) by (simp add: unmarshal_struct_def)
  have f: "assign_field st i f ms = (if om then Some i else st i w)"
    if "layout_free st" "(om, f, w) \<in> set (server_fields ?r)" for st :: "'a \<Rightarrow> json \<Rightarrow> 'a option" and i f om w
    unfolding assign_struct_field [OF server_names_apart that(2), symmetric] by (rule assign_field_skel [OF that(1) ms(2)])
  have mem: "(False, ''command'', text_node []) \<in> set (server_fields ?r)" "(False, ''args'', array_node []) \<in> set (server_fields ?r)"
    "(False, ''envKeys'', array_node []) \<in> set (server_fields ?r)"
    "(emptyEntryHash = [], ''entryHash'', text_node emptyEntryHash) \<in> set (server_fields ?r)"
    "(False, ''toolsHash'', text_node whole) \<in> set (server_fields ?r)" "(url = [], ''url'', text_node url) \<in> set (server_fields ?r)"
    "(m = [], ''toolsDetail'', object_node (map (\<lambda>(k, v). (k, text_node v)) m)) \<in> set (server_fields ?r)"
    by (simp_all add: server_fields_def lock_record_def opt_node_def)
  have t: "string_step c (text_node x) = Some (unquote (marshal_string x))" for c x by (simp add: text_node_def)
  have a: "strings_step c (array_node []) = Some (Some [])" for c using strings_step_texts [of "[]" c] by simp
  have h: "string_ptr_step c (text_node whole) = Some (Some whole)" for c using assms(2) by (simp add: text_node_def unquote_marshal)
  show ?thesis
    unfolding unmarshal_lockServer_def us Option.bind.bind_lunit
      f [OF layout_free_string mem(1)] f [OF layout_free_strings mem(2)] f [OF layout_free_strings mem(3)]
      f [OF layout_free_string mem(4)] f [OF layout_free_string_ptr mem(5)] f [OF layout_free_string mem(6)]
      f [OF layout_free_string_map mem(7)]
    by (auto simp: t a h texts_map_read [OF assms(1)])
qed

subsection \<open>The servers table\<close>

lemma assign_field_inv:
  assumes "assign_field st i f ms = Some r" "P i" "\<And>cur v cur'. P cur \<Longrightarrow> v \<in> snd ` set ms \<Longrightarrow> st cur v = Some cur' \<Longrightarrow> P cur'"
  shows "P r"
proof -
  have none: "foldl (\<lambda>acc v. Option.bind acc (\<lambda>cur. st cur v)) None vs = None" for vs by (induction vs) simp_all
  have "foldl (\<lambda>acc v. Option.bind acc (\<lambda>cur. st cur v)) (Some c) vs = Some r \<Longrightarrow> P c \<Longrightarrow> set vs \<subseteq> snd ` set ms \<Longrightarrow> P r" for c vs
  proof (induction vs arbitrary: c)
    case (Cons v vs)
    then obtain c' where c': "st c v = Some c'" by (cases "st c v") (simp_all add: none)
    show ?case by (rule Cons.IH [of c']) (use Cons.prems c' assms(3) [of c v c'] in simp_all)
  qed simp
  moreover have "set (field_members f ms) \<subseteq> snd ` set ms" by (auto simp: field_members_def)
  ultimately show ?thesis using assms(1,2) unfolding assign_field_def by blast
qed

lemma raws_set: "map_set k (raw_of v) (raws jm) = raws (map_set k v jm)"
  using map_set_map [of k raw_of v jm] by simp

lemma servers_ok_set: "servers_ok jm \<Longrightarrow> valid_utf8 k \<Longrightarrow> node (maxNestingDepth - 2) v \<Longrightarrow> servers_ok (map_set k v jm)"
  using map_set_values [of k v jm] by (auto simp: servers_ok_def map_wf_set)

lemma servers_ok_Nil [simp]: "servers_ok []"
  by (simp add: servers_ok_def map_wf_def)

lemma servers_ok_fold:
  assumes "\<forall>(k, v) \<in> set ms. str_lit k \<and> node (maxNestingDepth - 2) v" "servers_ok jm"
  shows "\<exists>jm'. servers_ok jm' \<and> fold (\<lambda>(k, v). map_set (unquote k) (raw_of v)) ms (raws jm) = raws jm'"
  using assms
proof (induction ms arbitrary: jm)
  case (Cons kv ms)
  obtain k v where kv: "kv = (k, v)" by fastforce
  have "servers_ok (map_set (unquote k) v jm)" using Cons.prems kv by (intro servers_ok_set) (auto intro: valid_utf8_unquote)
  from Cons.IH [OF _ this] Cons.prems(1) kv show ?case by (simp add: raws_set)
qed auto

lemma loaded_servers:
  assumes "unmarshal_lockFile s = Some lf" "lfServers lf = Some m"
  shows "\<exists>jm. servers_ok jm \<and> m = raws jm"
proof -
  let ?P = "\<lambda>c. \<forall>m. c = Some m \<longrightarrow> (\<exists>jm. servers_ok jm \<and> m = raws jm)"
  from assms obtain ms where ms: "unmarshal_struct s = Some ms" "assign_field raw_map_step None ''servers'' ms = Some (Some m)"
    by (auto simp: unmarshal_lockFile_def)
  have D: "maxNestingDepth - 1 = Suc (maxNestingDepth - 2)" by (simp add: maxNestingDepth_def)
  have "?P cur'" if P: "?P cur" and v: "v \<in> snd ` set ms" and st: "raw_map_step cur v = Some cur'" for cur v cur'
  proof (cases v)
    case (JObj t vs)
    have "node (maxNestingDepth - 1) v" using v unmarshal_struct_members [OF ms(1)] by auto
    then obtain d' where d': "maxNestingDepth - 1 = Suc d'" "\<forall>(k, v) \<in> set vs. str_lit k \<and> node d' v" unfolding JObj by (rule node_objectD)
    then have n: "\<forall>(k, v) \<in> set vs. str_lit k \<and> node (maxNestingDepth - 2) v" using D by simp
    obtain jm where jm: "servers_ok jm" "(case cur of None \<Rightarrow> [] | Some m \<Rightarrow> m) = raws jm"
      using P servers_ok_Nil by (cases cur) auto
    from servers_ok_fold [OF n jm(1)] st JObj jm(2) show ?thesis by auto
  qed (use st in auto)
  from assign_field_inv [where P = ?P, OF ms(2) _ this] show ?thesis by simp
qed

lemma existing_servers:
  assumes "existing_lock env path = Inr lf"
  shows "lfVersion lf = LockfileVersion \<and> (\<exists>jm. servers_ok jm \<and> lfServers lf = Some (raws jm))"
proof (cases "leStat env path")
  case True
  then have "loadLockFile (leFile env) path = Inr lf" using assms by (simp add: existing_lock_def)
  then obtain s m where "unmarshal_lockFile s = Some lf" "lfServers lf = Some m" "lfVersion lf = LockfileVersion"
    by (auto simp: loadLockFile_def split: option.splits if_splits)
  then show ?thesis using loaded_servers by blast
next
  case False
  then have "lf = \<lparr>lfVersion = LockfileVersion, lfGeneratedBy = [], lfServers = Some []\<rparr>" using assms by (simp add: existing_lock_def)
  then show ?thesis using servers_ok_Nil by (intro conjI exI [of _ "[]"]) simp_all
qed

subsection \<open>What is locked\<close>

lemma sentinelHash_utf8: "valid_utf8 (sentinelHash c)"
proof (rule ascii_utf8)
  have d: "byte (hex_digit_byte n) < 0x80" if "n < 16" for n using that by (simp add: hex_digit_byte_def of_char_of)
  have "byte x div 16 < 16" "byte x mod 16 < 16" for x :: char using nat_of_char_less_256 [of x] by linarith+
  then show "\<forall>x \<in> set (sentinelHash c). byte x < 0x80" using d by (auto simp: sentinelHash_def hex_EncodeToString_def)
qed

lemma tool_digest_utf8: "tool_digest el = Some (n, h) \<Longrightarrow> valid_utf8 n \<and> valid_utf8 h"
  by (auto simp: tool_digest_def sentinelHash_utf8 split: option.splits elim!: toolFingerprintE)

lemma add_details_spec:
  assumes "add_details rt ts m0 = Inr m" "map_wf m0"
  shows "map_wf m \<and> (\<forall>t \<in> set ts. map_of m (rtName t) = Some (rtHash t)) \<and> map_of m0 \<subseteq>\<^sub>m map_of m \<and>
    set m \<subseteq> set m0 \<union> (\<lambda>t. (rtName t, rtHash t)) ` set ts"
  using assms
proof (induction ts arbitrary: m0)
  case (Cons t ts)
  have n: "map_of m0 (rtName t) = None" and a: "add_details rt ts (map_set (rtName t) (rtHash t) m0) = Inr m"
    using Cons.prems(1) by (auto split: if_splits)
  note IH = Cons.IH [OF a map_wf_set [OF Cons.prems(2)]]
  have "map_of m0 \<subseteq>\<^sub>m map_of (map_set (rtName t) (rtHash t) m0)" using n by (auto simp: map_le_def map_of_map_set)
  moreover have "map_of (map_set (rtName t) (rtHash t) m0) (rtName t) = Some (rtHash t)" by (simp add: map_of_map_set)
  then have "map_of m (rtName t) = Some (rtHash t)" using IH by (metis domI map_le_def)
  ultimately show ?case using IH map_set_values [of "rtName t" "rtHash t" m0] map_le_trans by auto
qed simp

text \<open>\<open>locked elems whole m\<close>: the digests of a listing.\<close>

definition locked :: "bytes list \<Rightarrow> bytes \<Rightarrow> (bytes \<times> bytes) list \<Rightarrow> bool" where
  "locked elems whole m \<longleftrightarrow> texts_map m \<and> valid_utf8 whole \<and> (m = [] \<longrightarrow> elems = []) \<and>
     (\<forall>je. toolsListHash je elems = Inr whole) \<and> (\<forall>el \<in> set elems. \<exists>n h. tool_digest el = Some (n, h) \<and> map_of m n = Some h)"

lemma lock_upstream_locked:
  assumes "lock_upstream env u reqs = (Inr (enc, line), reqs')"
  obtains elems whole m where "fetchAllTools env (URL u) reqs = (Inr elems, reqs')" "locked elems whole m"
    "enc = marshal_lockServer (lock_record whole (URL u) m)"
proof -
  let ?je = "json_err (leRt env)"
  from assms obtain elems tools m whole where f: "fetchAllTools env (URL u) reqs = (Inr elems, reqs')"
    "parseLockTools ?je elems = Inr tools" "add_details (leRt env) tools [] = Inr m" "toolsListHash ?je elems = Inr whole"
    "enc = marshal_lockServer (lock_record whole (URL u) m)"
    by (auto simp: lock_upstream_def split: prod.splits sum.splits)
  have ts: "\<forall>el \<in> set elems. tool_digest el \<noteq> None" "tools = map digest_tool elems" using f(2) by (auto simp: parseLockTools_Inr)
  have "map_wf ([] :: (bytes \<times> bytes) list)" by (simp add: map_wf_def)
  note ad = add_details_spec [OF f(3) this]
  have dig: "\<exists>n h. tool_digest el = Some (n, h) \<and> map_of m n = Some h" if el: "el \<in> set elems" for el
  proof -
    obtain n h where nh: "tool_digest el = Some (n, h)" using ts(1) el by (cases "tool_digest el") auto
    then have "map_of m n = Some h" using ad ts(2) el by (force simp: digest_tool_def)
    with nh show ?thesis by blast
  qed
  have "valid_utf8 k \<and> valid_utf8 v" if kv: "(k, v) \<in> set m" for k v
  proof -
    obtain el where "el \<in> set elems" "k = rtName (digest_tool el)" "v = rtHash (digest_tool el)" using ad ts(2) kv by auto
    then show ?thesis using ts(1) tool_digest_utf8 [of el] by (force simp: digest_tool_def)
  qed
  then have tm: "texts_map m" using ad by (auto simp: texts_map_def)
  obtain c where c: "list_encoding elems = Some c" "whole = sentinelHash c" using f(4) by (auto simp: toolsListHash_encoding)
  have "m = [] \<longrightarrow> elems = []" using dig [of "hd elems"] by (cases elems) auto
  then have "locked elems whole m" using tm dig c sentinelHash_utf8 by (simp add: locked_def toolsListHash_encoding)
  from that [OF f(1) this f(5)] show ?thesis .
qed

abbreviation record_node :: "bytes \<Rightarrow> bytes \<Rightarrow> (bytes \<times> bytes) list \<Rightarrow> json" where
  "record_node whole url m \<equiv> object_node (struct_fields (server_fields (lock_record whole url m)))"

lemma nameRE_utf8: "nameRE n \<Longrightarrow> valid_utf8 n"
  by (rule ascii_utf8) (auto simp: nameRE_def name_char_def alnum_def list_all_iff split: list.splits)

text \<open>The table after the loop: a record of what was fetched for every upstream, and the other records as they were.\<close>

lemma lock_upstreams_table:
  assumes "lock_upstreams env us (raws jm) out reqs = (Inr servers, out', reqs')" "servers_ok jm"
    and "\<forall>u \<in> set us. nameRE (Name u)" "distinct (map Name us)"
  shows "\<exists>jm'. servers_ok jm' \<and> servers = raws jm' \<and> (\<forall>k. k \<notin> Name ` set us \<longrightarrow> map_of jm' k = map_of jm k) \<and>
    (\<forall>u \<in> set us. \<exists>elems whole m r r'. fetchAllTools env (URL u) r = (Inr elems, r') \<and> locked elems whole m \<and>
       map_of jm' (Name u) = Some (record_node whole (URL u) m))"
  using assms
proof (induction us arbitrary: jm out reqs)
  case (Cons u us)
  obtain res reqs1 where d: "lock_upstream env u reqs = (res, reqs1)" by fastforce
  with Cons.prems(1) obtain enc line where res: "res = Inr (enc, line)" by (cases res) auto
  from lock_upstream_locked [OF d [unfolded res]] obtain elems whole m where
    l: "fetchAllTools env (URL u) reqs = (Inr elems, reqs1)" "locked elems whole m" "enc = marshal_lockServer (lock_record whole (URL u) m)" .
  let ?n = "record_node whole (URL u) m" and ?jm = "map_set (Name u) (record_node whole (URL u) m) jm"
  have "node (maxNestingDepth - 2) ?n" by (rule node_mono [OF lock_record_node [of 0]]) (simp add: maxNestingDepth_def)
  then have ok: "servers_ok ?jm" using Cons.prems(2,3) nameRE_utf8 by (intro servers_ok_set) simp_all
  have run: "lock_upstreams env us (raws ?jm) (out @ line) reqs1 = (Inr servers, out', reqs')"
    using Cons.prems(1) d res l(3) by (simp add: marshal_lockServer_def raws_set)
  from Cons.IH [OF run ok] Cons.prems(3,4) obtain jm' where jm': "servers_ok jm'" "servers = raws jm'"
    "\<forall>k. k \<notin> Name ` set us \<longrightarrow> map_of jm' k = map_of ?jm k"
    "\<forall>u \<in> set us. \<exists>elems whole m r r'. fetchAllTools env (URL u) r = (Inr elems, r') \<and> locked elems whole m \<and>
       map_of jm' (Name u) = Some (record_node whole (URL u) m)" by auto
  have "Name u \<notin> Name ` set us" using Cons.prems(4) by auto
  then have "map_of jm' (Name u) = Some ?n" using jm'(3) by (simp add: map_of_map_set)
  then have "\<exists>elems whole m r r'. fetchAllTools env (URL u) r = (Inr elems, r') \<and> locked elems whole m \<and>
       map_of jm' (Name u) = Some (record_node whole (URL u) m)" using l by blast
  then show ?case using jm' by (intro exI [of _ jm']) (auto simp: map_of_map_set)
qed auto

text \<open>The file a successful run leaves, and how it is read.\<close>

lemma LockInit_file:
  assumes "loErr (LockInit env cfg path) = None"
  obtains jm jm0 lf0 data where "loFile (LockInit env cfg path) = Some data" "existing_lock env path = Inr lf0" "lfServers lf0 = Some (raws jm0)"
    "servers_ok jm" "servers_ok jm0" "unmarshal_lockFile data = Some \<lparr>lfVersion = LockfileVersion,
       lfGeneratedBy = ''mcp-gateway-lite '' @ Version, lfServers = Some (map (\<lambda>(k, v). (k, indented 2 (squash v))) jm)\<rparr>"
    "\<forall>k. k \<notin> Name ` set (Upstreams cfg) \<longrightarrow> map_of jm k = map_of jm0 k"
    "\<forall>u \<in> set (Upstreams cfg). \<exists>elems whole m r r'. fetchAllTools env (URL u) r = (Inr elems, r') \<and> locked elems whole m \<and>
       map_of jm (Name u) = Some (record_node whole (URL u) m)"
proof (cases rule: LockInitE [of env cfg path])
  case (written c lf servers out reqs e f)
  have e: "e = None" using assms written(6) by simp
  obtain jm0 where jm0: "lfVersion lf = LockfileVersion" "servers_ok jm0" "lfServers lf = Some (raws jm0)"
    using existing_servers [OF written(3)] by blast
  have us: "\<forall>u \<in> set (Upstreams cfg). nameRE (Name u)" "distinct (map Name (Upstreams cfg))"
    using written(1) distinct_lower by (auto simp: Validate_Inr upstream_ok_def)
  have "lock_upstreams env (Upstreams cfg) (raws jm0) [] [] = (Inr servers, out, reqs)" using written(4) jm0(3) by simp
  from lock_upstreams_table [OF this jm0(2) us] obtain jm where jm: "servers_ok jm" "servers = raws jm"
    "\<forall>k. k \<notin> Name ` set (Upstreams cfg) \<longrightarrow> map_of jm k = map_of jm0 k"
    "\<forall>u \<in> set (Upstreams cfg). \<exists>elems whole m r r'. fetchAllTools env (URL u) r = (Inr elems, r') \<and> locked elems whole m \<and>
       map_of jm (Name u) = Some (record_node whole (URL u) m)" by blast
  let ?lf = "lf\<lparr>lfServers := Some servers\<rparr>"
  obtain doc where doc: "Option.bind (marshal_lock ?lf) MarshalIndent = Some doc"
    "unmarshal_lockFile (doc @ [LF]) = Some \<lparr>lfVersion = lfVersion ?lf, lfGeneratedBy = ''mcp-gateway-lite '' @ Version,
       lfServers = Some (map (\<lambda>(k, v). (k, indented 2 (squash v))) jm)\<rparr>"
    by (rule lock_file_roundtrip [OF jm(1), of ?lf]) (use jm(2) jm0(1) in \<open>simp_all add: LockfileVersion_def\<close>)
  have "f = Some (doc @ [LF])" using written(5) doc(1) e by (simp add: writeLockFile_def Let_def split: write_outcome.splits)
  with that [OF _ written(3) jm0(3) jm(1) jm0(2) _ jm(3,4)] doc(2) jm0(1) written(6) show ?thesis by simp
qed (use assms in simp_all)

text \<open>
  C11. What lock-init locked, the gateway accepts: after a successful run, an upstream configured with
  that lockfile gets a lock against which every listing made of the tools that were fetched for it
  passes, complete or page by page.
\<close>

theorem lock_init_verifies:
  assumes "loErr (LockInit env cfg path) = None" "u \<in> set (Upstreams cfg)"
    and "ToolsLock v = Some lc" "(if lcServer lc = [] then Name v else lcServer lc) = Name u"
    and "read_file (lcFile lc) = loFile (LockInit env cfg path)" "cache (lcFile lc) = None"
  shows "\<exists>elems reqs reqs' l cache'. fetchAllTools env (URL u) reqs = (Inr elems, reqs') \<and>
    prepareLock read_file v cache = (Inr (Some l), cache') \<and> (enforce l \<longleftrightarrow> lcMode lc \<noteq> ''warn'') \<and>
    (\<forall>je page. set page \<subseteq> set elems \<longrightarrow> verify je l page = [])"
  using assms(1)
proof (cases rule: LockInit_file)
  case (1 jm jm0 lf0 data)
  from 1(8) assms(2) obtain elems whole m r r' where el: "fetchAllTools env (URL u) r = (Inr elems, r')" "locked elems whole m"
    "map_of jm (Name u) = Some (record_node whole (URL u) m)" by blast
  let ?raw = "indented 2 (squash (record_node whole (URL u) m))"
  have n: "node (maxNestingDepth - 2) (squash (record_node whole (URL u) m))"
    by (rule node_mono [OF squash_node [OF lock_record_node [of 0]]]) (simp add: maxNestingDepth_def)
  have "json_parse (raw_of (indent 2 (squash (record_node whole (URL u) m)))) = Some (indent 2 (squash (record_node whole (URL u) m)))"
    by (rule node_json_parse [OF indent_node [OF n]]) simp
  then have pr: "json_parse ?raw = Some (indent 2 (squash (record_node whole (URL u) m)))" by simp
  have sk: "skel (indent 2 (squash (record_node whole (URL u) m))) = skel (record_node whole (URL u) m)"
    using skel_squash [OF lock_record_node [of 0]] by simp
  have "texts_map m" "valid_utf8 whole" using el(2) by (simp_all add: locked_def)
  from lock_record_read [OF this pr sk] obtain rec where rec: "unmarshal_lockServer ?raw = Some rec" "lsToolsHash rec = Some whole"
    "lsToolsDetail rec = (if m = [] then None else Some m)" by blast
  let ?lf = "\<lparr>lfVersion = LockfileVersion, lfGeneratedBy = ''mcp-gateway-lite '' @ Version,
       lfServers = Some (map (\<lambda>(k, v). (k, indented 2 (squash v))) jm)\<rparr>"
  let ?l = "\<lparr>plFile = lcFile lc, plServer = Name u, enforce = (lcMode lc \<noteq> ''warn''), wholeHash = whole, detail = lsToolsDetail rec\<rparr>"
  have "loadLockFile read_file (lcFile lc) = Inr ?lf" using assms(5) 1(1,6) by (simp add: loadLockFile_def)
  moreover have "map_of (map (\<lambda>(k, v). (k, indented 2 (squash v))) jm) (Name u) = Some ?raw"
    using el(3) map_of_raw [of "\<lambda>v. indented 2 (squash v)" jm "Name u"] by simp
  ultimately have p: "prepareLock read_file v cache = (Inr (Some ?l), cache(lcFile lc \<mapsto> ?lf))"
    using assms(3,4,6) rec by (simp add: prepareLock_def Let_def)
  have "verify je ?l page = []" if pg: "set page \<subseteq> set elems" for je page
  proof (cases "m = []")
    case True
    then have "elems = []" "toolsListHash je [] = Inr whole" using el(2) by (auto simp: locked_def)
    then show ?thesis using True pg rec(3) by (simp add: verify_def)
  next
    case False
    then have "detail ?l = Some m" using rec(3) by simp
    from verify_detail [OF this False, of je page] pg el(2) show ?thesis by (auto simp: locked_def)
  qed
  then show ?thesis using el(1) p by (intro exI [of _ elems] exI [of _ r] exI [of _ r'] exI [of _ ?l]) simp
qed

text \<open>A run in which every upstream can be locked and the file can be written succeeds.\<close>

lemma LockInit_succeeds:
  assumes "Validate (leURL env) cfg = Inr c" "existing_lock env path = Inr lf"
    and "lock_upstreams env (Upstreams cfg) (case lfServers lf of None \<Rightarrow> [] | Some m \<Rightarrow> m) [] [] = (Inr servers, out, reqs)"
    and "\<forall>data. leWrite env data = Written"
  shows "loErr (LockInit env cfg path) = None"
proof -
  obtain jm0 where jm0: "lfVersion lf = LockfileVersion" "servers_ok jm0" "lfServers lf = Some (raws jm0)"
    using existing_servers [OF assms(2)] by blast
  have us: "\<forall>u \<in> set (Upstreams cfg). nameRE (Name u)" "distinct (map Name (Upstreams cfg))" "Upstreams c = Upstreams cfg"
    using assms(1) distinct_lower by (auto simp: Validate_Inr upstream_ok_def)
  have "lock_upstreams env (Upstreams cfg) (raws jm0) [] [] = (Inr servers, out, reqs)" using assms(3) jm0(3) by simp
  from lock_upstreams_table [OF this jm0(2) us(1,2)] obtain jm where jm: "servers_ok jm" "servers = raws jm" by blast
  obtain doc where "Option.bind (marshal_lock (lf\<lparr>lfServers := Some servers\<rparr>)) MarshalIndent = Some doc"
    by (rule lock_file_roundtrip [OF jm(1), of "lf\<lparr>lfServers := Some servers\<rparr>"]) (use jm(2) jm0(1) in \<open>simp_all add: LockfileVersion_def\<close>)
  then have "writeLockFile env (lf\<lparr>lfServers := Some servers\<rparr>) = (None, Some (doc @ [LF]))"
    using assms(4) by (simp only: writeLockFile_def option.case Let_def write_outcome.case)
  then show ?thesis using assms us(3) by (simp add: LockInit_def)
qed

text \<open>A server with one tool, asked for the first time.\<close>

definition demo_listing :: httpResponse where
  "demo_listing = demo_response\<lparr>rBody := ''{'' @ marshal_string ''result'' @ '':{'' @ marshal_string ''tools'' @ '':['' @ tool_text ''a'' @ '']}}''\<rparr>"

definition locked_upstream :: Upstream where
  "locked_upstream = zero_upstream\<lparr>Name := ''fs'', URL := ''http://h'', ToolsLock := Some \<lparr>lcFile = ''f'', lcServer = [], lcMode = []\<rparr>\<rparr>"

definition demo_lock_env :: lock_env where
  "demo_lock_env = \<lparr>leRt = rt0, leURL = demo_url, leURLErr = (\<lambda>_. []), leHTTP = (\<lambda>_. Inr demo_listing), leReadErr = [],
     leStat = (\<lambda>_. False), leFile = (\<lambda>_. None), leWrite = (\<lambda>_. Written)\<rparr>"

lemma demo_fetch: "fst (fetchAllTools demo_lock_env ''http://h'' []) = Inr [tool_text ''a'']"
  by code_simp

lemma demo_lock_upstream: "\<exists>r reqs. lock_upstream demo_lock_env (zero_upstream\<lparr>Name := ''fs'', URL := ''http://h''\<rparr>) [] = (Inr r, reqs)"
proof -
  let ?el = "tool_text ''a''" and ?je = "json_err (leRt demo_lock_env)"
  obtain reqs where f: "fetchAllTools demo_lock_env ''http://h'' [] = (Inr [?el], reqs)" using demo_fetch by (metis prod.collapse)
  have "map_option snd (toolFingerprint ?el) = Some ''a'' \<and> Option.bind (toolFingerprint ?el) (canonical \<circ> fst) \<noteq> None" by code_simp
  then obtain h where d: "tool_digest ?el = Some (''a'', h)" by (auto simp: tool_digest_def)
  then have p: "parseLockTools ?je [?el] = Inr [digest_tool ?el]" by (simp add: parseLockTools_Inr del: parseLockTools.simps)
  have m: "add_details (leRt demo_lock_env) [digest_tool ?el] [] = Inr [(''a'', h)]" using d by (simp add: digest_tool_def)
  have "list_encoding [?el] \<noteq> None" by code_simp
  then obtain w where "toolsListHash ?je [?el] = Inr w" by (auto simp: toolsListHash_encoding)
  with f p m show ?thesis by (simp add: lock_upstream_def)
qed

lemma demo_lock_new: "existing_lock demo_lock_env ''f'' = Inr \<lparr>lfVersion = LockfileVersion, lfGeneratedBy = [], lfServers = Some []\<rparr>"
  by (simp add: existing_lock_def demo_lock_env_def)

lemma demo_upstreams: "Upstreams demo_config = [zero_upstream\<lparr>Name := ''fs'', URL := ''http://h''\<rparr>]"
  by (simp add: demo_config_def)

lemma demo_lock_ok: "loErr (LockInit demo_lock_env demo_config ''f'') = None"
proof -
  obtain c where c: "Validate (leURL demo_lock_env) demo_config = Inr c"
    using demo_gateway_New by (auto simp: New_def demo_lock_env_def demo_start_def split: sum.splits)
  obtain servers out reqs where
    "lock_upstreams demo_lock_env [zero_upstream\<lparr>Name := ''fs'', URL := ''http://h''\<rparr>] [] [] [] = (Inr servers, out, reqs)"
    using demo_lock_upstream by auto
  then show ?thesis by (intro LockInit_succeeds [OF c demo_lock_new]) (simp_all add: demo_upstreams demo_lock_env_def)
qed

theorem lock_init_verifies_witness:
  "\<exists>l cache'. prepareLock (\<lambda>_. loFile (LockInit demo_lock_env demo_config ''f'')) locked_upstream Map.empty = (Inr (Some l), cache') \<and>
     enforce l \<and> verify (\<lambda>_. []) l [] = []"
proof -
  let ?u = "zero_upstream\<lparr>Name := ''fs'', URL := ''http://h''\<rparr>"
  let ?data = "loFile (LockInit demo_lock_env demo_config ''f'')"
  have "\<exists>elems reqs reqs' l cache'. fetchAllTools demo_lock_env (URL ?u) reqs = (Inr elems, reqs') \<and>
    prepareLock (\<lambda>_. ?data) locked_upstream Map.empty = (Inr (Some l), cache') \<and> (enforce l \<longleftrightarrow> [] \<noteq> ''warn'') \<and>
    (\<forall>je page. set page \<subseteq> set elems \<longrightarrow> verify je l page = [])"
    using lock_init_verifies [OF demo_lock_ok, of ?u locked_upstream "\<lparr>lcFile = ''f'', lcServer = [], lcMode = []\<rparr>" "\<lambda>_. ?data" Map.empty]
    by (simp add: demo_upstreams locked_upstream_def)
  then show ?thesis by (metis empty_set empty_subsetI list.distinct(1))
qed

subsection \<open>Other records\<close>

fun norm :: "jval \<Rightarrow> jval" where
  "norm (VArr js) = VArr (map norm js)"
| "norm (VObj js) = VObj (build_map (map (\<lambda>(k, j). (k, norm j)) js))"
| "norm j = j"

lemma to_any_skel: "to_any v = norm (skel v)"
  by (induction v rule: to_any.induct) (auto simp: comp_def case_prod_unfold intro!: arg_cong [of _ _ build_map])

text \<open>
  C25. Lock-init keeps what it does not manage: the record of a server that is no upstream is in the new
  file if and only if it was in the old one, and it is the same JSON value; in particular it
  prepares the same lock.
\<close>

theorem lock_init_preserves:
  assumes "loErr (LockInit env cfg path) = None" "k \<notin> Name ` set (Upstreams cfg)" "existing_lock env path = Inr lf0"
  shows "\<exists>data lf. loFile (LockInit env cfg path) = Some data \<and> unmarshal_lockFile data = Some lf \<and>
    Option.bind (Option.bind (lfServers lf) (\<lambda>m. map_of m k)) decodeUseNumber = Option.bind (Option.bind (lfServers lf0) (\<lambda>m. map_of m k)) decodeUseNumber \<and>
    (Option.bind (lfServers lf) (\<lambda>m. map_of m k) = None \<longleftrightarrow> Option.bind (lfServers lf0) (\<lambda>m. map_of m k) = None)"
  using assms(1)
proof (cases rule: LockInit_file)
  case (1 jm jm0 lf1 data)
  let ?ind = "\<lambda>v. indented 2 (squash v)"
  have lf: "lf1 = lf0" using 1(2) assms(3) by simp
  have new: "map_of (map (\<lambda>(k, v). (k, ?ind v)) jm) k = map_option ?ind (map_of jm0 k)" using 1(7) assms(2) by (simp add: map_of_raw)
  have old: "map_of (raws jm0) k = map_option raw_of (map_of jm0 k)" by (simp add: map_of_raw)
  have "decodeUseNumber (?ind v) = decodeUseNumber (raw_of v)" if "map_of jm0 k = Some v" for v
  proof -
    have n: "node (maxNestingDepth - 2) v" using 1(5) map_of_SomeD [OF that] by (auto simp: servers_ok_def)
    have "decodeUseNumber (raw_of (indent 2 (squash v))) = Some (to_any (indent 2 (squash v)))" 
      by (rule node_decodeUseNumber [OF node_mono [OF indent_node [OF squash_node [OF n]]]]) simp
    moreover have "decodeUseNumber (raw_of v) = Some (to_any v)" by (rule node_decodeUseNumber [OF node_mono [OF n]]) simp
    moreover have "to_any (indent 2 (squash v)) = to_any v" using skel_squash [OF n] by (simp add: to_any_skel)
    ultimately show ?thesis by simp
  qed
  then show ?thesis using 1(1,3,6) lf new old by (cases "map_of jm0 k") simp_all
qed

theorem lock_init_preserves_witness:
  "\<exists>data lf. loFile (LockInit demo_lock_env demo_config ''f'') = Some data \<and> unmarshal_lockFile data = Some lf \<and>
     Option.bind (lfServers lf) (\<lambda>m. map_of m ''other'') = None"
proof -
  have "''other'' \<notin> Name ` set (Upstreams demo_config)" by (simp add: demo_upstreams)
  from lock_init_preserves [OF demo_lock_ok this demo_lock_new] show ?thesis by auto
qed

end
