(* ===== verification/Config_File.thy ===== *)
theory Config_File
  imports Config Go_Marshal Go_Float
begin

text \<open>
  \<^verbatim>\<open>Load\<close> of \<^verbatim>\<open>gateway/config.go\<close>: the configuration file decoded by \<^verbatim>\<open>encoding/json\<close> into the structs, with
  unknown fields rejected at every level.  A repeated key decodes into what the field already
  holds, so slices are kept with their backing array until the end.
\<close>

subsection \<open>Numbers\<close>

text \<open>\<^verbatim>\<open>strconv.ParseFloat\<close> on a JSON number: the exact value of the literal, rounded; too large is an error.\<close>

definition lit_rat :: "bytes \<Rightarrow> rat" where
  "lit_rat l =
     (let neg = prefix ''-'' l; l1 = (if neg then tl l else l);
          ip = takeWhile is_digit l1; l2 = dropWhile is_digit l1;
          fp = (if prefix ''.'' l2 then takeWhile is_digit (tl l2) else []);
          l3 = (if prefix ''.'' l2 then dropWhile is_digit (tl l2) else l2);
          ex = (if l3 = [] then 0
                else (let e = tl l3 in
                      if prefix ''-'' e then - digits_val (tl e) else if prefix ''+'' e then digits_val (tl e) else digits_val e));
          m = of_int (digits_val (ip @ fp)); k = ex - int (length fp);
          x = (if k \<ge> 0 then m * 10 ^ nat k else m / 10 ^ nat (- k))
      in if neg then - x else x)"

definition ParseFloat :: "bytes \<Rightarrow> rat option" where
  "ParseFloat l = (let x = fl (lit_rat l) in if \<bar>x\<bar> < 2 ^ 1024 then Some x else None)"

fun float_step :: "rat \<Rightarrow> json \<Rightarrow> rat option" where
  "float_step cur (JNum l) = ParseFloat l"
| "float_step cur JNull = Some cur"
| "float_step cur _ = None"

subsection \<open>Slices and structs\<close>

fun slice_elems :: "('a \<Rightarrow> json \<Rightarrow> 'a option) \<Rightarrow> 'a \<Rightarrow> 'a list \<Rightarrow> json list \<Rightarrow> 'a list option" where
  "slice_elems st z old [] = Some old"
| "slice_elems st z old (v # vs) =
     do { c \<leftarrow> st (case old of [] \<Rightarrow> z | c # _ \<Rightarrow> c) v; cs \<leftarrow> slice_elems st z (tl old) vs; Some (c # cs) }"

text \<open>A slice is its backing array and its length.\<close>

fun slice_step :: "('a \<Rightarrow> json \<Rightarrow> 'a option) \<Rightarrow> 'a \<Rightarrow> 'a list \<times> nat \<Rightarrow> json \<Rightarrow> ('a list \<times> nat) option" where
  "slice_step st z (b, n) (JArr _ vs) =
     (if vs = [] then Some ([], 0) else map_option (\<lambda>b1. (b1, length vs)) (slice_elems st z b vs))"
| "slice_step st z (b, n) JNull = Some ([], 0)"
| "slice_step st z (b, n) _ = None"

definition known :: "bytes list \<Rightarrow> (bytes \<times> json) list \<Rightarrow> bool" where
  "known fs ms = list_all (\<lambda>(k, v). list_ex (\<lambda>f. key_matches f k) fs) ms"

fun struct_step :: "bytes list \<Rightarrow> ('a \<Rightarrow> (bytes \<times> json) list \<Rightarrow> 'a option) \<Rightarrow> 'a \<Rightarrow> json \<Rightarrow> 'a option" where
  "struct_step fs dec cur (JObj _ ms) = (if known fs ms then dec cur ms else None)"
| "struct_step fs dec cur JNull = Some cur"
| "struct_step fs dec cur _ = None"

fun ptr_step :: "('a \<Rightarrow> json \<Rightarrow> 'a option) \<Rightarrow> 'a \<Rightarrow> 'a option \<Rightarrow> json \<Rightarrow> 'a option option" where
  "ptr_step st z cur JNull = Some None"
| "ptr_step st z cur v = map_option Some (st (case cur of None \<Rightarrow> z | Some c \<Rightarrow> c) v)"

subsection \<open>The configuration structs\<close>

definition rate_keys :: "bytes list" where
  "rate_keys = [''requests_per_second'', ''burst'', ''per_session'']"

definition rate_fields :: "RateLimitConfig \<Rightarrow> (bytes \<times> json) list \<Rightarrow> RateLimitConfig option" where
  "rate_fields r ms =
     do { rps \<leftarrow> assign_field float_step (RequestsPerSecond r) ''requests_per_second'' ms;
          b \<leftarrow> assign_field int_step (Burst r) ''burst'' ms;
          p \<leftarrow> assign_field bool_step (PerSession r) ''per_session'' ms;
          Some \<lparr>RequestsPerSecond = rps, Burst = b, PerSession = p\<rparr> }"

definition lock_keys :: "bytes list" where "lock_keys = [''file'', ''server'', ''mode'']"

definition lock_cfg_fields :: "LockConfig \<Rightarrow> (bytes \<times> json) list \<Rightarrow> LockConfig option" where
  "lock_cfg_fields l ms =
     do { f \<leftarrow> assign_field string_step (lcFile l) ''file'' ms;
          s \<leftarrow> assign_field string_step (lcServer l) ''server'' ms;
          m \<leftarrow> assign_field string_step (lcMode l) ''mode'' ms;
          Some \<lparr>lcFile = f, lcServer = s, lcMode = m\<rparr> }"

definition promptproof_keys :: "bytes list" where
  "promptproof_keys = [''enabled'', ''binary'', ''threshold'', ''action'', ''suspicious_at'', ''dangerous_at'', ''pool'']"

definition promptproof_fields :: "PromptProofConfig \<Rightarrow> (bytes \<times> json) list \<Rightarrow> PromptProofConfig option" where
  "promptproof_fields p ms =
     do { e \<leftarrow> assign_field bool_step (ppEnabled p) ''enabled'' ms;
          b \<leftarrow> assign_field string_step (ppBinary p) ''binary'' ms;
          t \<leftarrow> assign_field string_step (ppThreshold p) ''threshold'' ms;
          a \<leftarrow> assign_field string_step (ppAction p) ''action'' ms;
          s \<leftarrow> assign_field int_step (ppSuspiciousAt p) ''suspicious_at'' ms;
          d \<leftarrow> assign_field int_step (ppDangerousAt p) ''dangerous_at'' ms;
          n \<leftarrow> assign_field int_step (ppPool p) ''pool'' ms;
          Some \<lparr>ppEnabled = e, ppBinary = b, ppThreshold = t, ppAction = a, ppSuspiciousAt = s, ppDangerousAt = d, ppPool = n\<rparr> }"

text \<open>An upstream under way: its slices with their backing arrays.\<close>

record upstream_dec =
  udName :: bytes
  udURL :: bytes
  udTimeout :: int
  udRate :: "RateLimitConfig option"
  udAllow :: "bytes list \<times> nat"
  udDeny :: "bytes list \<times> nat"
  udLock :: "LockConfig option"
  udProof :: "PromptProofConfig option"
  udAuth :: "bytes list \<times> nat"
  udResource :: bytes

definition zero_dec :: upstream_dec where
  "zero_dec = \<lparr>udName = [], udURL = [], udTimeout = 0, udRate = None, udAllow = ([], 0), udDeny = ([], 0), udLock = None,
     udProof = None, udAuth = ([], 0), udResource = []\<rparr>"

definition upstream_keys :: "bytes list" where
  "upstream_keys = [''name'', ''url'', ''header_timeout_seconds'', ''rate_limit'', ''tools_allow'', ''tools_deny'', ''tools_lock'',
     ''promptproof'', ''authorization_servers'', ''resource_name'']"

abbreviation rate_step :: "RateLimitConfig \<Rightarrow> json \<Rightarrow> RateLimitConfig option" where
  "rate_step \<equiv> struct_step rate_keys rate_fields"

abbreviation lock_step :: "LockConfig \<Rightarrow> json \<Rightarrow> LockConfig option" where
  "lock_step \<equiv> struct_step lock_keys lock_cfg_fields"

abbreviation promptproof_step :: "PromptProofConfig \<Rightarrow> json \<Rightarrow> PromptProofConfig option" where
  "promptproof_step \<equiv> struct_step promptproof_keys promptproof_fields"

definition zero_rate :: RateLimitConfig where "zero_rate = \<lparr>RequestsPerSecond = 0, Burst = 0, PerSession = False\<rparr>"

definition zero_lock :: LockConfig where "zero_lock = \<lparr>lcFile = [], lcServer = [], lcMode = []\<rparr>"

definition zero_promptproof :: PromptProofConfig where
  "zero_promptproof = \<lparr>ppEnabled = False, ppBinary = [], ppThreshold = [], ppAction = [], ppSuspiciousAt = 0, ppDangerousAt = 0, ppPool = 0\<rparr>"

definition upstream_fields :: "upstream_dec \<Rightarrow> (bytes \<times> json) list \<Rightarrow> upstream_dec option" where
  "upstream_fields u ms =
     do { n \<leftarrow> assign_field string_step (udName u) ''name'' ms;
          url \<leftarrow> assign_field string_step (udURL u) ''url'' ms;
          t \<leftarrow> assign_field int_step (udTimeout u) ''header_timeout_seconds'' ms;
          r \<leftarrow> assign_field (ptr_step rate_step zero_rate) (udRate u) ''rate_limit'' ms;
          a \<leftarrow> assign_field (slice_step string_step []) (udAllow u) ''tools_allow'' ms;
          d \<leftarrow> assign_field (slice_step string_step []) (udDeny u) ''tools_deny'' ms;
          l \<leftarrow> assign_field (ptr_step lock_step zero_lock) (udLock u) ''tools_lock'' ms;
          p \<leftarrow> assign_field (ptr_step promptproof_step zero_promptproof) (udProof u) ''promptproof'' ms;
          au \<leftarrow> assign_field (slice_step string_step []) (udAuth u) ''authorization_servers'' ms;
          rn \<leftarrow> assign_field string_step (udResource u) ''resource_name'' ms;
          Some \<lparr>udName = n, udURL = url, udTimeout = t, udRate = r, udAllow = a, udDeny = d, udLock = l, udProof = p,
                udAuth = au, udResource = rn\<rparr> }"

abbreviation upstream_step :: "upstream_dec \<Rightarrow> json \<Rightarrow> upstream_dec option" where
  "upstream_step \<equiv> struct_step upstream_keys upstream_fields"

definition slice_list :: "'a list \<times> nat \<Rightarrow> 'a list" where
  "slice_list s = take (snd s) (fst s)"

definition upstream_of :: "upstream_dec \<Rightarrow> Upstream" where
  "upstream_of u =
     \<lparr>Name = udName u, URL = udURL u, HeaderTimeoutSeconds = udTimeout u, RateLimit = udRate u,
      ToolsAllow = slice_list (udAllow u), ToolsDeny = slice_list (udDeny u), ToolsLock = udLock u, PromptProof = udProof u,
      AuthorizationServers = slice_list (udAuth u), ResourceName = udResource u\<rparr>"

definition audit_keys :: "bytes list" where "audit_keys = [''path'']"

definition audit_fields :: "bytes \<Rightarrow> (bytes \<times> json) list \<Rightarrow> bytes option" where
  "audit_fields cur ms = assign_field string_step cur ''path'' ms"

definition config_keys :: "bytes list" where
  "config_keys = [''listen'', ''public_base_url'', ''audit'', ''upstreams'']"

definition config_fields :: "(bytes \<times> json) list \<Rightarrow> Config option" where
  "config_fields ms =
     do { l \<leftarrow> assign_field string_step [] ''listen'' ms;
          p \<leftarrow> assign_field string_step [] ''public_base_url'' ms;
          a \<leftarrow> assign_field (struct_step audit_keys audit_fields) [] ''audit'' ms;
          us \<leftarrow> assign_field (slice_step upstream_step zero_dec) ([], 0) ''upstreams'' ms;
          Some \<lparr>Listen = l, PublicBaseURL = p, AuditPath = a, Upstreams = map upstream_of (slice_list us)\<rparr> }"

definition zero_config :: Config where
  "zero_config = \<lparr>Listen = [], PublicBaseURL = [], AuditPath = [], Upstreams = []\<rparr>"

definition config_of :: "json \<Rightarrow> Config option" where
  "config_of v = struct_step config_keys (\<lambda>_. config_fields) zero_config v"

subsection \<open>Load\<close>

datatype load_error =
    OpenError bytes
  | DecodeError bytes
  | LoadInvalid bytes cfg_error

text \<open>\<^verbatim>\<open>Decoder.Decode\<close> reads the first value of the file and leaves the rest.\<close>

definition Load :: "url_parser \<Rightarrow> (bytes \<Rightarrow> bytes option) \<Rightarrow> bytes \<Rightarrow> load_error + Config" where
  "Load up read_file path =
     (case read_file path of
        None \<Rightarrow> Inl (OpenError path)
      | Some data \<Rightarrow>
          (case Option.bind (parse_value maxNestingDepth (skip_ws data)) (config_of \<circ> fst) of
             None \<Rightarrow> Inl (DecodeError path)
           | Some cfg \<Rightarrow> (case Validate up cfg of Inl e \<Rightarrow> Inl (LoadInvalid path e) | Inr c \<Rightarrow> Inr c)))"

subsection \<open>Typos fail\<close>

text \<open>Every key of every object in the document is a field of the struct it is decoded into.\<close>

definition keys_in :: "bytes list \<Rightarrow> ((bytes \<times> json) list \<Rightarrow> bool) \<Rightarrow> json \<Rightarrow> bool" where
  "keys_in fs rest v = (case v of JObj _ ms \<Rightarrow> known fs ms \<and> rest ms | _ \<Rightarrow> True)"

definition under :: "bytes \<Rightarrow> (json \<Rightarrow> bool) \<Rightarrow> (bytes \<times> json) list \<Rightarrow> bool" where
  "under f P ms = list_all P (field_members f ms)"

definition elements :: "(json \<Rightarrow> bool) \<Rightarrow> json \<Rightarrow> bool" where
  "elements P v = (case v of JArr _ vs \<Rightarrow> list_all P vs | _ \<Rightarrow> True)"

definition upstream_known :: "json \<Rightarrow> bool" where
  "upstream_known = keys_in upstream_keys (\<lambda>ms.
     under ''rate_limit'' (keys_in rate_keys (\<lambda>_. True)) ms \<and> under ''tools_lock'' (keys_in lock_keys (\<lambda>_. True)) ms \<and>
     under ''promptproof'' (keys_in promptproof_keys (\<lambda>_. True)) ms)"

definition config_known :: "json \<Rightarrow> bool" where
  "config_known = keys_in config_keys (\<lambda>ms.
     under ''audit'' (keys_in audit_keys (\<lambda>_. True)) ms \<and> under ''upstreams'' (elements upstream_known) ms)"

text \<open>A field is assigned only if every value under its name can be decoded.\<close>

lemma assign_field_each:
  assumes "assign_field st i f ms = Some r" "\<And>cur v. st cur v \<noteq> None \<Longrightarrow> P v"
  shows "under f P ms"
proof -
  have none: "foldl (\<lambda>acc v. Option.bind acc (\<lambda>cur. st cur v)) None vs = None" for vs by (induction vs) simp_all
  have "foldl (\<lambda>acc v. Option.bind acc (\<lambda>cur. st cur v)) (Some c) vs = Some r \<Longrightarrow> list_all P vs" for c vs
  proof (induction vs arbitrary: c)
    case (Cons v vs)
    then obtain c' where c': "st c v = Some c'" by (cases "st c v") (simp_all add: none)
    then have "P v" by (intro assms(2) [of c v]) simp
    moreover have "list_all P vs" by (rule Cons.IH [of c']) (use Cons.prems c' in simp)
    ultimately show ?case by simp
  qed simp
  then show ?thesis using assms(1) unfolding assign_field_def under_def by blast
qed

lemma struct_step_keys:
  assumes "struct_step fs dec cur v \<noteq> None" "\<And>c ms. dec c ms \<noteq> None \<Longrightarrow> Q ms"
  shows "keys_in fs Q v"
  using assms by (cases v) (auto simp: keys_in_def split: if_splits)

lemma ptr_step_inner:
  assumes "ptr_step st z cur v \<noteq> None" "\<And>c v. st c v \<noteq> None \<Longrightarrow> P v" "P JNull"
  shows "P v"
proof (cases "v = JNull")
  case False
  then have "ptr_step st z cur v = map_option Some (st (case cur of None \<Rightarrow> z | Some c \<Rightarrow> c) v)" by (cases v) simp_all
  with assms(1) show ?thesis by (intro assms(2) [of "case cur of None \<Rightarrow> z | Some c \<Rightarrow> c"]) auto
qed (simp add: assms(3))

lemma slice_step_each:
  assumes "slice_step st z cur v \<noteq> None" "\<And>c v. st c v \<noteq> None \<Longrightarrow> P v"
  shows "elements P v"
proof -
  have e: "slice_elems st z old vs = Some bs \<Longrightarrow> list_all P vs" for old vs bs
  proof (induction vs arbitrary: old bs)
    case (Cons w vs)
    then obtain c cs where c: "st (case old of [] \<Rightarrow> z | c # _ \<Rightarrow> c) w = Some c" "slice_elems st z (tl old) vs = Some cs" by auto
    have "P w" by (rule assms(2) [of "case old of [] \<Rightarrow> z | c # _ \<Rightarrow> c"]) (use c(1) in simp)
    with Cons.IH [OF c(2)] show ?case by simp
  qed simp
  obtain b n where "cur = (b, n)" by fastforce
  then show ?thesis using assms(1) e by (cases v) (auto simp: elements_def split: if_splits)
qed

lemma substruct_known:
  assumes "assign_field (ptr_step (struct_step fs dec) z) i f ms = Some r"
  shows "under f (keys_in fs (\<lambda>_. True)) ms"
proof (rule assign_field_each [OF assms])
  fix cur v
  assume "ptr_step (struct_step fs dec) z cur v \<noteq> None"
  then show "keys_in fs (\<lambda>_. True) v"
  proof (rule ptr_step_inner)
    show "keys_in fs (\<lambda>_. True) v" if "struct_step fs dec c v \<noteq> None" for c v using that by (rule struct_step_keys) simp
  qed (simp add: keys_in_def)
qed

lemma upstream_step_known: "upstream_step cur v \<noteq> None \<Longrightarrow> upstream_known v"
  unfolding upstream_known_def
proof (erule struct_step_keys)
  fix c ms
  assume "upstream_fields c ms \<noteq> None"
  then obtain r l p i j k where "assign_field (ptr_step rate_step zero_rate) i ''rate_limit'' ms = Some r"
    "assign_field (ptr_step lock_step zero_lock) j ''tools_lock'' ms = Some l"
    "assign_field (ptr_step promptproof_step zero_promptproof) k ''promptproof'' ms = Some p"
    by (auto simp: upstream_fields_def)
  then show "under ''rate_limit'' (keys_in rate_keys (\<lambda>_. True)) ms \<and> under ''tools_lock'' (keys_in lock_keys (\<lambda>_. True)) ms \<and>
     under ''promptproof'' (keys_in promptproof_keys (\<lambda>_. True)) ms"
    using substruct_known [of rate_keys rate_fields zero_rate i "''rate_limit''" ms r]
      substruct_known [of lock_keys lock_cfg_fields zero_lock j "''tools_lock''" ms l]
      substruct_known [of promptproof_keys promptproof_fields zero_promptproof k "''promptproof''" ms p] by (intro conjI)
qed

lemma config_of_known: "config_of v \<noteq> None \<Longrightarrow> config_known v"
  unfolding config_of_def config_known_def
proof (erule struct_step_keys)
  fix c :: Config and ms
  assume "config_fields ms \<noteq> None"
  then obtain a us where a: "assign_field (struct_step audit_keys audit_fields) [] ''audit'' ms = Some a"
    "assign_field (slice_step upstream_step zero_dec) ([], 0) ''upstreams'' ms = Some us"
    by (auto simp: config_fields_def)
  have "under ''audit'' (keys_in audit_keys (\<lambda>_. True)) ms" by (rule assign_field_each [OF a(1)]) (rule struct_step_keys, auto)
  moreover have "under ''upstreams'' (elements upstream_known) ms"
    by (rule assign_field_each [OF a(2)], erule slice_step_each, rule upstream_step_known)
  ultimately show "under ''audit'' (keys_in audit_keys (\<lambda>_. True)) ms \<and> under ''upstreams'' (elements upstream_known) ms" ..
qed

text \<open>
  C26. A typo in the configuration file fails loudly: if \<^verbatim>\<open>Load\<close> succeeds, the file starts with a JSON value in
  which every key, at every level, names a field of the struct it belongs to, and the result is the
  validated configuration of that value.
\<close>

theorem Load_rejects_unknown:
  assumes "Load up read_file path = Inr c"
  shows "\<exists>data v rest cfg. read_file path = Some data \<and> parse_value maxNestingDepth (skip_ws data) = Some (v, rest) \<and>
    config_known v \<and> config_of v = Some cfg \<and> Validate up cfg = Inr c"
proof -
  from assms obtain data v rest cfg where d: "read_file path = Some data" "parse_value maxNestingDepth (skip_ws data) = Some (v, rest)"
    "config_of v = Some cfg" "Validate up cfg = Inr c"
    by (auto simp: Load_def split: option.splits sum.splits)
  then have "config_known v" by (intro config_of_known) simp
  with d show ?thesis by blast
qed

text \<open>A file, and the same file with a misspelt key.\<close>

definition demo_file :: "bytes \<Rightarrow> bytes" where
  "demo_file allow_key = ''{'' @ marshal_string ''upstreams'' @ '':[{'' @ marshal_string ''name'' @ '':'' @ marshal_string ''fs'' @ '','' @
     marshal_string ''url'' @ '':'' @ marshal_string ''http://h'' @ '','' @ marshal_string allow_key @ '':['' @ marshal_string ''a'' @ '']}]}''"

theorem Load_rejects_unknown_witness:
  "(\<exists>v rest. parse_value maxNestingDepth (skip_ws (demo_file ''tools_allow'')) = Some (v, rest) \<and> config_known v) \<and>
   Load demo_url (\<lambda>_. Some (demo_file ''tool_allow'')) ''f'' = Inl (DecodeError ''f'')"
proof -
  have "case Load demo_url (\<lambda>_. Some (demo_file ''tools_allow'')) ''f'' of Inl _ \<Rightarrow> False | Inr c \<Rightarrow> map ToolsAllow (Upstreams c) = [[''a'']]"
    by code_simp
  then obtain c where c: "Load demo_url (\<lambda>_. Some (demo_file ''tools_allow'')) ''f'' = Inr c" by (auto split: sum.splits)
  have "Load demo_url (\<lambda>_. Some (demo_file ''tool_allow'')) ''f'' = Inl (DecodeError ''f'')" by code_simp
  with Load_rejects_unknown [OF c] show ?thesis by auto
qed

text \<open>What follows the first value of the file is not looked at.\<close>

lemma Load_ignores_rest:
  "node maxNestingDepth (JObj t ms) \<Longrightarrow> numstop rest \<Longrightarrow> Load up (\<lambda>_. Some (t @ rest)) path = Load up (\<lambda>_. Some t) path"
proof -
  assume n: "node maxNestingDepth (JObj t ms)" "numstop rest"
  then have a: "accepts (parse_value maxNestingDepth) t (JObj t ms)" by (simp add: node_accepts)
  then have ws: "skip_ws (t @ r) = t @ r" for r by (simp add: accepts_def skip_ws_id)
  show ?thesis using acceptsD [OF a n(2)] acceptsD [OF a, of "[]"] ws [of rest] ws [of "[]"] by (simp add: Load_def)
qed

end
