(* ===== verification/Main_Cmd.thy ===== *)
theory Main_Cmd
  imports Lockinit Config_File Handling
begin

text \<open>
  \<^verbatim>\<open>cmd/mcp-gateway-lite/main.go\<close>: the flags as \<^verbatim>\<open>flag.FlagSet\<close> parses them, and \<^verbatim>\<open>run\<close>, which loads and
  completes the configuration and then prints the version, initialises the lockfile, checks the
  configuration or serves.
\<close>

subsection \<open>Flags\<close>

record cmd_flags =
  fConfig :: bytes
  fListen :: bytes
  fAudit :: bytes
  fVersion :: bool
  fCheck :: bool
  fLockInit :: bool
  fLockFile :: bytes
  fUps :: "Upstream list"

definition no_flags :: cmd_flags where
  "no_flags = \<lparr>fConfig = [], fListen = [], fAudit = [], fVersion = False, fCheck = False, fLockInit = False,
     fLockFile = ''mcp-sentinel.lock'', fUps = []\<rparr>"

datatype flag_error =
    BadSyntax bytes
  | NotDefined bytes
  | NeedsArgument bytes
  | BadValue bytes bytes
  | HelpWanted

text \<open>\<^verbatim>\<open>upstreamFlags.Set\<close>.\<close>

definition upstream_Set :: "bytes \<Rightarrow> cmd_flags \<Rightarrow> cmd_flags option" where
  "upstream_Set v f = map_option (\<lambda>u. f\<lparr>fUps := fUps f @ [u]\<rparr>) (ParseUpstreamFlag v)"

definition upstream_String :: "Upstream list \<Rightarrow> bytes" where
  "upstream_String us = Itoa (int (length us)) @ '' upstream(s)''"

text \<open>\<^verbatim>\<open>strconv.ParseBool\<close>.\<close>

definition ParseBool :: "bytes \<Rightarrow> bool option" where
  "ParseBool s =
     (if s \<in> set [''1'', ''t'', ''T'', ''true'', ''TRUE'', ''True''] then Some True
      else if s \<in> set [''0'', ''f'', ''F'', ''false'', ''FALSE'', ''False''] then Some False
      else None)"

definition is_bool_flag :: "bytes \<Rightarrow> bool" where
  "is_bool_flag n \<longleftrightarrow> n \<in> set [''version'', ''check'', ''lock-init'']"

definition is_flag :: "bytes \<Rightarrow> bool" where
  "is_flag n \<longleftrightarrow> is_bool_flag n \<or> n \<in> set [''config'', ''listen'', ''audit'', ''lock-file'', ''upstream'']"

definition set_flag :: "bytes \<Rightarrow> bytes \<Rightarrow> cmd_flags \<Rightarrow> cmd_flags option" where
  "set_flag n v f =
     (if n = ''config'' then Some (f\<lparr>fConfig := v\<rparr>)
      else if n = ''listen'' then Some (f\<lparr>fListen := v\<rparr>)
      else if n = ''audit'' then Some (f\<lparr>fAudit := v\<rparr>)
      else if n = ''lock-file'' then Some (f\<lparr>fLockFile := v\<rparr>)
      else if n = ''upstream'' then upstream_Set v f
      else if n = ''version'' then map_option (\<lambda>b. f\<lparr>fVersion := b\<rparr>) (ParseBool v)
      else if n = ''check'' then map_option (\<lambda>b. f\<lparr>fCheck := b\<rparr>) (ParseBool v)
      else if n = ''lock-init'' then map_option (\<lambda>b. f\<lparr>fLockInit := b\<rparr>) (ParseBool v)
      else None)"

text \<open>
  \<^verbatim>\<open>FlagSet.parseOne\<close> on the first argument: \<open>None\<close> when the flags end there, otherwise the flag's
  name and the value given with \<^verbatim>\<open>=\<close>.
\<close>

definition flag_arg :: "bytes \<Rightarrow> (flag_error + bytes \<times> bytes option) option" where
  "flag_arg s =
     (if length s < 2 \<or> \<not> HasPrefix s ''-'' then None
      else if s = ''--'' then None
      else
        (let name = (if HasPrefix s ''--'' then drop 2 s else drop 1 s) in
         if name = [] \<or> HasPrefix name ''-'' \<or> HasPrefix name ''='' then Some (Inl (BadSyntax s))
         else (case Cut name (CHR ''='') of
                 (n, v, True) \<Rightarrow> Some (Inr (n, Some v))
               | (n, v, False) \<Rightarrow> Some (Inr (n, None)))))"

fun parse_flags :: "bytes list \<Rightarrow> cmd_flags \<Rightarrow> flag_error + cmd_flags" where
  "parse_flags [] f = Inr f"
| "parse_flags (s # args) f =
     (case flag_arg s of
        None \<Rightarrow> Inr f
      | Some (Inl e) \<Rightarrow> Inl e
      | Some (Inr (n, ov)) \<Rightarrow>
          if \<not> is_flag n then Inl (if n = ''help'' \<or> n = ''h'' then HelpWanted else NotDefined n)
          else if is_bool_flag n then
            (case set_flag n (case ov of None \<Rightarrow> ''true'' | Some v \<Rightarrow> v) f of
               None \<Rightarrow> Inl (BadValue n (case ov of None \<Rightarrow> ''true'' | Some v \<Rightarrow> v))
             | Some f1 \<Rightarrow> parse_flags args f1)
          else (case (ov, args) of
                  (Some v, _) \<Rightarrow> (case set_flag n v f of None \<Rightarrow> Inl (BadValue n v) | Some f1 \<Rightarrow> parse_flags args f1)
                | (None, v # args1) \<Rightarrow> (case set_flag n v f of None \<Rightarrow> Inl (BadValue n v) | Some f1 \<Rightarrow> parse_flags args1 f1)
                | (None, []) \<Rightarrow> Inl (NeedsArgument n)))"


subsection \<open>run\<close>

datatype run_error =
    FlagFailed flag_error
  | LoadFailed load_error
  | ConfigInvalid cfg_error
  | LockInitFailed init_error
  | AuditFailed bytes
  | GatewayFailed gw_error
  | ListenFailed bytes
  | ShutdownFailed bytes

text \<open>
  What a run does, in order.  \<open>StartPools\<close> are the scanner pools \<^verbatim>\<open>gateway.New\<close> leaves running,
  \<open>ClosePools\<close> those \<^verbatim>\<open>gw.Close\<close> stops; the audit actions are those on a file.
\<close>

datatype action =
    Print bytes
  | InitLock lock_outcome
  | OpenAudit bytes
  | StartPools "bytes list"
  | ListenOn bytes
  | ShutdownServer
  | ClosePools "bytes list"
  | CloseAudit bytes

text \<open>How the \<^verbatim>\<open>select\<close> of \<^verbatim>\<open>run\<close> ends: the listener's error, or a signal and what \<^verbatim>\<open>Shutdown\<close> returns; or it does not end.\<close>

datatype serve_end = ListenErr bytes | Signalled "bytes option" | NeverEnds

datatype run_end = Exit "run_error option" | StillServing

record run_env =
  reStart :: start_env
  reLock :: lock_env
  reAudit :: "bytes \<Rightarrow> bytes option"
  reServe :: serve_end

definition with_flags :: "cmd_flags \<Rightarrow> Config \<Rightarrow> Config" where
  "with_flags f cfg =
     (let c1 = cfg\<lparr>Upstreams := Upstreams cfg @ fUps f\<rparr>;
          c2 = (if fListen f \<noteq> [] then c1\<lparr>Listen := fListen f\<rparr> else c1) in
      if fAudit f \<noteq> [] then c2\<lparr>AuditPath := fAudit f\<rparr> else c2)"

definition run_config :: "run_env \<Rightarrow> cmd_flags \<Rightarrow> run_error + Config" where
  "run_config env f =
     (case (if fConfig f \<noteq> [] then Load (seURL (reStart env)) (seFile (reStart env)) (fConfig f) else Inr zero_config) of
        Inl e \<Rightarrow> Inl (LoadFailed e)
      | Inr cfg \<Rightarrow>
          (case Validate (seURL (reStart env)) (with_flags f cfg) of
             Inl e \<Rightarrow> Inl (ConfigInvalid e)
           | Inr c \<Rightarrow> Inr c))"

definition config_ok_line :: "Config \<Rightarrow> bytes" where
  "config_ok_line c = ''config ok: listen='' @ Listen c @ '' upstreams='' @ Itoa (int (length (Upstreams c))) @ [LF]"

text \<open>From \<^verbatim>\<open>srv.ListenAndServe\<close> to the return: the result, and whether the server was shut down.\<close>

definition await :: "serve_end \<Rightarrow> run_end \<times> action list" where
  "await w =
     (case w of
        ListenErr e \<Rightarrow> (Exit (Some (ListenFailed e)), [])
      | Signalled None \<Rightarrow> (Exit None, [ShutdownServer])
      | Signalled (Some e) \<Rightarrow> (Exit (Some (ShutdownFailed e)), [ShutdownServer])
      | NeverEnds \<Rightarrow> (StillServing, []))"

text \<open>The deferred calls run when \<^verbatim>\<open>run\<close> returns, the last one first.\<close>

definition deferred :: "action list \<Rightarrow> run_end \<times> action list \<Rightarrow> run_end \<times> action list" where
  "deferred acts r = (case r of (Exit e, tr) \<Rightarrow> (Exit e, tr @ acts) | (StillServing, tr) \<Rightarrow> (StillServing, tr))"

definition run_gateway :: "run_env \<Rightarrow> Config \<Rightarrow> Auditor \<Rightarrow> run_end \<times> action list" where
  "run_gateway env c a =
     (case New (reStart env) c (Some a) of
        (Inl e, rest) \<Rightarrow> (Exit (Some (GatewayFailed e)), [StartPools rest])
      | (Inr g, running) \<Rightarrow>
          (case await (reServe env) of
             (res, acts) \<Rightarrow>
               deferred [ClosePools (filter (\<lambda>n. n \<notin> set (Close g running)) running)]
                 (res, [StartPools running, ListenOn (Listen c)] @ acts)))"

definition run_serve :: "run_env \<Rightarrow> Config \<Rightarrow> run_end \<times> action list" where
  "run_serve env c =
     (case NewAuditor (reAudit env) (AuditPath c) of
        Inl e \<Rightarrow> (Exit (Some (AuditFailed e)), [])
      | Inr a \<Rightarrow>
          (let file = (if aCloser a then [AuditPath c] else []) in
           case deferred (map CloseAudit file) (run_gateway env c a) of
             (res, acts) \<Rightarrow> (res, map OpenAudit file @ acts)))"

definition run :: "run_env \<Rightarrow> bytes list \<Rightarrow> run_end \<times> action list" where
  "run env args =
     (case parse_flags args no_flags of
        Inl HelpWanted \<Rightarrow> (Exit None, [])
      | Inl e \<Rightarrow> (Exit (Some (FlagFailed e)), [])
      | Inr f \<Rightarrow>
          if fVersion f then (Exit None, [Print (''mcp-gateway-lite '' @ Version @ [LF])])
          else
            (case run_config env f of
               Inl e \<Rightarrow> (Exit (Some e), [])
             | Inr c \<Rightarrow>
                 if fLockInit f then
                   (let out = LockInit (reLock env) c (fLockFile f) in
                    (Exit (map_option LockInitFailed (loErr out)), [InitLock out]))
                 else if fCheck f then (Exit None, [Print (config_ok_line c)])
                 else run_serve env c))"

text \<open>\<^verbatim>\<open>main\<close>: the exit status, if the process ends.\<close>

definition main_status :: "run_env \<Rightarrow> bytes list \<Rightarrow> nat option" where
  "main_status env args =
     (case fst (run env args) of
        Exit None \<Rightarrow> Some 0
      | Exit (Some e) \<Rightarrow> Some 1
      | StillServing \<Rightarrow> None)"


subsection \<open>Flags read back\<close>

lemma flag_arg_value:
  "is_flag n \<Longrightarrow> flag_arg (''--'' @ n @ ''='' @ v) = Some (Inr (n, Some v))"
  "is_flag n \<Longrightarrow> flag_arg (''-'' @ n @ ''='' @ v) = Some (Inr (n, Some v))"
  by (auto simp: is_flag_def is_bool_flag_def flag_arg_def Cut_def HasPrefix_def Let_def)

lemma flag_arg_bare:
  "is_flag n \<Longrightarrow> flag_arg (''--'' @ n) = Some (Inr (n, None))"
  "is_flag n \<Longrightarrow> flag_arg (''-'' @ n) = Some (Inr (n, None))"
  by (auto simp: is_flag_def is_bool_flag_def flag_arg_def Cut_def HasPrefix_def Let_def)

definition flag_value :: "bytes \<Rightarrow> bytes \<Rightarrow> bytes" where
  "flag_value n v = ''--'' @ n @ ''='' @ v"

lemma parse_flags_value:
  "is_flag n \<Longrightarrow>
     parse_flags (flag_value n v # args) f =
       (case set_flag n v f of None \<Rightarrow> Inl (BadValue n v) | Some f1 \<Rightarrow> parse_flags args f1)"
  by (simp only: flag_value_def parse_flags.simps flag_arg_value) (auto split: option.splits)

text \<open>A flag that takes a value is the same with one dash or two, and with the value after \<^verbatim>\<open>=\<close> or as the next argument.\<close>

lemma flag_spellings:
  assumes "is_flag n" "\<not> is_bool_flag n"
  shows "parse_flags ((''--'' @ n) # v # args) f = parse_flags (flag_value n v # args) f"
    and "parse_flags ((''-'' @ n) # v # args) f = parse_flags (flag_value n v # args) f"
    and "parse_flags ((''-'' @ n @ ''='' @ v) # args) f = parse_flags (flag_value n v # args) f"
  using assms by (simp_all only: flag_value_def parse_flags.simps flag_arg_value flag_arg_bare) auto

definition bool_text :: "bool \<Rightarrow> bytes" where
  "bool_text b = (if b then ''true'' else ''false'')"

definition upstream_arg :: "Upstream \<Rightarrow> bytes" where
  "upstream_arg u = flag_value ''upstream'' (Name u @ ''='' @ URL u)"

definition flag_args :: "cmd_flags \<Rightarrow> bytes list" where
  "flag_args f =
     [flag_value ''config'' (fConfig f), flag_value ''listen'' (fListen f), flag_value ''audit'' (fAudit f),
      flag_value ''lock-file'' (fLockFile f), flag_value ''version'' (bool_text (fVersion f)),
      flag_value ''check'' (bool_text (fCheck f)), flag_value ''lock-init'' (bool_text (fLockInit f))]
     @ map upstream_arg (fUps f)"

definition flag_upstream :: "Upstream \<Rightarrow> bool" where
  "flag_upstream u \<longleftrightarrow> u = zero_upstream\<lparr>Name := Name u, URL := URL u\<rparr> \<and> Name u \<noteq> [] \<and> URL u \<noteq> [] \<and> CHR ''='' \<notin> set (Name u)"

lemma ParseBool_text [simp]: "ParseBool (bool_text b) = Some b"
  by (cases b) (simp_all add: ParseBool_def bool_text_def)

lemma Cut_first: "c \<notin> set n \<Longrightarrow> Cut (n @ c # r) c = (n, r, True)"
proof -
  assume "c \<notin> set n"
  then have "dropWhile (\<lambda>x. x \<noteq> c) (n @ c # r) = c # r" "takeWhile (\<lambda>x. x \<noteq> c) (n @ c # r) = n"
    by (auto intro!: takeWhile_append_stop dropWhile_append_stop)
  then show ?thesis by (simp add: Cut_def)
qed

lemma upstream_Set_arg:
  assumes "flag_upstream u"
  shows "upstream_Set (Name u @ ''='' @ URL u) f = Some (f\<lparr>fUps := fUps f @ [u]\<rparr>)"
  using assms by (simp add: flag_upstream_def upstream_Set_def ParseUpstreamFlag_def Cut_first)

lemma parse_upstreams:
  "\<forall>u \<in> set us. flag_upstream u \<Longrightarrow> parse_flags (map upstream_arg us) f = Inr (f\<lparr>fUps := fUps f @ us\<rparr>)"
proof (induction us arbitrary: f)
  case (Cons u us)
  have "parse_flags (map upstream_arg (u # us)) f = parse_flags (map upstream_arg us) (f\<lparr>fUps := fUps f @ [u]\<rparr>)"
    using parse_flags_value [of "''upstream''" "Name u @ ''='' @ URL u" "map upstream_arg us" f] upstream_Set_arg [of u f] Cons.prems
    by (simp add: upstream_arg_def is_flag_def set_flag_def)
  with Cons show ?case by simp
qed simp

text \<open>
  C28. The flags round trip: whatever the settings, the arguments that spell them out parse back to
  exactly them, the upstreams in their order, even when a value is empty, starts with a dash or
  holds an equals sign.
\<close>

theorem flags_roundtrip:
  assumes "\<forall>u \<in> set (fUps f). flag_upstream u"
  shows "parse_flags (flag_args f) no_flags = Inr f"
proof -
  have "parse_flags (flag_args f) no_flags = parse_flags (map upstream_arg (fUps f)) (f\<lparr>fUps := []\<rparr>)"
    by (cases f) (simp add: flag_args_def parse_flags_value is_flag_def is_bool_flag_def set_flag_def no_flags_def
      del: parse_flags.simps(2))
  then show ?thesis using parse_upstreams [OF assms, of "f\<lparr>fUps := []\<rparr>"] by simp
qed

definition demo_flags :: cmd_flags where
  "demo_flags = no_flags\<lparr>fListen := ''-x=1'', fCheck := True,
     fUps := [zero_upstream\<lparr>Name := ''fs'', URL := ''http://h?a=b''\<rparr>, zero_upstream\<lparr>Name := ''db'', URL := ''http://d''\<rparr>]\<rparr>"

theorem flags_roundtrip_witness: "parse_flags (flag_args demo_flags) no_flags = Inr demo_flags"
  by (rule flags_roundtrip) (simp add: demo_flags_def no_flags_def flag_upstream_def)


subsection \<open>What a run leaves\<close>

text \<open>The audit file and the scanner pools that are open after some actions.\<close>

fun audit_after :: "action list \<Rightarrow> bytes option \<Rightarrow> bytes option" where
  "audit_after [] a = a"
| "audit_after (OpenAudit p # acts) a = audit_after acts (Some p)"
| "audit_after (CloseAudit p # acts) a = audit_after acts (if a = Some p then None else a)"
| "audit_after (_ # acts) a = audit_after acts a"

fun pools_after :: "action list \<Rightarrow> bytes list \<Rightarrow> bytes list" where
  "pools_after [] ps = ps"
| "pools_after (StartPools ns # acts) ps = pools_after acts (ps @ ns)"
| "pools_after (ClosePools ns # acts) ps = pools_after acts (filter (\<lambda>n. n \<notin> set ns) ps)"
| "pools_after (_ # acts) ps = pools_after acts ps"

lemma audit_after_append [simp]: "audit_after (xs @ ys) a = audit_after ys (audit_after xs a)"
  by (induction xs a rule: audit_after.induct) auto

lemma pools_after_append [simp]: "pools_after (xs @ ys) ps = pools_after ys (pools_after xs ps)"
  by (induction xs ps rule: pools_after.induct) auto

text \<open>\<^verbatim>\<open>New\<close> on a configuration that validates.\<close>

lemma add_upstreams_running: "add_upstreams env cache g us = (Inr g', running) \<Longrightarrow> running = map fst (scanners g')"
  by (induction env cache g us rule: add_upstreams.induct)
    (auto simp: Let_def split: option.splits sum.splits prod.splits)

lemma add_lock_Inl: "add_lock env u cache g = (Inl e, cache1) \<Longrightarrow> \<exists>le. e = UpstreamLockError (Name u) le"
  by (auto simp: add_lock_def split: if_splits sum.splits prod.splits option.splits)

lemma add_scanner_Inl: "add_scanner env u g = Inl e \<Longrightarrow> \<exists>err. e = ScannerStartError (Name u) err"
  by (auto simp: add_scanner_def split: if_splits sum.splits option.splits)

lemma add_upstreams_Inl:
  "add_upstreams env cache g us = (Inl e, running) \<Longrightarrow> \<forall>u \<in> set us. seURL env (URL u) \<noteq> None \<Longrightarrow>
     (\<exists>n le. e = UpstreamLockError n le) \<or> (\<exists>n err. e = ScannerStartError n err) \<and> running = []"
  by (induction env cache g us rule: add_upstreams.induct)
    (auto simp: Let_def split: option.splits sum.splits prod.splits dest!: add_lock_Inl add_scanner_Inl)

lemma validateHTTPURL_parses: "validateHTTPURL up s = None \<Longrightarrow> up s \<noteq> None"
  by (auto simp: validateHTTPURL_def split: option.splits)

lemma New_Inl:
  assumes "Validate (seURL env) c = Inr c" "New env c (Some a) = (Inl e, running)"
  shows "(\<exists>n le. e = UpstreamLockError n le) \<or> (\<exists>n err. e = ScannerStartError n err) \<and> running = []"
proof -
  have "\<forall>u \<in> set (Upstreams c). seURL env (URL u) \<noteq> None"
    using assms(1) validateHTTPURL_parses unfolding Validate_Inr upstream_ok_def by blast
  then show ?thesis using assms add_upstreams_Inl by (auto simp: New_def)
qed

lemma run_config_valid: "run_config env f = Inr c \<Longrightarrow> Validate (seURL (reStart env)) c = Inr c"
  by (auto simp: run_config_def Validate_Inr split: sum.splits if_splits)

lemma Close_all: "New env c (Some a) = (Inr g, running) \<Longrightarrow> Close g running = []"
  using add_upstreams_running by (fastforce simp: New_def Close_def split: sum.splits)

lemma run_gateway_cases:
  assumes "run_gateway env c a = (Exit err, acts)"
  obtains e rest where "New (reStart env) c (Some a) = (Inl e, rest)" "err = Some (GatewayFailed e)" "acts = [StartPools rest]"
  | running sd where "acts = [StartPools running, ListenOn (Listen c)] @ sd @ [ClosePools running]" "sd \<in> {[], [ShutdownServer]}"
      "err = None \<or> (\<exists>e. err = Some (ListenFailed e) \<or> err = Some (ShutdownFailed e))"
proof (cases "New (reStart env) c (Some a)")
  case (Pair r running)
  then show ?thesis
  proof (cases r)
    case (Inl e)
    then show ?thesis using that(1) assms Pair by (auto simp: run_gateway_def)
  next
    case (Inr g)
    then have "Close g running = []" using Pair Close_all by blast
    then show ?thesis using that(2) assms Pair Inr
      by (auto simp: run_gateway_def await_def deferred_def split: serve_end.splits option.splits)
  qed
qed

definition released :: "run_error option \<Rightarrow> action list \<Rightarrow> bool" where
  "released err acts \<longleftrightarrow>
     audit_after acts None = None \<and>
     (pools_after acts [] = [] \<or> (\<exists>n le. err = Some (GatewayFailed (UpstreamLockError n le)))) \<and>
     (\<forall>pre p post l. acts = pre @ CloseAudit p # post \<and> ListenOn l \<in> set pre \<longrightarrow> pools_after pre [] = [])"

lemma released_gateway:
  assumes "Validate (seURL (reStart env)) c = Inr c" "run_gateway env c a = (Exit err, acts)" "file = [] \<or> file = [p]"
  shows "released err (map OpenAudit file @ acts @ map CloseAudit file)"
  using assms(2)
proof (cases rule: run_gateway_cases)
  case (1 e rest)
  then show ?thesis using New_Inl [OF assms(1)] assms(3) by (fastforce simp: released_def append_eq_Cons_conv Cons_eq_append_conv)
next
  case (2 running sd)
  then show ?thesis using assms(3) by (auto simp: released_def append_eq_Cons_conv Cons_eq_append_conv)
qed

lemma released_serve:
  assumes "Validate (seURL (reStart env)) c = Inr c" "run_serve env c = (Exit err, acts)"
  shows "released err acts"
proof (cases "NewAuditor (reAudit env) (AuditPath c)")
  case (Inl e)
  then show ?thesis using assms(2) by (auto simp: run_serve_def released_def)
next
  case (Inr a)
  define af where "af = (if aCloser a then [AuditPath c] else [])"
  obtain acts1 where "run_gateway env c a = (Exit err, acts1)" "acts = map OpenAudit af @ acts1 @ map CloseAudit af"
    using assms(2) Inr
    by (auto simp: run_serve_def af_def [symmetric] deferred_def split: prod.splits run_end.splits)
  moreover have "af = [] \<or> af = [AuditPath c]" by (simp add: af_def)
  ultimately show ?thesis using released_gateway [OF assms(1)] by blast
qed

lemma released_simple [simp]: "released err []" "released err [Print s]" "released err [InitLock r]"
  by (auto simp: released_def Cons_eq_append_conv)


text \<open>A gateway with one scanned upstream and an audit file, stopped by a signal.\<close>

definition quiet_lock_env :: lock_env where
  "quiet_lock_env = \<lparr>leRt = rt0, leURL = demo_url, leURLErr = id, leHTTP = (\<lambda>_. Inl []), leReadErr = [], leStat = (\<lambda>_. False),
     leFile = (\<lambda>_. None), leWrite = (\<lambda>_. Written)\<rparr>"

definition demo_files :: "bytes \<Rightarrow> bytes option" where
  "demo_files p = (if p = ''c.json'' then
     Some (''{'' @ marshal_string ''upstreams'' @ '':[{'' @ marshal_string ''name'' @ '':'' @ marshal_string ''a'' @ '','' @
       marshal_string ''url'' @ '':'' @ marshal_string ''http://h'' @ '','' @
       marshal_string ''promptproof'' @ '':{'' @ marshal_string ''enabled'' @ '':true}}]}'') else None)"

definition demo_run :: run_env where
  "demo_run = \<lparr>reStart = demo_start\<lparr>seFile := demo_files\<rparr>, reLock = quiet_lock_env, reAudit = (\<lambda>_. None), reServe = Signalled None\<rparr>"

definition demo_args :: "bytes list" where
  "demo_args = [''--config'', ''c.json'', ''-audit=log'', ''--upstream'', ''b=http://i'']"

definition demo_actions :: "action list" where
  "demo_actions = [OpenAudit ''log'', StartPools [''a''], ListenOn DefaultListen, ShutdownServer, ClosePools [''a''], CloseAudit ''log'']"

fun same_action :: "action \<Rightarrow> action \<Rightarrow> bool" where
  "same_action (OpenAudit p) (OpenAudit q) = (p = q)"
| "same_action (StartPools p) (StartPools q) = (p = q)"
| "same_action (ListenOn p) (ListenOn q) = (p = q)"
| "same_action ShutdownServer ShutdownServer = True"
| "same_action (ClosePools p) (ClosePools q) = (p = q)"
| "same_action (CloseAudit p) (CloseAudit q) = (p = q)"
| "same_action _ _ = False"

lemma same_actionD: "same_action x y \<Longrightarrow> x = y"
  by (induction x y rule: same_action.induct) auto

lemma demo_run_actions: "run demo_run demo_args = (Exit None, demo_actions)"
proof -
  have "case fst (run demo_run demo_args) of Exit None \<Rightarrow> True | _ \<Rightarrow> False" by code_simp
  moreover have "list_all2 same_action (snd (run demo_run demo_args)) demo_actions" by code_simp
  then have "list_all2 (=) (snd (run demo_run demo_args)) demo_actions" by (rule list_all2_mono) (rule same_actionD)
  ultimately show ?thesis
    by (cases "run demo_run demo_args") (simp add: list.rel_eq split: run_end.splits option.splits)
qed


subsection \<open>Checking a configuration\<close>

text \<open>The errors that do not come from the arguments or the configuration file.\<close>

fun environmental :: "run_error \<Rightarrow> bool" where
  "environmental (AuditFailed e) = True"
| "environmental (GatewayFailed (UpstreamLockError n e)) = True"
| "environmental (GatewayFailed (ScannerStartError n e)) = True"
| "environmental (ListenFailed e) = True"
| "environmental (ShutdownFailed e) = True"
| "environmental _ = False"

lemma run_serve_environmental:
  assumes "Validate (seURL (reStart env)) c = Inr c" "run_serve env c = (Exit (Some e), acts)"
  shows "environmental e"
proof (cases "NewAuditor (reAudit env) (AuditPath c)")
  case (Inl x)
  then show ?thesis using assms(2) by (auto simp: run_serve_def)
next
  case (Inr a)
  then obtain acts1 where "run_gateway env c a = (Exit (Some e), acts1)"
    using assms(2) by (auto simp: run_serve_def deferred_def Let_def split: prod.splits run_end.splits)
  then show ?thesis using New_Inl [OF assms(1)] by (cases rule: run_gateway_cases) fastforce+
qed

lemma run_config_check [simp]: "run_config env (f\<lparr>fCheck := b\<rparr>) = run_config env f"
proof -
  have "with_flags (f\<lparr>fCheck := b\<rparr>) cfg = with_flags f cfg" for cfg by (auto simp: with_flags_def Let_def)
  moreover have "fConfig (f\<lparr>fCheck := b\<rparr>) = fConfig f" by simp
  ultimately show ?thesis by (simp only: run_config_def)
qed



end
