(* ===== verification/Spec2Isabelle.thy ===== *)
theory Spec2Isabelle
  imports Sse_Delivery Error_Answers Body_Reader Scan_Pool Locking Config_File Main_Cmd
begin

text \<open>
  Verification of mcp-gateway-lite, a reverse proxy for Model Context Protocol (MCP) servers written
  in Go.

  \<^bold>\<open>The program.\<close>  The command (\<^verbatim>\<open>cmd/mcp-gateway-lite/main.go\<close>) reads a configuration and serves it
  with a gateway (\<^verbatim>\<open>gateway/gateway.go\<close>), or writes a lockfile (\<^verbatim>\<open>gateway/lockinit.go\<close>).  The gateway routes
  \<^verbatim>\<open>/mcp/<name>\<close> to an upstream server.  A request first meets the upstream's rate limiter
  (\<^verbatim>\<open>ratelimit.go\<close>), then its body is buffered and summarised as JSON-RPC (\<^verbatim>\<open>jsonrpc.go\<close>) and the summary
  is put to the tool policy (\<^verbatim>\<open>policy.go\<close>).  An admitted request goes through
  \<^verbatim>\<open>httputil.ReverseProxy\<close>; on the way back a response that answers a \<^verbatim>\<open>tools/list\<close> or a
  \<^verbatim>\<open>tools/call\<close> is rewritten (\<^verbatim>\<open>responsefilter.go\<close>, for event streams \<^verbatim>\<open>sserewrite.go\<close>): listings are
  verified against a lockfile (\<^verbatim>\<open>lock.go\<close>, digests over the canonical JSON of \<^verbatim>\<open>canonical.go\<close>) and
  filtered by the policy, results of calls are scanned by a coprocess (\<^verbatim>\<open>promptproof.go\<close>).  Every
  request under \<^verbatim>\<open>/mcp/\<close> leaves one line in the audit log (\<^verbatim>\<open>audit.go\<close>).

  \<^bold>\<open>The language and its library.\<close>
  \<^item> \<^verbatim>\<open>Prelude\<close>: byte strings and generic facts on lists and options.
  \<^item> \<^verbatim>\<open>Go_Bytes\<close>: what is used of \<^verbatim>\<open>strings\<close>, \<^verbatim>\<open>bytes\<close>, \<^verbatim>\<open>strconv\<close> and \<^verbatim>\<open>unicode/utf8\<close>.
  \<^item> \<^verbatim>\<open>Go_Json\<close>, \<^verbatim>\<open>Go_Json_Print\<close>, \<^verbatim>\<open>Go_Decode\<close>, \<^verbatim>\<open>Go_Marshal\<close>, \<^verbatim>\<open>Go_Indent\<close>: \<^verbatim>\<open>encoding/json\<close>.  A parsed value
    keeps the bytes it was read from; the parser has Go's nesting limit of 10000, struct fields match
    case-insensitively and the last of equal keys wins.  Printing and parsing are shown to be inverse,
    and compaction and indentation to leave the decoded value alone.
  \<^item> \<^verbatim>\<open>Go_Float\<close>: \<^verbatim>\<open>float64\<close> as rationals with IEEE rounding.
  \<^item> \<^verbatim>\<open>Sha256\<close>: the hash on 32-bit words.
  \<^item> \<^verbatim>\<open>Calls\<close>: sequences of calls on shared state, with the contracts \<open>preserves\<close> and \<open>refines\<close> as locales.

  \<^bold>\<open>The components.\<close>  Structs are records, errors are values of sum types, state is passed explicitly.
  \<^item> \<^verbatim>\<open>Config\<close> and \<^verbatim>\<open>Config_File\<close> (\<^verbatim>\<open>config.go\<close>): \<open>Validate\<close> with every check, the strict decoding of each struct
    and \<open>Load\<close>.  A file with an unknown key at any depth is rejected.
  \<^item> \<^verbatim>\<open>Jsonrpc\<close> and \<^verbatim>\<open>Policy\<close>: the summary of a body and the decision on it.  Allowlists are default-deny,
    denylists block what they name, and a call that passes names a tool that listings keep.
  \<^item> \<^verbatim>\<open>Canonical\<close>: the canonical encoding and its round trip.
  \<^item> \<^verbatim>\<open>Lock\<close>: lockfiles, tool fingerprints and \<open>verify\<close>; with per-tool digests verification is exact, with a
    whole-list digest it is so up to hash collisions.
  \<^item> \<^verbatim>\<open>Lockinit\<close> and \<^verbatim>\<open>Locking\<close> (\<^verbatim>\<open>lockinit.go\<close>, \<open>writeLockFile\<close>): fetching listings over HTTP and writing the
    lockfile.  The number of requests is bounded, what is written verifies against what was
    fetched, and records of other servers keep their values.
  \<^item> \<^verbatim>\<open>Promptproof\<close> (settings, reports, the strings to scan) and \<^verbatim>\<open>Scan_Pool\<close> (the coprocess pool):
    \<open>ppProc\<close>'s operations work on an explicit table of child processes and descriptors; \<open>Scan\<close> and \<open>Close\<close> are
    the steps of any number of goroutines in any order (\<open>scan_step\<close>, \<open>pool_step\<close>).  Coprocesses are owned
    exclusively, none and no descriptor is lost, scans terminate, \<open>Close\<close> stops all coprocesses
    unless a scan has read the flag just before, in which case one can survive.
  \<^item> \<^verbatim>\<open>Responsefilter\<close>, with \<^verbatim>\<open>Filtering\<close> and \<^verbatim>\<open>Scanning\<close>: the rewriting of messages and JSON bodies.  Strict
    processing delivers only allowed, verified listings; results are blocked exactly when a scan says so.
  \<^item> \<^verbatim>\<open>Sserewrite\<close>: the state machine for event streams.  Its output does not depend on how the stream
    is cut into reads, but for one corner case that is proved too.
  \<^item> \<^verbatim>\<open>Ratelimit\<close>: token buckets and the per-session table.  Admissions are bounded in real time, the table
    is bounded and evicts the least recently seen, and while it is not full it refines
    independent buckets.
  \<^item> \<^verbatim>\<open>Audit_Log\<close>: entries as JSON lines and their round trip; failures are reported once.
  \<^item> \<^verbatim>\<open>Proxy\<close> and \<^verbatim>\<open>Gateway\<close> (\<^verbatim>\<open>gateway.go\<close>, \<^verbatim>\<open>wellknown.go\<close>), with \<^verbatim>\<open>Handling\<close> and \<^verbatim>\<open>Serving\<close>: construction, routing and the
    handlers, composed of the components above.  The tables stay consistent with the
    configuration over any sequence of requests; what is forwarded, delivered, refused and audited.
  \<^item> \<^verbatim>\<open>Delivery\<close> and \<^verbatim>\<open>Sse_Delivery\<close>: what a client finds in the bytes it receives, read the way a client reads
    them: a document with white space around it, a batch, or the events of a stream.  Under an
    allowlist every listing found there holds allowed tools only, through the whole chain from
    \<open>ServeHTTP\<close> to the client.  Batches inside events are the exception, which is proved too.
  \<^item> \<^verbatim>\<open>Body_Reader\<close>: the readers the request body is replaced with, as the refinement of the bytes
    and counts that \<open>forward_request\<close> speaks of.
  \<^item> \<^verbatim>\<open>Error_Answers\<close>: the errors the gateway answers itself are JSON-RPC errors, whatever they quote.
  \<^item> \<^verbatim>\<open>Main_Cmd\<close> (\<^verbatim>\<open>main.go\<close>): the flags, the modes and the deferred calls of \<open>run\<close>.

  \<^bold>\<open>Parameters.\<close>  Code that is not in the repository appears as arguments, and what is assumed of it, if
  anything, as hypotheses: the URL parser, the file system, the clock, the HTTP transport and client,
  the coprocess's answers, the iteration order of Go maps (\<open>visits_all\<close>: a permutation), the error
  texts of \<^verbatim>\<open>encoding/json\<close>, how a stream is cut into reads, and how the HTTP server's run ends.

  \<^bold>\<open>Bounds and loops.\<close>  Every function is total.  The parsers recurse on the length of the input with
  Go's depth limit as an argument; \<open>fetch_pages\<close> counts down the hundred pages the code allows.  Go's
  \<^verbatim>\<open>int\<close> is \<open>int\<close>: lengths and counters stay far below 64 bits.  The cap \<open>maxRPCPeek\<close> on buffered bodies
  is the code's.

  \<^bold>\<open>Not modelled.\<close>  Time-outs and connection pooling of the HTTP transport, the HTTP server itself and
  signal delivery; \<^verbatim>\<open>Flush\<close> and \<^verbatim>\<open>Unwrap\<close> of the counting writer, which only pass calls on; texts
  written to standard error, but for the auditor's; the memory model below mutexes and channels.
\<close>

end
